(* ===== verification/Prelude.thy ===== *)
theory Prelude
  imports Main "HOL-Library.Word" "HOL-Library.Monad_Syntax"
begin

unbundle bit_operations_syntax

text \<open>
  Shared vocabulary of the govinDOS development: the C integer types as machine words, the
  compiler's checked arithmetic, and the generic list and option lemmas that the component
  theories use.  A kernel \<open>asserts\<close> failure, a \<open>fatal\<close> and a null dereference all stop the
  machine; throughout the development an operation that can do so returns an \<open>option\<close> and
  \<open>None\<close> is that outcome.
\<close>

section \<open>Machine integers\<close>

type_synonym u8 = "8 word"
type_synonym u16 = "16 word"
type_synonym u32 = "32 word"
type_synonym u64 = "64 word"

named_theorems word_defs \<open>unfolding rules for the checked word operations\<close>

text \<open>\<open>__builtin_add_overflow\<close> and \<open>__builtin_mul_overflow\<close>: \<open>None\<close> when the result wraps.\<close>

definition add_overflow :: "u64 \<Rightarrow> u64 \<Rightarrow> u64 option" where
  "add_overflow a b = (if unat a + unat b < 2 ^ 64 then Some (a + b) else None)"

definition mul_overflow :: "u64 \<Rightarrow> u64 \<Rightarrow> u64 option" where
  "mul_overflow a b = (if unat a * unat b < 2 ^ 64 then Some (a * b) else None)"

lemma add_overflow_Some_unat:
  "add_overflow a b = Some c \<Longrightarrow> unat c = unat a + unat b"
  by (auto simp: add_overflow_def unat_word_ariths split: if_splits)

lemma add_overflow_None_iff: "add_overflow a b = None \<longleftrightarrow> 2 ^ 64 \<le> unat a + unat b"
  by (simp add: add_overflow_def)

lemma mul_overflow_Some_unat:
  "mul_overflow a b = Some c \<Longrightarrow> unat c = unat a * unat b"
  by (auto simp: mul_overflow_def unat_word_ariths split: if_splits)

section \<open>Guards\<close>

text \<open>\<open>asserts b msg\<close>: the machine stops unless the condition holds.\<close>

definition asserts :: "bool \<Rightarrow> unit option" where
  "asserts b = (if b then Some () else None)"

lemma asserts_simps [simp]:
  "asserts True = Some ()" "asserts False = None"
  by (simp_all add: asserts_def)

lemma asserts_Some_iff [simp]: "asserts b = Some u \<longleftrightarrow> b"
  by (simp add: asserts_def)

lemma bind_asserts_Some [simp]:
  "Option.bind (asserts b) f = Some x \<longleftrightarrow> b \<and> f () = Some x"
  by (simp add: asserts_def)

end
