(* ===== verification/Llrb.thy ===== *)
theory Llrb
  imports Prelude
begin

text \<open>
  The owning left-leaning red-black tree template, \<^verbatim>\<open>kernel/vendor/llrb/llrb_impl.h\<close>.
  Every ordered index of the kernel (processes, blocks, share edges, views, threads, futex
  waiters, deadlines, grants, DMA mappings) is an instance of it.

  A node pointer is \<open>Null\<close> or a \<open>Node\<close>.  The \<open>parent\<close> link of a node is a field of its own, written where the
  code writes it; it names the parent by its key, which a node keeps from insertion to removal and
  shares with no other node of the tree.  Dereferencing a null pointer is \<open>None\<close>: the theorems
  below show that insertion and removal never do so on a valid tree.
\<close>

section \<open>Nodes\<close>

datatype ('k, 'v) node =
    Null
  | Node (left: "('k, 'v) node") (key: 'k) (val: 'v) (red: bool) (parent_of: "'k option")
      (right: "('k, 'v) node")
where
  "left Null = Null"
| "right Null = Null"
| "red Null = False"

text \<open>\<open>is_red\<close>: a null node is black.\<close>

abbreviation is_red :: "('k, 'v) node \<Rightarrow> bool" where
  "is_red n \<equiv> red n"

text \<open>\<open>if (n != NULL) n->parent = p\<close>.\<close>

fun set_parent :: "'k option \<Rightarrow> ('k, 'v) node \<Rightarrow> ('k, 'v) node" where
  "set_parent p Null = Null"
| "set_parent p (Node l k v c q r) = Node l k v c p r"

fun rotate_left :: "('k, 'v) node \<Rightarrow> ('k, 'v) node option" where
  "rotate_left (Node a k v c p (Node b k' v' c' p' d)) =
     Some (Node (Node a k v True (Some k') (set_parent (Some k) b)) k' v' c p d)"
| "rotate_left _ = None"

fun rotate_right :: "('k, 'v) node \<Rightarrow> ('k, 'v) node option" where
  "rotate_right (Node (Node a k' v' c' p' b) k v c p d) =
     Some (Node a k' v' c p (Node (set_parent (Some k) b) k v True (Some k') d))"
| "rotate_right _ = None"

fun flip_colors :: "('k, 'v) node \<Rightarrow> ('k, 'v) node option" where
  "flip_colors (Node (Node a ka va ca pa b) k v c p (Node d kd vd cd pd e)) =
     Some (Node (Node a ka va (\<not> ca) pa b) k v (\<not> c) p (Node d kd vd (\<not> cd) pd e))"
| "flip_colors _ = None"

definition fix_up :: "('k, 'v) node \<Rightarrow> ('k, 'v) node option" where
  "fix_up h = (if h = Null then None else do {
     h \<leftarrow> (if is_red (right h) \<and> \<not> is_red (left h) then rotate_left h else Some h);
     h \<leftarrow> (if is_red (left h) \<and> is_red (left (left h)) then rotate_right h else Some h);
     (if is_red (left h) \<and> is_red (right h) then flip_colors h else Some h)
   })"

section \<open>Insertion\<close>

text \<open>
  The result code of \<open>LLRB_LOCAL(insert)\<close>: \<open>-1\<close> out of memory, \<open>0\<close> duplicate, \<open>1\<close> inserted.
  \<open>mem\<close> says whether node storage is available (a spare node, or a successful allocation).
\<close>

datatype insert_result = Oom | Duplicate | Inserted

fun insert_node_at :: "bool \<Rightarrow> 'k option \<Rightarrow> 'k::linorder \<Rightarrow> 'v \<Rightarrow> ('k, 'v) node
    \<Rightarrow> (('k, 'v) node \<times> insert_result) option" where
  "insert_node_at mem p k v Null =
     (if mem then Some (Node Null k v True p Null, Inserted) else Some (Null, Oom))"
| "insert_node_at mem p k v (Node l k' v' c p' r) =
     (if k < k' then do {
        (l', res) \<leftarrow> insert_node_at mem (Some k') k v l;
        if res = Oom then Some (Node l k' v' c p' r, res)
        else do { h \<leftarrow> fix_up (Node l' k' v' c p' r); Some (h, res) }
      }
      else if k > k' then do {
        (r', res) \<leftarrow> insert_node_at mem (Some k') k v r;
        if res = Oom then Some (Node l k' v' c p' r, res)
        else do { h \<leftarrow> fix_up (Node l k' v' c p' r'); Some (h, res) }
      }
      else Some (Node l k' v' c p' r, Duplicate))"

section \<open>Removal\<close>

definition move_red_left :: "('k, 'v) node \<Rightarrow> ('k, 'v) node option" where
  "move_red_left h = do {
     h \<leftarrow> flip_colors h;
     if is_red (left (right h)) then do {
       r \<leftarrow> rotate_right (right h);
       h \<leftarrow> rotate_left (Node (left h) (key h) (val h) (red h) (parent_of h) (set_parent (Some (key h)) r));
       flip_colors h
     } else Some h
   }"

definition move_red_right :: "('k, 'v) node \<Rightarrow> ('k, 'v) node option" where
  "move_red_right h = do {
     h \<leftarrow> flip_colors h;
     if is_red (left (left h)) then do {
       h \<leftarrow> rotate_right h;
       flip_colors h
     } else Some h
   }"

text \<open>The test \<open>!is_red(n) && !is_red(n->left)\<close> reads \<open>n->left\<close> of a possibly null \<open>n\<close>.\<close>

fun both_black :: "('k, 'v) node \<Rightarrow> bool option" where
  "both_black Null = None"
| "both_black n = Some (\<not> is_red n \<and> \<not> is_red (left n))"

lemma set_parent_simps [simp]:
  "set_parent p t = Null \<longleftrightarrow> t = Null" "Null = set_parent p t \<longleftrightarrow> t = Null" "red (set_parent p t) = red t"
  "left (set_parent p t) = left t" "right (set_parent p t) = right t" "set_parent p (set_parent q t) = set_parent p t"
  by (cases t; simp)+

fun node_size :: "('k, 'v) node \<Rightarrow> nat" where
  "node_size Null = 0"
| "node_size (Node l k v c p r) = Suc (node_size l + node_size r)"

lemma node_size_set_parent [simp]: "node_size (set_parent p t) = node_size t"
  by (cases t) auto

lemma node_size_rotate_left: "rotate_left h = Some h' \<Longrightarrow> node_size h' = node_size h"
  by (cases h rule: rotate_left.cases) auto

lemma node_size_rotate_right: "rotate_right h = Some h' \<Longrightarrow> node_size h' = node_size h"
  by (cases h rule: rotate_right.cases) auto

lemma node_size_flip_colors: "flip_colors h = Some h' \<Longrightarrow> node_size h' = node_size h"
  by (cases h rule: flip_colors.cases) auto

lemmas node_size_steps = node_size_rotate_left node_size_rotate_right node_size_flip_colors

lemma node_size_left: "h \<noteq> Null \<Longrightarrow> node_size (left h) < node_size h"
  by (cases h) auto

lemma node_size_right: "h \<noteq> Null \<Longrightarrow> node_size (right h) < node_size h"
  by (cases h) auto

lemma node_size_set_right:
  "h \<noteq> Null \<Longrightarrow> node_size (Node (left h) k v c p r) + node_size (right h) = node_size h + node_size r"
  by (cases h) auto

lemma node_size_move_red_left:
  assumes "move_red_left h = Some h'"
  shows "node_size h' = node_size h"
proof -
  from assms obtain h1 where h1: "flip_colors h = Some h1"
    by (auto simp: move_red_left_def split: bind_splits)
  then have ne: "h1 \<noteq> Null" by (cases h rule: flip_colors.cases) auto
  show ?thesis
    using assms h1 ne
    by (auto simp: move_red_left_def split: bind_splits if_splits
        dest!: node_size_steps dest: node_size_set_right [of h1 "key h1" "val h1" "red h1"])
qed

lemma node_size_move_red_right:
  "move_red_right h = Some h' \<Longrightarrow> node_size h' = node_size h"
  by (auto simp: move_red_right_def split: bind_splits if_splits dest!: node_size_steps)

text \<open>\<open>delete_min\<close> returns the remaining tree and the payload of the node it unlinked.\<close>

function delete_min :: "('k, 'v) node \<Rightarrow> (('k, 'v) node \<times> 'k \<times> 'v) option" where
  "delete_min h = (case h of
     Null \<Rightarrow> None
   | Node l k v c p r \<Rightarrow>
       if l = Null then Some (Null, k, v)
       else do {
         bb \<leftarrow> both_black l;
         h \<leftarrow> (if bb then move_red_left h else Some h);
         (l', kv) \<leftarrow> (if h = Null then None else delete_min (left h));
         h \<leftarrow> fix_up (Node (set_parent (Some (key h)) l') (key h) (val h) (red h) (parent_of h) (right h));
         Some (h, kv)
       })"
  by pat_completeness auto
termination
  by (relation "measure node_size")
    (auto split: if_splits dest!: node_size_move_red_left
      dest: node_size_left)

text \<open>\<open>if (h->right != NULL) h->right->parent = h\<close>, at the end of the branch to the right.\<close>

fun relink_right :: "('k, 'v) node \<Rightarrow> ('k, 'v) node" where
  "relink_right Null = Null"
| "relink_right (Node l k v c p r) = Node l k v c p (set_parent (Some k) r)"

function remove_node :: "'k::linorder \<Rightarrow> ('k, 'v) node
    \<Rightarrow> (('k, 'v) node \<times> 'k \<times> 'v) option" where
  "remove_node k h =
     (if h = Null then None
      else if k < key h then do {
        bb \<leftarrow> both_black (left h);
        h \<leftarrow> (if bb then move_red_left h else Some h);
        (l', kept) \<leftarrow> (if h = Null then None else remove_node k (left h));
        h \<leftarrow> fix_up (Node (set_parent (Some (key h)) l') (key h) (val h) (red h) (parent_of h) (right h));
        Some (h, kept)
      }
      else do {
        h \<leftarrow> (if is_red (left h) then rotate_right h else Some h);
        if k = key h \<and> right h = Null then Some (Null, key h, val h)
        else do {
          bb \<leftarrow> both_black (right h);
          h \<leftarrow> (if bb then move_red_right h else Some h);
          if k = key h then do {
            (r', sk, sv) \<leftarrow> delete_min (right h);
            let succ = Node (set_parent (Some sk) (left h)) sk sv (red h) (parent_of h) (set_parent (Some sk) r');
            h' \<leftarrow> fix_up (relink_right succ);
            Some (h', key h, val h)
          }
          else do {
            (r', kept) \<leftarrow> (if h = Null then None else remove_node k (right h));
            h \<leftarrow> fix_up (relink_right (Node (left h) (key h) (val h) (red h) (parent_of h) r'));
            Some (h, kept)
          }
        }
      })"
  by pat_completeness auto
termination
  by (relation "measure (\<lambda>(k, h). node_size h)")
    (auto split: if_splits dest!: node_size_move_red_left node_size_move_red_right node_size_steps
      dest: node_size_left node_size_right)

declare delete_min.simps [simp del]
declare remove_node.simps [simp del]

section \<open>Shape, contents and order\<close>

fun bh :: "('k, 'v) node \<Rightarrow> nat" where
  "bh Null = 0"
| "bh (Node l k v c p r) = bh l + (if c then 0 else 1)"

text \<open>
  \<open>shape\<close> is the left-leaning red-black shape below a node: equal black heights, no red right
  child, no red node with a red left child.  Insertion below a red node may return a red node
  with a red left child for its parent to repair (\<open>shape_up\<close>), and removal hands \<open>fix_up\<close> a node
  whose children are well-shaped and, if it is red, black (\<open>fixable\<close>).
\<close>

fun shape :: "('k, 'v) node \<Rightarrow> bool" where
  "shape Null = True"
| "shape (Node l k v c p r) =
     (shape l \<and> shape r \<and> bh l = bh r \<and> \<not> red r \<and> (c \<longrightarrow> \<not> red l))"

fun shape_up :: "('k, 'v) node \<Rightarrow> bool" where
  "shape_up Null = True"
| "shape_up (Node l k v c p r) = (shape l \<and> shape r \<and> bh l = bh r \<and> \<not> red r)"

fun fixable :: "('k, 'v) node \<Rightarrow> bool" where
  "fixable Null = False"
| "fixable (Node l k v c p r) =
     (shape l \<and> shape r \<and> bh l = bh r \<and> (c \<longrightarrow> \<not> red l \<and> \<not> red r))"

fun entries :: "('k, 'v) node \<Rightarrow> ('k \<times> 'v) list" where
  "entries Null = []"
| "entries (Node l k v c p r) = entries l @ (k, v) # entries r"

abbreviation keys :: "('k, 'v) node \<Rightarrow> 'k list" where
  "keys t \<equiv> map fst (entries t)"

abbreviation bst :: "('k::linorder, 'v) node \<Rightarrow> bool" where
  "bst t \<equiv> sorted_wrt (<) (keys t)"

lemma set_parent_shape [simp]:
  "bh (set_parent p t) = bh t" "shape (set_parent p t) = shape t" "shape_up (set_parent p t) = shape_up t"
  "entries (set_parent p t) = entries t"
  by (cases t; simp)+

lemma shape_imp_shape_up: "shape t \<Longrightarrow> shape_up t"
  by (cases t) auto

lemma bh_0_shape: "shape t \<Longrightarrow> bh t = 0 \<Longrightarrow> \<not> red t \<Longrightarrow> t = Null"
  by (cases t) auto

lemma red_NodeE:
  assumes "red t"
  obtains l k v p r where "t = Node l k v True p r"
  using assms by (cases t) auto

lemma entries_rotate_left: "rotate_left h = Some h' \<Longrightarrow> entries h' = entries h"
  by (cases h rule: rotate_left.cases) auto

lemma entries_rotate_right: "rotate_right h = Some h' \<Longrightarrow> entries h' = entries h"
  by (cases h rule: rotate_right.cases) auto

lemma entries_flip_colors: "flip_colors h = Some h' \<Longrightarrow> entries h' = entries h"
  by (cases h rule: flip_colors.cases) auto

lemmas entries_steps = entries_rotate_left entries_rotate_right entries_flip_colors

lemma entries_fix_up: "fix_up h = Some h' \<Longrightarrow> entries h' = entries h"
  by (auto simp: fix_up_def split: if_splits bind_splits dest!: entries_steps)

text \<open>What \<open>fix_up\<close> does with a node that insertion or removal hands it.\<close>

lemma fix_up_fixable:
  assumes "fixable h"
  shows "\<exists>t. fix_up h = Some t \<and> shape t \<and> bh t = bh h
    \<and> (red t \<longrightarrow> red h \<or> red (left h) \<and> red (right h))"
proof (cases h)
  case (Node l k v c p r)
  show ?thesis
  proof (cases "red r")
    case True
    then obtain rl rk rv rp rr where r: "r = Node rl rk rv True rp rr" by (rule red_NodeE)
    show ?thesis
      using assms Node r by (cases l) (auto simp: fix_up_def)
  next
    case False
    then show ?thesis
      using assms Node by (cases l) (auto simp: fix_up_def)
  qed
qed (use assms in simp)

lemma fix_up_left_grown:
  assumes "shape (Node l k v c p r)" "bh l' = bh l"
    "red l \<Longrightarrow> shape_up l'" "\<not> red l \<Longrightarrow> shape l'"
  shows "\<exists>t. fix_up (Node l' k v c p r) = Some t \<and> bh t = bh (Node l k v c p r)
    \<and> (if c then shape_up t else shape t)"
proof (cases "red l' \<and> red (left l')")
  case True
  then obtain a ka va pa b k' v' p' d where l': "l' = Node (Node a ka va True pa b) k' v' True p' d"
    by (cases l'; cases "left l'") auto
  then have "red l" "\<not> c" using assms by auto
  then show ?thesis using assms l' by (auto simp: fix_up_def)
next
  case False
  then show ?thesis
    using assms by (cases l') (auto simp: fix_up_def)
qed

lemma fix_up_right_grown:
  assumes "shape (Node l k v c p r)" "bh r' = bh r" "shape r'"
  shows "\<exists>t. fix_up (Node l k v c p r') = Some t \<and> bh t = bh (Node l k v c p r)
    \<and> (if c then shape_up t else shape t)"
proof (cases "red r'")
  case True
  then obtain a k' v' p' b where r': "r' = Node a k' v' True p' b" by (rule red_NodeE)
  then show ?thesis using assms by (cases l) (auto simp: fix_up_def)
next
  case False
  then show ?thesis using assms by (cases l) (auto simp: fix_up_def)
qed

section \<open>Insertion keeps the shape and adds exactly the new entry\<close>

lemma fix_up_shape: "shape (Node l k v c p r) \<Longrightarrow> fix_up (Node l k v c p r) = Some (Node l k v c p r)"
  by (cases l) (auto simp: fix_up_def)

lemma insert_node_at_shape:
  assumes "shape t"
  shows "\<exists>t' res. insert_node_at mem p k v t = Some (t', res) \<and> bh t' = bh t
    \<and> (if red t then shape_up t' else shape t') \<and> (res \<noteq> Inserted \<longrightarrow> t' = t)"
  using assms
proof (induction t arbitrary: p)
  case (Node l k' v' c p' r)
  consider "k < k'" | "k' < k" | "k = k'" by force
  then show ?case
  proof cases
    case 1
    from Node.IH(1) [of "Some k'"] Node.prems obtain l' res where l': "insert_node_at mem (Some k') k v l = Some (l', res)"
      "bh l' = bh l" "if red l then shape_up l' else shape l'" "res \<noteq> Inserted \<longrightarrow> l' = l"
      by auto
    show ?thesis
    proof (cases "res = Inserted")
      case True
      have "\<exists>t. fix_up (Node l' k' v' c p' r) = Some t \<and> bh t = bh (Node l k' v' c p' r)
          \<and> (if c then shape_up t else shape t)"
        using l' by (intro fix_up_left_grown [OF Node.prems]) auto
      then show ?thesis using 1 l' True by auto
    next
      case False
      then show ?thesis
        using 1 l' Node.prems fix_up_shape [OF Node.prems] by (auto intro: shape_imp_shape_up)
    qed
  next
    case 2
    from Node.IH(2) [of "Some k'"] Node.prems obtain r' res where r': "insert_node_at mem (Some k') k v r = Some (r', res)"
      "bh r' = bh r" "shape r'" "res \<noteq> Inserted \<longrightarrow> r' = r"
      by auto
    show ?thesis
    proof (cases "res = Inserted")
      case True
      then show ?thesis using 2 r' fix_up_right_grown [OF Node.prems r'(2,3)] by auto
    next
      case False
      then show ?thesis
        using 2 r' Node.prems fix_up_shape [OF Node.prems] by (auto intro: shape_imp_shape_up)
    qed
  next
    case 3
    then show ?thesis using Node.prems by (auto intro: shape_imp_shape_up)
  qed
qed auto

lemma insort_key_append_left:
  "f x \<le> f y \<Longrightarrow> insort_key f x (xs @ y # ys) = insort_key f x xs @ y # ys"
  by (induction xs) auto

lemma insort_key_append_right:
  "\<forall>z \<in> set (xs @ [y]). f z < f x \<Longrightarrow> insort_key f x (xs @ y # ys) = xs @ y # insort_key f x ys"
  by (induction xs) (auto simp: not_le)

lemma insert_node_at_entries:
  assumes "insert_node_at mem p k v t = Some (t', res)" "bst t"
  shows "res = (if k \<in> set (keys t) then Duplicate else if mem then Inserted else Oom)
    \<and> (res = Inserted \<longrightarrow> entries t' = insort_key fst (k, v) (entries t))"
  using assms
proof (induction t arbitrary: p t' res)
  case (Node l k' v' c p' r)
  note bst = \<open>bst (Node l k' v' c p' r)\<close>
  consider "k < k'" | "k' < k" | "k = k'" by force
  then show ?case
  proof cases
    case 1
    with Node.prems obtain l' where l': "insert_node_at mem (Some k') k v l = Some (l', res)"
      "res = Inserted \<Longrightarrow> entries t' = entries l' @ (k', v') # entries r"
      by (fastforce split: bind_splits if_splits dest: entries_fix_up)
    have "k \<notin> set (keys r)" using 1 bst by (auto simp: sorted_wrt_append)
    with 1 l' Node.IH(1) [OF l'(1)] bst show ?thesis
      by (auto simp: sorted_wrt_append insort_key_append_left)
  next
    case 2
    with Node.prems obtain r' where r': "insert_node_at mem (Some k') k v r = Some (r', res)"
      "res = Inserted \<Longrightarrow> entries t' = entries l @ (k', v') # entries r'"
      by (fastforce split: bind_splits if_splits dest: entries_fix_up)
    have less: "\<forall>z \<in> set (entries l @ [(k', v')]). fst z < k"
      using 2 bst by (auto simp: sorted_wrt_append)
    then have "k \<notin> set (keys l)" by auto
    with 2 r' Node.IH(2) [OF r'(1)] bst less show ?thesis
      by (auto simp: sorted_wrt_append insort_key_append_right)
  next
    case 3
    then show ?thesis using Node.prems by auto
  qed
qed (auto split: if_splits)

section \<open>Parent links\<close>

text \<open>Every node below names its parent; \<open>p\<close> is what the topmost one has to name.\<close>

fun linked :: "'k option \<Rightarrow> ('k, 'v) node \<Rightarrow> bool" where
  "linked p Null = True"
| "linked p (Node l k v c q r) = (q = p \<and> linked (Some k) l \<and> linked (Some k) r)"

lemma linked_set_parent [simp]: "linked p (set_parent p t) \<longleftrightarrow> (\<exists>q. linked q t)"
  by (cases t) auto

lemma linked_rotate_left: "rotate_left h = Some h' \<Longrightarrow> linked p h \<Longrightarrow> linked p h'"
  by (cases h rule: rotate_left.cases) auto

lemma linked_rotate_right: "rotate_right h = Some h' \<Longrightarrow> linked p h \<Longrightarrow> linked p h'"
  by (cases h rule: rotate_right.cases) auto

lemma linked_flip_colors: "flip_colors h = Some h' \<Longrightarrow> linked p h \<Longrightarrow> linked p h'"
  by (cases h rule: flip_colors.cases) auto

lemmas linked_steps = linked_rotate_left linked_rotate_right linked_flip_colors

lemma linked_fix_up: "fix_up h = Some h' \<Longrightarrow> linked p h \<Longrightarrow> linked p h'"
  by (auto simp: fix_up_def split: if_splits bind_splits dest: linked_steps)

lemma linked_insert_node_at:
  "insert_node_at mem p k v t = Some (t', res) \<Longrightarrow> linked p t \<Longrightarrow> linked p t'"
proof (induction t arbitrary: p t' res)
  case (Node l k' v' c p' r)
  have kids: "linked (Some k') l" "linked (Some k') r" "p' = p" using Node.prems(2) by auto
  consider "k < k'" | "k' < k" | "k = k'" by force
  then show ?case
  proof cases
    case 1
    then obtain l' where l': "insert_node_at mem (Some k') k v l = Some (l', res)"
      "t' = Node l k' v' c p' r \<or> fix_up (Node l' k' v' c p' r) = Some t'"
      using Node.prems(1) by (auto split: bind_splits if_splits)
    have "linked p (Node l' k' v' c p' r)" using Node.IH(1) [OF l'(1) kids(1)] kids by simp
    then show ?thesis using l'(2) Node.prems(2) linked_fix_up by blast
  next
    case 2
    then obtain r' where r': "insert_node_at mem (Some k') k v r = Some (r', res)"
      "t' = Node l k' v' c p' r \<or> fix_up (Node l k' v' c p' r') = Some t'"
      using Node.prems(1) by (auto split: bind_splits if_splits)
    have "linked p (Node l k' v' c p' r')" using Node.IH(2) [OF r'(1) kids(2)] kids by simp
    then show ?thesis using r'(2) Node.prems(2) linked_fix_up by blast
  next
    case 3
    then show ?thesis using Node.prems by auto
  qed
qed (auto split: if_splits)

lemma linked_children: "linked p h \<Longrightarrow> h \<noteq> Null \<Longrightarrow>
    parent_of h = p \<and> linked (Some (key h)) (left h) \<and> linked (Some (key h)) (right h)"
  by (cases h) auto

lemma linked_move_red_left:
  assumes "move_red_left h = Some h'" "linked p h"
  shows "linked p h'"
proof -
  obtain h1 where h1: "flip_colors h = Some h1" using assms(1) by (auto simp: move_red_left_def split: bind_splits)
  then have l: "linked p h1" "h1 \<noteq> Null" using linked_flip_colors assms(2) by (blast, cases h rule: flip_colors.cases) auto
  note c = linked_children [OF l]
  show ?thesis
  proof (cases "is_red (left (right h1))")
    case True
    then obtain r h2 where r: "rotate_right (right h1) = Some r" "flip_colors h2 = Some h'"
      "rotate_left (Node (left h1) (key h1) (val h1) (red h1) (parent_of h1) (set_parent (Some (key h1)) r)) = Some h2"
      using assms(1) h1 by (auto simp: move_red_left_def split: bind_splits)
    have "linked (Some (key h1)) r" using linked_rotate_right [OF r(1)] c by blast
    then have "linked p h2" using c by (intro linked_rotate_left [OF r(3)]) (simp, blast)
    then show ?thesis by (rule linked_flip_colors [OF r(2)])
  next
    case False
    then show ?thesis using assms(1) h1 l(1) by (simp add: move_red_left_def)
  qed
qed

lemma linked_move_red_right: "move_red_right h = Some h' \<Longrightarrow> linked p h \<Longrightarrow> linked p h'"
  by (auto simp: move_red_right_def split: bind_splits if_splits dest: linked_steps)

section \<open>Removal keeps the shape and drops exactly the matched entry\<close>

text \<open>
  The states in which \<open>remove\<close> is entered: the node or its left child is red, or (only just
  after \<open>move_red_right\<close> rotated) the node leans right and the key is not to its left.
\<close>

definition removable :: "'k::linorder \<Rightarrow> ('k, 'v) node \<Rightarrow> bool" where
  "removable k h \<longleftrightarrow> fixable h \<and>
     (if red (right h) then \<not> red h \<and> \<not> red (left h) \<and> key h \<le> k else red h \<or> red (left h))"

text \<open>A node whose right subtree is about to be replaced by one of the same black height.\<close>

fun fixable_right :: "('k, 'v) node \<Rightarrow> bool" where
  "fixable_right Null = False"
| "fixable_right (Node l k v c p r) = (shape l \<and> bh l = bh r \<and> (c \<longrightarrow> \<not> red l \<and> \<not> red r))"

lemma red_black_cases:
  assumes "shape h" "red h" "left h \<noteq> Null \<or> right h \<noteq> Null"
  obtains a ka va pa b k v p d kd vd pd e
  where "h = Node (Node a ka va False pa b) k v True p (Node d kd vd False pd e)"
  using assms by (cases h; cases "left h"; cases "right h") auto

lemma move_red_left_ok:
  assumes "shape h" "red h" "both_black (left h) = Some True"
  shows "\<exists>t. move_red_left h = Some t \<and> fixable t \<and> bh t = bh h
    \<and> (red (left t) \<or> red (left (left t))) \<and> entries t = entries h
    \<and> set (keys (left h)) \<subseteq> set (keys (left t))"
proof -
  have "left h \<noteq> Null \<or> right h \<noteq> Null" using assms(3) by auto
  with assms(1,2) obtain a ka va pa b k v p d kd vd pd e where h:
    "h = Node (Node a ka va False pa b) k v True p (Node d kd vd False pd e)"
    by (rule red_black_cases)
  show ?thesis
  proof (cases "red d")
    case True
    then obtain da dk dv dp db where "d = Node da dk dv True dp db" by (rule red_NodeE)
    with assms h show ?thesis by (simp add: move_red_left_def) blast
  next
    case False
    with assms h show ?thesis by (auto simp: move_red_left_def)
  qed
qed

lemma move_red_right_ok:
  assumes "shape h" "red h" "both_black (right h) = Some True"
  shows "\<exists>t. move_red_right h = Some t \<and> fixable_right t \<and> bh t = bh h \<and> entries t = entries h
    \<and> (red t \<longrightarrow> \<not> red (right t))
    \<and> (key t = key h \<and> shape (right t) \<and> red (right t) \<and> set (keys (right h)) \<subseteq> set (keys (right t))
       \<or> key h \<in> set (keys (right t)) \<and> set (keys (right h)) \<subseteq> set (keys (right t))
          \<and> key t \<in> set (keys (left h)) \<and> (\<forall>k \<ge> key h. removable k (right t)))"
proof -
  have "left h \<noteq> Null \<or> right h \<noteq> Null" using assms(3) by auto
  with assms(1,2) obtain a ka va pa b k v p d kd vd pd e where h:
    "h = Node (Node a ka va False pa b) k v True p (Node d kd vd False pd e)"
    by (rule red_black_cases)
  show ?thesis
  proof (cases "red a")
    case True
    then obtain aa ak av ap ab where "a = Node aa ak av True ap ab" by (rule red_NodeE)
    with assms h show ?thesis by (auto simp: move_red_right_def removable_def)
  next
    case False
    with assms h show ?thesis by (auto simp: move_red_right_def)
  qed
qed

text \<open>Putting a subtree of the same black height back and repairing the node.\<close>

lemma fix_up_replace_left:
  assumes "fixable (Node l k v c p r)" "shape l'" "bh l' = bh l" "red l' \<longrightarrow> red l"
  shows "\<exists>t. fix_up (Node (set_parent q l') k v c p r) = Some t \<and> shape t \<and> bh t = bh (Node l k v c p r)
    \<and> (red t \<longrightarrow> c \<or> red l \<and> red r) \<and> entries t = entries l' @ (k, v) # entries r"
proof -
  let ?h = "Node (set_parent q l') k v c p r"
  have "fixable ?h" using assms by auto
  from fix_up_fixable [OF this] obtain t where "fix_up ?h = Some t" "shape t"
    "bh t = bh ?h" "red t \<longrightarrow> c \<or> red l' \<and> red r" by auto
  with assms entries_fix_up [of ?h t] show ?thesis by auto
qed

lemma fix_up_replace_right:
  assumes "fixable_right (Node l k v c p r)" "shape r'" "bh r' = bh r" "red r' \<longrightarrow> red r" "l' \<in> {l, set_parent q l}"
  shows "\<exists>t. fix_up (Node l' k' v' c p' (set_parent q' r')) = Some t \<and> shape t \<and> bh t = bh (Node l k v c p r)
    \<and> (red t \<longrightarrow> c \<or> red l \<and> red r) \<and> entries t = entries l @ (k', v') # entries r'"
proof -
  let ?h = "Node l' k' v' c p' (set_parent q' r')"
  have "fixable ?h" using assms by auto
  from fix_up_fixable [OF this] obtain t where "fix_up ?h = Some t" "shape t"
    "bh t = bh ?h" "red t \<longrightarrow> c \<or> red l' \<and> red r'" by auto
  with assms entries_fix_up [of ?h t] show ?thesis by auto
qed

lemma enter_left:
  assumes "shape h" "red h \<or> red (left h)" "left h \<noteq> Null"
  shows "\<exists>bb t. both_black (left h) = Some bb \<and> (if bb then move_red_left h else Some h) = Some t
    \<and> t \<noteq> Null \<and> fixable t \<and> bh t = bh h \<and> (red (left t) \<or> red (left (left t))) \<and> entries t = entries h
    \<and> (red t \<or> red (left t) \<and> red (right t) \<longrightarrow> red h) \<and> node_size (left t) < node_size h
    \<and> set (keys (left h)) \<subseteq> set (keys (left t))"
proof (cases "both_black (left h) = Some True")
  case True
  then have r: "red h" using assms by (cases "left h") auto
  from move_red_left_ok [OF assms(1) r True] obtain t where t: "move_red_left h = Some t"
    "fixable t" "bh t = bh h" "red (left t) \<or> red (left (left t))" "entries t = entries h"
    "set (keys (left h)) \<subseteq> set (keys (left t))" by blast
  have "t \<noteq> Null" using t(2) by auto
  with t r True node_size_left [of t] node_size_move_red_left [OF t(1)] show ?thesis by auto
next
  case False
  with assms have *: "both_black (left h) = Some False" "h \<noteq> Null" by (cases "left h"; auto)+
  then have "red (left h) \<or> red (left (left h))" "fixable h"
    using assms by (cases h; cases "left h"; auto)+
  with * assms node_size_left [of h] show ?thesis by (cases h) auto
qed

lemma delete_min_ok:
  assumes "shape h" "red h \<or> red (left h)"
  shows "\<exists>t k v. delete_min h = Some (t, k, v) \<and> shape t \<and> bh t = bh h \<and> (red t \<longrightarrow> red h)
    \<and> entries h = (k, v) # entries t \<and> (\<forall>p. linked p h \<longrightarrow> linked p t)"
  using assms
proof (induction "node_size h" arbitrary: h rule: less_induct)
  case less
  then obtain l k v c p r where h: "h = Node l k v c p r" by (cases h) auto
  show ?case
  proof (cases "l = Null")
    case True
    then have "r = Null" using less.prems h bh_0_shape by auto
    then show ?thesis using True less.prems h by (simp add: delete_min.simps)
  next
    case ne: False
    then have "left h \<noteq> Null" using h by simp
    from enter_left [OF less.prems this] obtain bb t where
      bb: "both_black (left h) = Some bb" and
      t: "(if bb then move_red_left h else Some h) = Some t" "t \<noteq> Null" and
      n: "fixable t" "bh t = bh h" "red (left t) \<or> red (left (left t))" "entries t = entries h"
      "red t \<or> red (left t) \<and> red (right t) \<longrightarrow> red h" "node_size (left t) < node_size h"
      by blast
    from t(2) obtain tl tk tv tc tp tr where tn: "t = Node tl tk tv tc tp tr" by (cases t) auto
    note n = n [unfolded tn node.sel]
    then obtain l' k' v' where l': "delete_min tl = Some (l', k', v')" "shape l'" "bh l' = bh tl"
      "red l' \<longrightarrow> red tl" "entries tl = (k', v') # entries l'" "\<forall>p. linked p tl \<longrightarrow> linked p l'"
      using less.hyps [OF n(6)] by auto
    from fix_up_replace_left [OF n(1) l'(2,3,4), of "Some tk"] obtain t' where
      t': "fix_up (Node (set_parent (Some tk) l') tk tv tc tp tr) = Some t'" "shape t'" "bh t' = bh (Node tl tk tv tc tp tr)"
      "red t' \<longrightarrow> tc \<or> red tl \<and> red tr" "entries t' = entries l' @ (tk, tv) # entries tr" by blast
    have "delete_min h = Some (t', k', v')"
      using ne bb t(1) l'(1) t'(1) unfolding h tn
      by (subst delete_min.simps) (simp split del: if_split)
    moreover have "linked p t'" if "linked p h" for p
    proof -
      have "linked p t" using t(1) that linked_move_red_left by (auto split: if_splits)
      then show ?thesis using l'(6) t'(1) unfolding tn by (intro linked_fix_up [OF t'(1)]) (simp, blast)
    qed
    ultimately show ?thesis using t' l' n by auto
  qed
qed

lemma shape_removable:
  "shape h \<Longrightarrow> red h \<or> red (left h) \<Longrightarrow> removable k h"
  by (cases h) (auto simp: removable_def)

lemma bst_keys_left: "bst h \<Longrightarrow> k \<in> set (keys h) \<Longrightarrow> k < key h \<Longrightarrow> k \<in> set (keys (left h))"
  by (cases h) (auto simp: sorted_wrt_append)

lemma bst_keys_right: "bst h \<Longrightarrow> k \<in> set (keys h) \<Longrightarrow> key h < k \<Longrightarrow> k \<in> set (keys (right h))"
  by (cases h) (auto simp: sorted_wrt_append)

lemma bst_left: "bst h \<Longrightarrow> bst (left h)"
  by (cases h) (auto simp: sorted_wrt_append)

lemma bst_right: "bst h \<Longrightarrow> bst (right h)"
  by (cases h) (auto simp: sorted_wrt_append)

lemma bst_left_less: "bst h \<Longrightarrow> k \<in> set (keys (left h)) \<Longrightarrow> k < key h"
  by (cases h) (auto simp: sorted_wrt_append)

text \<open>What \<open>remove\<close> descends into when the key is not to the left of the node.\<close>

definition right_step :: "'k::linorder \<Rightarrow> ('k, 'v) node \<Rightarrow> ('k, 'v) node \<Rightarrow> bool" where
  "right_step k h t \<longleftrightarrow> fixable_right t \<and> bh t = bh h \<and> entries t = entries h
    \<and> (red t \<or> red (left t) \<and> red (right t) \<longrightarrow> red h)
    \<and> (if k = key t then shape (right t) \<and> (red (right t) \<or> red (left (right t)))
       else k \<in> set (keys (right t)) \<and> removable k (right t))"

lemma right_step_rotated:
  assumes "removable k h" "bst h" "k \<in> set (keys h)" "key h \<le> k" "red (left h)"
  shows "\<exists>h1. rotate_right h = Some h1 \<and> both_black (right h1) = Some False \<and> right_step k h h1"
proof -
  from assms obtain a ka va pa b k0 v0 p0 d where
    h: "h = Node (Node a ka va True pa b) k0 v0 False p0 d"
    by (cases h; cases "left h") (auto simp: removable_def split: if_splits)
  have "k \<in> set (keys (Node b k0 v0 True p0 d))" "k \<noteq> ka"
    using assms h by (auto simp: sorted_wrt_append)
  then show ?thesis
    using assms h by (auto simp: right_step_def removable_def split: if_splits)
qed

lemma right_step_straight:
  assumes "removable k h" "bst h" "k \<in> set (keys h)" "key h \<le> k" "\<not> red (left h)"
    "right h \<noteq> Null"
  shows "\<exists>bb t. both_black (right h) = Some bb
    \<and> (if bb then move_red_right h else Some h) = Some t \<and> right_step k h t"
proof (cases "both_black (right h) = Some True")
  case True
  then have h: "shape h" "red h" "\<not> red (right h)" using assms
    by (cases h; cases "right h"; auto simp: removable_def split: if_splits)+
  have kr: "k \<noteq> key h \<Longrightarrow> k \<in> set (keys (right h))"
    using assms by (intro bst_keys_right) auto
  from move_red_right_ok [OF h(1,2) True] obtain t where t: "move_red_right h = Some t"
    "fixable_right t" "bh t = bh h" "entries t = entries h" "red t \<longrightarrow> \<not> red (right t)"
    "key t = key h \<and> shape (right t) \<and> red (right t) \<and> set (keys (right h)) \<subseteq> set (keys (right t))
      \<or> key h \<in> set (keys (right t)) \<and> set (keys (right h)) \<subseteq> set (keys (right t))
        \<and> key t \<in> set (keys (left h)) \<and> (\<forall>k \<ge> key h. removable k (right t))" by blast
  have "key t \<in> set (keys (left h)) \<Longrightarrow> key t < k"
    using bst_left_less [OF assms(2)] assms(4) by force
  with t kr h(2) assms(4) have "right_step k h t"
    by (auto simp: right_step_def intro: shape_removable)
  with True t(1) show ?thesis by auto
next
  case False
  then have bb: "both_black (right h) = Some False"
    using assms(6) by (cases "right h") auto
  have kr: "k \<noteq> key h \<Longrightarrow> k \<in> set (keys (right h))"
    using assms by (intro bst_keys_right) auto
  with bb assms have "right_step k h h"
    by (cases h; cases "right h")
      (auto simp: right_step_def removable_def split: if_splits)
  with bb show ?thesis by auto
qed

lemma remove_node_last:
  assumes "removable k h" "k \<in> set (keys h)" "bst h" "key h \<le> k" "\<not> red (left h)" "right h = Null"
  shows "\<exists>v. entries h = [(k, v)] \<and> remove_node k h = Some (Null, k, v) \<and> bh h = 0"
proof -
  from assms have "left h = Null" "h \<noteq> Null" "red h"
    using bh_0_shape [of "left h"] by (cases h; auto simp: removable_def)+
  with assms show ?thesis
    by (cases h) (auto simp: remove_node.simps)
qed

lemma remove_node_left:
  assumes "k < key h" "h \<noteq> Null" "both_black (left h) = Some bb"
    "(if bb then move_red_left h else Some h) = Some (Node l k1 v1 c p1 r)"
    "remove_node k l = Some (l', kept)" "fix_up (Node (set_parent (Some k1) l') k1 v1 c p1 r) = Some t"
  shows "remove_node k h = Some (t, kept)"
  using assms by (subst remove_node.simps) (simp split del: if_split)

lemma remove_node_right:
  assumes "\<not> k < key h" "h \<noteq> Null" "(if red (left h) then rotate_right h else Some h) = Some h1"
    "\<not> (k = key h1 \<and> right h1 = Null)" "both_black (right h1) = Some bb"
    "(if bb then move_red_right h1 else Some h1) = Some (Node l k1 v1 c p1 r)"
  shows "remove_node k h =
    (if k = k1 then do {
       (r', sk, sv) \<leftarrow> delete_min r;
       t \<leftarrow> fix_up (Node (set_parent (Some sk) l) sk sv c p1 (set_parent (Some sk) r'));
       Some (t, k1, v1) }
     else do {
       (r', kept) \<leftarrow> remove_node k r;
       t \<leftarrow> fix_up (Node l k1 v1 c p1 (set_parent (Some k1) r'));
       Some (t, kept) })"
  using assms by (cases "k = key h1"; cases "k = k1"; subst remove_node.simps)
    (simp_all split del: if_split)

text \<open>One unfolding of \<open>remove\<close> to the right, given that the recursive call succeeds.\<close>

definition removed :: "'k \<Rightarrow> ('k, 'v) node \<Rightarrow> (('k, 'v) node \<times> 'k \<times> 'v) option \<Rightarrow> bool" where
  "removed k h res \<longleftrightarrow> (\<exists>t v. res = Some (t, k, v) \<and> shape t \<and> bh t = bh h \<and> (red t \<longrightarrow> red h)
    \<and> (\<exists>xs ys. entries h = xs @ (k, v) # ys \<and> entries t = xs @ ys) \<and> (\<forall>p. linked p h \<longrightarrow> linked p t))"

lemma removedE:
  assumes "removed k h res"
  obtains t v xs ys where "res = Some (t, k, v)" "shape t" "bh t = bh h" "red t \<longrightarrow> red h"
    "entries h = xs @ (k, v) # ys" "entries t = xs @ ys" "\<forall>p. linked p h \<longrightarrow> linked p t"
  using assms by (auto simp: removed_def)

lemma removedI:
  assumes "res = Some (t, k, v)" "shape t" "bh t = bh h" "red t \<longrightarrow> red h"
    "entries h = xs @ (k, v) # ys" "entries t = xs @ ys" "\<And>p. linked p h \<Longrightarrow> linked p t"
  shows "removed k h res"
  using assms by (auto simp: removed_def)

lemma removed_right:
  assumes "h \<noteq> Null" "\<not> k < key h" "(if red (left h) then rotate_right h else Some h) = Some h1"
    "\<not> (k = key h1 \<and> right h1 = Null)" "both_black (right h1) = Some bb"
    "(if bb then move_red_right h1 else Some h1) = Some t" "right_step k h t"
    "k \<noteq> key t \<Longrightarrow> removed k (right t) (remove_node k (right t))"
  shows "removed k h (remove_node k h)"
proof -
  from assms(7) obtain l k1 v1 c p1 r where t: "t = Node l k1 v1 c p1 r"
    by (cases t) (auto simp: right_step_def)
  note step = assms(7) [unfolded right_step_def t node.sel]
  note eq = remove_node_right [OF assms(2,1,3-5) assms(6) [unfolded t]]
  have lt: "linked p (Node l k1 v1 c p1 r)" if "linked p h" for p
  proof -
    have "linked p h1" using assms(3) that linked_rotate_right by (auto split: if_splits)
    then have "linked p t" using assms(6) linked_move_red_right [OF _ \<open>linked p h1\<close>] by (cases bb) simp_all
    then show ?thesis by (simp only: t)
  qed
  show ?thesis
  proof (cases "k = k1")
    case True
    with step delete_min_ok [of r] obtain r' sk sv where r': "delete_min r = Some (r', sk, sv)"
      "shape r'" "bh r' = bh r" "red r' \<longrightarrow> red r" "entries r = (sk, sv) # entries r'"
      "\<forall>p. linked p r \<longrightarrow> linked p r'" by auto
    from fix_up_replace_right [of l k1 v1 c p1 r r' "set_parent (Some sk) l" "Some sk" sk sv p1 "Some sk"] step r' obtain t' where
      t': "fix_up (Node (set_parent (Some sk) l) sk sv c p1 (set_parent (Some sk) r')) = Some t'" "shape t'" "bh t' = bh (Node l k1 v1 c p1 r)"
      "red t' \<longrightarrow> c \<or> red l \<and> red r" "entries t' = entries l @ entries r" by auto
    have "remove_node k h = Some (t', k, v1)" using True r' t' eq by simp
    moreover have "linked p t'" if "linked p h" for p
      using lt [OF that] r'(6) by (intro linked_fix_up [OF t'(1)]) (simp, blast)
    ultimately show ?thesis
      by (intro removedI [where t = t' and v = v1 and xs = "entries l" and ys = "entries r"]) (use True t' step in auto)
  next
    case False
    then obtain r' v xs ys where r': "remove_node k r = Some (r', k, v)"
      "shape r'" "bh r' = bh r" "red r' \<longrightarrow> red r" "entries r = xs @ (k, v) # ys" "entries r' = xs @ ys"
      "\<forall>p. linked p r \<longrightarrow> linked p r'"
      using assms(8) t by (auto elim: removedE)
    from fix_up_replace_right [of l k1 v1 c p1 r r' l None k1 v1 p1 "Some k1"] step r' obtain t' where
      t': "fix_up (Node l k1 v1 c p1 (set_parent (Some k1) r')) = Some t'" "shape t'" "bh t' = bh (Node l k1 v1 c p1 r)"
      "red t' \<longrightarrow> c \<or> red l \<and> red r" "entries t' = entries l @ (k1, v1) # xs @ ys" by auto
    have "remove_node k h = Some (t', k, v)" using False r' t' eq by simp
    moreover have "linked p t'" if "linked p h" for p
      using lt [OF that] r'(7) by (intro linked_fix_up [OF t'(1)]) (simp, blast)
    ultimately show ?thesis
      by (intro removedI [where t = t' and v = v and xs = "entries l @ (k1, v1) # xs" and ys = ys])
        (use t' r' step in auto)
  qed
qed

lemma removed_left:
  assumes "h \<noteq> Null" "k < key h" "shape h" "red h \<or> red (left h)" "left h \<noteq> Null"
    "\<And>t. fixable t \<Longrightarrow> red (left t) \<or> red (left (left t)) \<Longrightarrow> entries t = entries h \<Longrightarrow>
      node_size (left t) < node_size h \<Longrightarrow> set (keys (left h)) \<subseteq> set (keys (left t)) \<Longrightarrow>
      removed k (left t) (remove_node k (left t))"
  shows "removed k h (remove_node k h)"
proof -
  from enter_left [OF assms(3-5)] obtain bb t where
    bb: "both_black (left h) = Some bb" and
    t: "(if bb then move_red_left h else Some h) = Some t" "t \<noteq> Null" and
    n: "fixable t" "bh t = bh h" "red (left t) \<or> red (left (left t))" "entries t = entries h"
    "red t \<or> red (left t) \<and> red (right t) \<longrightarrow> red h" "node_size (left t) < node_size h"
    "set (keys (left h)) \<subseteq> set (keys (left t))"
    by blast
  from t(2) obtain l k1 v1 c p1 r where tn: "t = Node l k1 v1 c p1 r" by (cases t) auto
  from assms(6) [OF n(1,3,4,6,7)] obtain l' v xs ys where l': "remove_node k l = Some (l', k, v)"
    "shape l'" "bh l' = bh l" "red l' \<longrightarrow> red l" "entries l = xs @ (k, v) # ys" "entries l' = xs @ ys"
    "\<forall>p. linked p l \<longrightarrow> linked p l'"
    using tn by (auto elim: removedE)
  from fix_up_replace_left [OF n(1) [unfolded tn] l'(2-4), of "Some k1"] obtain t' where
    t': "fix_up (Node (set_parent (Some k1) l') k1 v1 c p1 r) = Some t'" "shape t'" "bh t' = bh (Node l k1 v1 c p1 r)"
    "red t' \<longrightarrow> c \<or> red l \<and> red r" "entries t' = entries l' @ (k1, v1) # entries r" by blast
  have "remove_node k h = Some (t', k, v)"
    by (rule remove_node_left [OF assms(2,1) bb t(1) [unfolded tn] l'(1) t'(1)])
  moreover have "linked p t'" if "linked p h" for p
  proof -
    have "linked p t" using t(1) that linked_move_red_left by (auto split: if_splits)
    then show ?thesis using l'(7) unfolding tn by (intro linked_fix_up [OF t'(1)]) (simp, blast)
  qed
  ultimately show ?thesis
    by (intro removedI [where t = t' and v = v and xs = xs and ys = "ys @ (k1, v1) # entries r"])
      (use t' l' n tn in auto)
qed

lemma remove_node_ok:
  assumes "removable k h" "bst h" "k \<in> set (keys h)"
  shows "removed k h (remove_node k h)"
  using assms
proof (induction "node_size h" arbitrary: h rule: less_induct)
  case less
  then have ne: "h \<noteq> Null" by auto
  show ?case
  proof (cases "k < key h")
    case True
    then have sh: "shape h" "red h \<or> red (left h)"
      using less.prems by (cases h; auto simp: removable_def split: if_splits)+
    have kl: "k \<in> set (keys (left h))" using less.prems True by (intro bst_keys_left) auto
    show ?thesis
    proof (rule removed_left [OF ne True sh])
      show "left h \<noteq> Null" using kl by auto
      fix t :: "('a, 'b) node"
      assume t: "fixable t" "red (left t) \<or> red (left (left t))" "entries t = entries h"
        "node_size (left t) < node_size h" "set (keys (left h)) \<subseteq> set (keys (left t))"
      then have "shape (left t)" by (cases t) auto
      then show "removed k (left t) (remove_node k (left t))"
        using t less.prems(2) kl bst_left [of t]
        by (intro less.hyps shape_removable) auto
    qed
  next
    case False
    then have le: "key h \<le> k" by simp
    have rec: "removed k (right t) (remove_node k (right t))"
      if "right_step k h t" "k \<noteq> key t" "node_size t = node_size h" for t
    proof (rule less.hyps)
      have "t \<noteq> Null" using that(1) by (auto simp: right_step_def)
      then show "node_size (right t) < node_size h" using that(3) node_size_right by metis
      show "removable k (right t)" "k \<in> set (keys (right t))" "bst (right t)"
        using that less.prems(2) bst_right [of t] by (auto simp: right_step_def)
    qed
    show ?thesis
    proof (cases "red (left h)")
      case True
      with right_step_rotated [OF less.prems le] obtain h1 where
        "rotate_right h = Some h1" "both_black (right h1) = Some False" "right_step k h h1" by blast
      with True show ?thesis
        by (intro removed_right [OF ne False, of h1 False h1])
          (auto intro!: rec dest: node_size_rotate_right)
    next
      case nred: False
      show ?thesis
      proof (cases "right h = Null")
        case True
        then show ?thesis
          using remove_node_last [OF less.prems(1,3,2) le nred] by (auto simp: removed_def)
      next
        case False
        from right_step_straight [OF less.prems le nred False] obtain bb t where
          t: "both_black (right h) = Some bb" "(if bb then move_red_right h else Some h) = Some t"
          "right_step k h t" by blast
        moreover have "node_size t = node_size h"
          using t(2) by (auto split: if_splits dest: node_size_move_red_right)
        ultimately show ?thesis
          using nred False \<open>\<not> k < key h\<close>
          by (intro removed_right [OF ne _ _ _ t]) (auto intro: rec)
      qed
    qed
  qed
qed

end
