(* ===== verification/Llrb_Map.thy ===== *)
theory Llrb_Map
  imports Llrb
begin

text \<open>
  The tree object and its public operations (second half of
  \<^verbatim>\<open>kernel/vendor/llrb/llrb_impl.h\<close>): insertion, lookup, floor, removal, in-order iteration through
  parent links, and the self-check \<open>_valid\<close>.  The end of the theory packs valid trees into the
  type \<open>omap\<close> that every kernel index uses, and states its contract as the locale \<open>ordered_index\<close>.
\<close>

section \<open>The tree object\<close>

record ('k, 'v) llrb =
  root :: "('k, 'v) node"
  len :: nat

definition llrb_new :: "('k, 'v) llrb" where
  "llrb_new = \<lparr>root = Null, len = 0\<rparr>"

text \<open>\<open>_clear\<close> frees every node; what remains is the empty tree.\<close>

definition llrb_clear :: "('k, 'v) llrb \<Rightarrow> ('k, 'v) llrb" where
  "llrb_clear t = t\<lparr>root := Null, len := 0\<rparr>"

fun set_red :: "bool \<Rightarrow> ('k, 'v) node \<Rightarrow> ('k, 'v) node" where
  "set_red c Null = Null"
| "set_red c (Node l k v c' p r) = Node l k v c p r"

text \<open>\<open>mem\<close>: node storage is available.  \<open>_insert_node\<close> brings its own node, so it is \<open>True\<close> there.\<close>

definition llrb_insert :: "bool \<Rightarrow> 'k::linorder \<Rightarrow> 'v \<Rightarrow> ('k, 'v) llrb
    \<Rightarrow> (('k, 'v) llrb \<times> bool) option" where
  "llrb_insert mem k v t = do {
     (r, result) \<leftarrow> insert_node_at mem None k v (root t);
     let t = t\<lparr>root := set_red False (set_parent None r)\<rparr>;
     let t = (if result = Inserted then t\<lparr>len := len t + 1\<rparr> else t);
     Some (t, result = Inserted)
   }"

definition llrb_insert_node :: "'k::linorder \<Rightarrow> 'v \<Rightarrow> ('k, 'v) llrb
    \<Rightarrow> (('k, 'v) llrb \<times> bool) option" where
  "llrb_insert_node k v t = llrb_insert True k v t"

fun get_loop :: "'k::linorder \<Rightarrow> ('k, 'v) node \<Rightarrow> 'v option" where
  "get_loop k Null = None"
| "get_loop k (Node l k' v c p' r) =
     (if k < k' then get_loop k l else if k > k' then get_loop k r else Some v)"

definition llrb_get :: "('k::linorder, 'v) llrb \<Rightarrow> 'k \<Rightarrow> 'v option" where
  "llrb_get t k = get_loop k (root t)"

text \<open>
  \<open>_get_ref\<close> hands out a pointer to the stored value; \<open>modify_loop\<close> is a write through it.
\<close>

fun modify_loop :: "'k::linorder \<Rightarrow> ('v \<Rightarrow> 'v) \<Rightarrow> ('k, 'v) node \<Rightarrow> ('k, 'v) node" where
  "modify_loop k f Null = Null"
| "modify_loop k f (Node l k' v c p' r) =
     (if k < k' then Node (modify_loop k f l) k' v c p' r
      else if k > k' then Node l k' v c p' (modify_loop k f r)
      else Node l k' (f v) c p' r)"

definition llrb_modify :: "'k::linorder \<Rightarrow> ('v \<Rightarrow> 'v) \<Rightarrow> ('k, 'v) llrb \<Rightarrow> ('k, 'v) llrb" where
  "llrb_modify k f t = t\<lparr>root := modify_loop k f (root t)\<rparr>"

fun floor_loop :: "'k::linorder \<Rightarrow> ('k \<times> 'v) option \<Rightarrow> ('k, 'v) node \<Rightarrow> ('k \<times> 'v) option" where
  "floor_loop k best Null = best"
| "floor_loop k best (Node l k' v c p' r) =
     (if k < k' then floor_loop k best l
      else if k = k' then Some (k', v)
      else floor_loop k (Some (k', v)) r)"

definition llrb_floor :: "('k::linorder, 'v) llrb \<Rightarrow> 'k \<Rightarrow> ('k \<times> 'v) option" where
  "llrb_floor t k = floor_loop k None (root t)"

text \<open>
  \<open>remove_root\<close>: \<open>Inl ()\<close> is \<open>false\<close> (no such key); otherwise the tree without the key, the
  value, and the payload of the unlinked node, which \<open>_extract\<close> hands out and \<open>_remove\<close> frees.  The links
  of an extracted node are null, and its colour is set again when it is inserted.
\<close>

definition remove_root :: "'k::linorder \<Rightarrow> ('k, 'v) llrb
    \<Rightarrow> (unit + ('k, 'v) llrb \<times> 'v \<times> ('k \<times> 'v)) option" where
  "remove_root k t = (case llrb_get t k of
     None \<Rightarrow> Some (Inl ())
   | Some old_value \<Rightarrow>
       if root t = Null then None
       else do {
         let r = root t;
         let r = (if \<not> is_red (left r) \<and> \<not> is_red (right r) then set_red True r else r);
         (r, kept) \<leftarrow> remove_node k r;
         Some (Inr (t\<lparr>root := set_red False (set_parent None r), len := len t - 1\<rparr>, old_value, kept))
       })"

definition llrb_remove :: "'k::linorder \<Rightarrow> ('k, 'v) llrb \<Rightarrow> (('k, 'v) llrb \<times> 'v option) option" where
  "llrb_remove k t = do {
     res \<leftarrow> remove_root k t;
     Some (case res of Inl _ \<Rightarrow> (t, None) | Inr (t', old, kept) \<Rightarrow> (t', Some old))
   }"

definition llrb_extract :: "'k::linorder \<Rightarrow> ('k, 'v) llrb
    \<Rightarrow> (('k, 'v) llrb \<times> ('v \<times> 'k \<times> 'v) option) option" where
  "llrb_extract k t = do {
     res \<leftarrow> remove_root k t;
     Some (case res of Inl _ \<Rightarrow> (t, None) | Inr (t', old, kept) \<Rightarrow> (t', Some (old, kept)))
   }"

definition llrb_len :: "('k, 'v) llrb \<Rightarrow> nat" where
  "llrb_len t = len t"

section \<open>Iterators\<close>

text \<open>
  An iterator points at a node of the tree.  The node together with the chain of its ancestors
  (\<open>n->parent\<close>, \<open>n->parent->parent\<close>, \<dots>) is a zipper; the frame says which child of the parent
  the node is, i.e. the answer to \<open>n == parent->right\<close>.  That the chain is the one the \<open>parent\<close>
  fields of a valid tree give is \<open>iterators_follow_links\<close> below.
\<close>

datatype ('k, 'v) frame =
    LeftChildOf 'k 'v bool "'k option" "('k, 'v) node"
  | RightChildOf "('k, 'v) node" 'k 'v bool "'k option"

type_synonym ('k, 'v) iter = "(('k, 'v) node \<times> ('k, 'v) frame list) option"

fun cmin :: "('k, 'v) node \<Rightarrow> ('k, 'v) frame list \<Rightarrow> ('k, 'v) iter" where
  "cmin Null fs = None"
| "cmin (Node Null k v c p r) fs = Some (Node Null k v c p r, fs)"
| "cmin (Node l k v c p r) fs = cmin l (LeftChildOf k v c p r # fs)"

definition iter_begin :: "('k, 'v) llrb \<Rightarrow> ('k, 'v) iter" where
  "iter_begin t = cmin (root t) []"

fun lower_bound_loop :: "'k::linorder \<Rightarrow> ('k, 'v) iter \<Rightarrow> ('k, 'v) node \<Rightarrow> ('k, 'v) frame list
    \<Rightarrow> ('k, 'v) iter" where
  "lower_bound_loop k best Null fs = best"
| "lower_bound_loop k best (Node l k' v c p' r) fs =
     (if k = k' then Some (Node l k' v c p' r, fs)
      else if k < k' then
        lower_bound_loop k (Some (Node l k' v c p' r, fs)) l (LeftChildOf k' v c p' r # fs)
      else lower_bound_loop k best r (RightChildOf l k' v c p' # fs))"

definition iter_lower_bound :: "('k::linorder, 'v) llrb \<Rightarrow> 'k \<Rightarrow> ('k, 'v) iter" where
  "iter_lower_bound t k = lower_bound_loop k None (root t) []"

text \<open>The climb: leave every node that is its parent's right child.\<close>

fun climb :: "('k, 'v) node \<Rightarrow> ('k, 'v) frame list \<Rightarrow> ('k, 'v) iter" where
  "climb n [] = None"
| "climb n (LeftChildOf k v c p r # fs) = Some (Node n k v c p r, fs)"
| "climb n (RightChildOf l k v c p # fs) = climb (Node l k v c p n) fs"

fun iter_next :: "('k, 'v) iter \<Rightarrow> (('k \<times> 'v) \<times> ('k, 'v) iter) option" where
  "iter_next (Some (Node l k v c p r, fs)) =
     Some ((k, v), if r \<noteq> Null then cmin r (RightChildOf l k v c p # fs)
                   else climb (Node l k v c p r) fs)"
| "iter_next _ = None"

section \<open>The self-check\<close>

text \<open>The result \<open>(valid, count, black_height)\<close>.\<close>

fun validate :: "'k option \<Rightarrow> ('k::linorder, 'v) node \<Rightarrow> 'k option \<Rightarrow> 'k option \<Rightarrow> bool \<times> nat \<times> nat" where
  "validate parent Null low high = (True, 0, 1)"
| "validate parent (Node l k v c p r) low high =
     (if p \<noteq> parent
         \<or> (case low of None \<Rightarrow> False | Some lo \<Rightarrow> k \<le> lo)
         \<or> (case high of None \<Rightarrow> False | Some hi \<Rightarrow> k \<ge> hi)
         \<or> is_red r \<or> (c \<and> is_red l)
      then (False, 0, 0)
      else (case validate (Some k) l low (Some k) of (lvalid, lcount, lbh) \<Rightarrow>
            case validate (Some k) r (Some k) high of (rvalid, rcount, rbh) \<Rightarrow>
              if \<not> lvalid \<or> \<not> rvalid \<or> lbh \<noteq> rbh then (False, 0, 0)
              else (True, lcount + rcount + 1, lbh + (if c then 0 else 1))))"

definition llrb_valid :: "('k::linorder, 'v) llrb \<Rightarrow> bool" where
  "llrb_valid t =
     (if root t \<noteq> Null \<and> (red (root t) \<or> parent_of (root t) \<noteq> None) then False
      else (case validate None (root t) None None of (valid, count, _) \<Rightarrow> valid \<and> count = len t))"

section \<open>Validity is what the self-check tests\<close>

definition tree_ok :: "('k::linorder, 'v) llrb \<Rightarrow> bool" where
  "tree_ok t \<longleftrightarrow> \<not> red (root t) \<and> shape (root t) \<and> bst (root t) \<and> linked None (root t) \<and>
     len t = length (entries (root t))"

definition within :: "'k::linorder option \<Rightarrow> 'k option \<Rightarrow> 'k \<Rightarrow> bool" where
  "within low high k \<longleftrightarrow> (\<forall>lo. low = Some lo \<longrightarrow> lo < k) \<and> (\<forall>hi. high = Some hi \<longrightarrow> k < hi)"

lemma sorted_within_append:
  "sorted_wrt (<) (xs @ k # ys) \<and> (\<forall>x \<in> set (xs @ k # ys). within low high x)
   \<longleftrightarrow> within low high k \<and> sorted_wrt (<) xs \<and> sorted_wrt (<) ys
     \<and> (\<forall>x \<in> set xs. within low (Some k) x) \<and> (\<forall>x \<in> set ys. within (Some k) high x)"
proof -
  have "within low high k \<Longrightarrow> within low (Some k) x \<longleftrightarrow> within low high x \<and> x < k"
    "within low high k \<Longrightarrow> within (Some k) high x \<longleftrightarrow> within low high x \<and> k < x" for x
    by (auto simp: within_def intro: less_trans)
  then show ?thesis by (auto simp: sorted_wrt_append) (meson less_trans)
qed

lemma keys_Node: "keys (Node l k v c p r) = keys l @ k # keys r"
  by simp

lemma validate_valid:
  assumes "validate p t low high = (b, n, h)"
  shows "b = (shape t \<and> bst t \<and> linked p t \<and> (\<forall>k \<in> set (keys t). within low high k))
    \<and> (b \<longrightarrow> n = length (entries t) \<and> h = Suc (bh t))"
  using assms
proof (induction t arbitrary: p low high b n h)
  case (Node l k v c q r)
  obtain lb ln lh where l: "validate (Some k) l low (Some k) = (lb, ln, lh)" by (metis prod_cases3)
  obtain rb rn rh where r: "validate (Some k) r (Some k) high = (rb, rn, rh)" by (metis prod_cases3)
  note IH = Node.IH(1) [OF l] Node.IH(2) [OF r]
  let ?local = "q = p \<and> within low high k \<and> \<not> red r \<and> \<not> (c \<and> red l)"
  have "(q \<noteq> p \<or> (case low of None \<Rightarrow> False | Some lo \<Rightarrow> k \<le> lo)
         \<or> (case high of None \<Rightarrow> False | Some hi \<Rightarrow> k \<ge> hi) \<or> red r \<or> (c \<and> red l)) = (\<not> ?local)"
    by (auto simp: within_def not_less split: option.splits)
  with Node.prems l r have eq: "(b, n, h) = (if \<not> ?local \<or> \<not> lb \<or> \<not> rb \<or> lh \<noteq> rh then (False, 0, 0)
      else (True, ln + rn + 1, lh + (if c then 0 else 1)))"
    by (cases ?local) simp_all
  have lb: "lb = (shape l \<and> bst l \<and> linked (Some k) l \<and> (\<forall>x \<in> set (keys l). within low (Some k) x))"
    and rb: "rb = (shape r \<and> bst r \<and> linked (Some k) r \<and> (\<forall>x \<in> set (keys r). within (Some k) high x))"
    and nl: "lb \<Longrightarrow> ln = length (entries l) \<and> lh = Suc (bh l)" and nr: "rb \<Longrightarrow> rn = length (entries r) \<and> rh = Suc (bh r)"
    using IH by simp_all
  have b: "b \<longleftrightarrow> ?local \<and> lb \<and> rb \<and> lh = rh" using eq by (simp split: if_splits)
  also have "\<dots> \<longleftrightarrow> ?local \<and> lb \<and> rb \<and> bh l = bh r" using nl nr by auto
  also have "\<dots> \<longleftrightarrow> shape (Node l k v c q r) \<and> bst (Node l k v c q r) \<and> linked p (Node l k v c q r)
      \<and> (\<forall>x \<in> set (keys (Node l k v c q r)). within low high x)"
    unfolding lb rb keys_Node using sorted_within_append [of "keys l" k "keys r" low high] by (simp only: shape.simps linked.simps) blast
  finally have "b \<longleftrightarrow> shape (Node l k v c q r) \<and> bst (Node l k v c q r) \<and> linked p (Node l k v c q r)
      \<and> (\<forall>x \<in> set (keys (Node l k v c q r)). within low high x)" .
  moreover have "b \<longrightarrow> n = length (entries (Node l k v c q r)) \<and> h = Suc (bh (Node l k v c q r))"
    using eq b nl nr by (auto split: if_splits)
  ultimately show ?case by blast
qed (auto simp: within_def)

lemma llrb_valid_iff: "llrb_valid t \<longleftrightarrow> tree_ok t"
proof -
  obtain b n h where v: "validate None (root t) None None = (b, n, h)" by (metis prod_cases3)
  have "(root t \<noteq> Null \<and> (red (root t) \<or> parent_of (root t) \<noteq> None)) = (red (root t) \<or> \<not> linked None (root t) \<and> root t \<noteq> Null \<and> parent_of (root t) \<noteq> None)"
    by (cases "root t") auto
  with validate_valid [OF v] v show ?thesis
    by (auto simp: llrb_valid_def tree_ok_def within_def)
qed

section \<open>Lookups\<close>

lemma map_of_append_less:
  "(\<forall>x \<in> set xs. fst x < (k::'k::linorder)) \<Longrightarrow> map_of (xs @ ys) k = map_of ys k"
  by (induction xs) auto

lemma map_of_greater_None: "(\<forall>x \<in> set xs. (k::'k::linorder) < fst x) \<Longrightarrow> map_of xs k = None"
  by (induction xs) auto

lemma bst_NodeD:
  assumes "bst (Node l k v c p r)"
  shows "bst l" "bst r" "\<forall>x \<in> set (entries l). fst x < k" "\<forall>x \<in> set (entries r). k < fst x"
  using assms by (auto simp: sorted_wrt_append)

lemma get_loop_map_of: "bst t \<Longrightarrow> get_loop k t = map_of (entries t) k"
proof (induction t)
  case (Node l k' v c p' r)
  note D = bst_NodeD [OF Node.prems]
  consider "k < k'" | "k' < k" | "k = k'" by force
  then show ?case
  proof cases
    case 1
    then have "\<forall>x \<in> set ((k', v) # entries r). k < fst x" using D(4) by auto
    then have "map_of ((k', v) # entries r) k = None" by (rule map_of_greater_None)
    then show ?thesis using 1 Node.IH(1) D(1) by (auto simp: map_add_def split: option.split)
  next
    case 2
    then have "\<forall>x \<in> set (entries l). fst x < k" using D(3) by force
    then have "map_of (entries l) k = None" by (auto simp: map_of_eq_None_iff)
    then show ?thesis using 2 Node.IH(2) D(2) by (auto simp: map_add_def split: option.split)
  next
    case 3
    then have "map_of (entries l) k = None" using D(3) by (auto simp: map_of_eq_None_iff)
    then show ?thesis using 3 by (auto simp: map_add_def)
  qed
qed simp

lemma entries_modify_loop:
  "bst t \<Longrightarrow> entries (modify_loop k f t) = map (\<lambda>(k', v). (k', if k' = k then f v else v)) (entries t)"
proof (induction t)
  case (Node l k' v c p' r)
  note D = bst_NodeD [OF Node.prems]
  have same: "map (\<lambda>(k', v). (k', if k' = k then f v else v)) xs = xs"
    if "\<forall>x \<in> set xs. fst x \<noteq> k" for xs
    using that by (intro map_idI) auto
  consider "k < k'" | "k' < k" | "k = k'" by force
  then show ?case
  proof cases
    case 1
    then have "\<forall>x \<in> set (entries r). fst x \<noteq> k" using D(4) by force
    then show ?thesis using 1 Node.IH(1) D same [of "entries r"] by auto
  next
    case 2
    then have "\<forall>x \<in> set (entries l). fst x \<noteq> k" using D(3) by force
    then show ?thesis using 2 Node.IH(2) D same [of "entries l"] by auto
  next
    case 3
    then have "\<forall>x \<in> set (entries l @ entries r). fst x \<noteq> k" using D(3,4) by force
    then show ?thesis using 3 same [of "entries l"] same [of "entries r"] by auto
  qed
qed simp

lemma linked_modify_loop [simp]: "linked p (modify_loop k f t) = linked p t"
  by (induction t arbitrary: p) auto

lemma shape_modify_loop:
  "red (modify_loop k f t) = red t" "bh (modify_loop k f t) = bh t"
  "shape (modify_loop k f t) = shape t"
  by (induction t) auto

text \<open>\<open>_floor\<close>: the last entry whose key is at most the wanted one.\<close>

fun last_le :: "'k::linorder \<Rightarrow> ('k \<times> 'v) list \<Rightarrow> ('k \<times> 'v) option" where
  "last_le k [] = None"
| "last_le k (x # xs) = (case last_le k xs of
     None \<Rightarrow> if fst x \<le> k then Some x else None | Some e \<Rightarrow> Some e)"

lemma last_le_append:
  "last_le k (xs @ ys) = (case last_le k ys of None \<Rightarrow> last_le k xs | Some e \<Rightarrow> Some e)"
  by (induction xs) (auto split: option.splits)

lemma last_le_none: "(\<forall>x \<in> set xs. k < fst x) \<Longrightarrow> last_le k xs = None"
  by (induction xs) (auto simp: not_le)

lemma floor_loop_last_le:
  "bst t \<Longrightarrow> floor_loop k best t = (case last_le k (entries t) of None \<Rightarrow> best | Some e \<Rightarrow> Some e)"
proof (induction t arbitrary: best)
  case (Node l k' v c p' r)
  note D = bst_NodeD [OF Node.prems]
  consider "k < k'" | "k' < k" | "k = k'" by force
  then show ?case
  proof cases
    case 1
    then have "\<forall>x \<in> set (entries r). k < fst x" using D(4) by force
    then show ?thesis
      using 1 Node.IH(1) D by (auto simp: last_le_append last_le_none)
  next
    case 2
    then show ?thesis
      using Node.IH(2) D by (auto simp: last_le_append split: option.split)
  next
    case 3
    then show ?thesis
      using D by (auto simp: last_le_append last_le_none)
  qed
qed simp

section \<open>Insertion and removal on valid trees\<close>

lemma set_red_simps [simp]:
  "red (set_red False t) = False" "entries (set_red c t) = entries t"
  "set_red c t = Null \<longleftrightarrow> t = Null"
  by (cases t; simp)+

lemma linked_set_red [simp]: "linked p (set_red c t) = linked p t"
  by (cases t) auto

lemma set_parent_id: "linked p t \<Longrightarrow> set_parent p t = t"
  by (cases t) auto

lemma set_black_id: "\<not> red t \<Longrightarrow> set_red False t = t"
  by (cases t) auto

lemma shape_set_black: "shape_up t \<Longrightarrow> shape (set_red False t)"
  by (cases t) auto

lemma shape_set_red:
  "shape t \<Longrightarrow> \<not> red (left t) \<Longrightarrow> shape (set_red True t)"
  by (cases t) auto

lemma distinct_keys: "bst t \<Longrightarrow> distinct (keys t)"
  using strict_sorted_iff by blast

lemma strict_sorted_insort:
  "sorted_wrt (<) (map fst xs) \<Longrightarrow> k \<notin> fst ` set xs \<Longrightarrow>
   sorted_wrt (<) (map fst (insort_key fst (k, v) xs))"
  by (induction xs) (auto simp: set_insort_key not_le)

lemma llrb_insert_ok:
  assumes "tree_ok t"
  shows "\<exists>t'. llrb_insert mem k v t = Some (t', mem \<and> llrb_get t k = None) \<and> tree_ok t'
    \<and> entries (root t') = (if mem \<and> llrb_get t k = None
        then insort_key fst (k, v) (entries (root t)) else entries (root t))"
proof -
  note ok = assms [unfolded tree_ok_def]
  from insert_node_at_shape [of "root t" mem None k v] ok obtain r res where
    r: "insert_node_at mem None k v (root t) = Some (r, res)" "shape r" "res \<noteq> Inserted \<longrightarrow> r = root t"
    by auto
  have lr: "linked None r" using linked_insert_node_at [OF r(1)] ok by blast
  from insert_node_at_entries [OF r(1)] ok have
    res: "res = (if k \<in> set (keys (root t)) then Duplicate else if mem then Inserted else Oom)"
    "res = Inserted \<longrightarrow> entries r = insort_key fst (k, v) (entries (root t))" by auto
  have get: "llrb_get t k = None \<longleftrightarrow> k \<notin> set (keys (root t))"
    using ok by (auto simp: llrb_get_def get_loop_map_of map_of_eq_None_iff)
  show ?thesis
  proof (cases "res = Inserted")
    case True
    then have "mem" "k \<notin> set (keys (root t))" using res(1) by (auto split: if_splits)
    moreover have "\<exists>q. linked q r" using lr by blast
    ultimately show ?thesis using True r res ok get
      by (auto simp: llrb_insert_def tree_ok_def intro!: shape_set_black shape_imp_shape_up
          strict_sorted_insort)
  next
    case False
    then have "\<not> (mem \<and> k \<notin> set (keys (root t)))" using res(1) by (auto split: if_splits)
    with False r ok get show ?thesis
      by (auto simp: llrb_insert_def tree_ok_def set_black_id set_parent_id)
  qed
qed

lemma filter_removed:
  assumes "sorted_wrt (<) (map fst (xs @ (k :: 'k::linorder, v) # ys))"
  shows "filter (\<lambda>x. fst x \<noteq> k) (xs @ (k, v) # ys) = xs @ ys"
proof -
  have "\<forall>x \<in> set xs. fst x < k" "\<forall>x \<in> set ys. k < fst x"
    using assms by (auto simp: sorted_wrt_append)
  then have "\<forall>x \<in> set (xs @ ys). fst x \<noteq> k" by (metis Un_iff less_irrefl set_append)
  then have "filter (\<lambda>x. fst x \<noteq> k) (xs @ ys) = xs @ ys" unfolding filter_id_conv .
  then show ?thesis by simp
qed

lemma remove_root_ok:
  assumes "tree_ok t" "llrb_get t k = Some v"
  shows "\<exists>t'. remove_root k t = Some (Inr (t', v, (k, v))) \<and> tree_ok t'
    \<and> entries (root t') = filter (\<lambda>x. fst x \<noteq> k) (entries (root t))"
proof -
  note ok = assms(1) [unfolded tree_ok_def]
  define q where
    "q = (if \<not> red (left (root t)) \<and> \<not> red (right (root t)) then set_red True (root t) else root t)"
  have kin: "(k, v) \<in> set (entries (root t))"
    using assms(2) ok by (auto simp: llrb_get_def get_loop_map_of dest: map_of_SomeD)
  then have ne: "root t \<noteq> Null" by auto
  have q: "shape q" "red q \<or> red (left q)" and eq: "entries q = entries (root t)"
    using ok ne unfolding q_def by (cases "root t"; auto)+
  have "k \<in> set (keys q)" using kin eq by force
  then have "removed k q (remove_node k q)"
    using ok eq q by (intro remove_node_ok shape_removable) auto
  then obtain r v' xs ys where r: "remove_node k q = Some (r, k, v')" "shape r" "bh r = bh q"
    "red r \<longrightarrow> red q" "entries q = xs @ (k, v') # ys" "entries r = xs @ ys" "\<forall>p. linked p q \<longrightarrow> linked p r"
    by (rule removedE)
  have "linked None q" using ok by (simp add: q_def)
  then have "\<exists>p. linked p r" using r(7) by blast
  moreover have "distinct (keys (root t))" using ok by (simp add: distinct_keys)
  then have "v' = v" using eq_key_imp_eq_value [OF _ kin, of v'] r(5) eq by auto
  moreover have "entries r = filter (\<lambda>x. fst x \<noteq> k) (entries (root t))"
    using filter_removed [of xs k v' ys] ok r eq by auto
  moreover have "bst r" "len t - 1 = length (entries r)"
    using ok r eq by (auto simp: sorted_wrt_append)
  ultimately show ?thesis
    using assms(2) ne r(1,2) ok unfolding q_def
    by (auto simp: remove_root_def tree_ok_def Let_def intro!: shape_set_black shape_imp_shape_up
        simp del: if_split)
qed

lemma remove_root_absent:
  "llrb_get t k = None \<Longrightarrow> remove_root k t = Some (Inl ())"
  by (simp add: remove_root_def)

section \<open>In-order iteration\<close>

text \<open>The entries an iterator still has to yield, from the chain of its ancestors.\<close>

fun rest_up :: "('k, 'v) frame list \<Rightarrow> ('k \<times> 'v) list" where
  "rest_up [] = []"
| "rest_up (LeftChildOf k v c p r # fs) = (k, v) # entries r @ rest_up fs"
| "rest_up (RightChildOf l k v c p # fs) = rest_up fs"

fun rest :: "('k, 'v) iter \<Rightarrow> ('k \<times> 'v) list" where
  "rest (Some (Node l k v c p r, fs)) = (k, v) # entries r @ rest_up fs"
| "rest _ = []"

fun points_to_node :: "('k, 'v) iter \<Rightarrow> bool" where
  "points_to_node (Some (Null, fs)) = False"
| "points_to_node _ = True"

text \<open>
  The frames are what the parent links of a valid tree say: the node under the iterator names the node of the
  first frame as its parent, and so on to the root.
\<close>

fun above :: "('k, 'v) frame list \<Rightarrow> 'k option" where
  "above [] = None"
| "above (LeftChildOf k v c p r # fs) = Some k"
| "above (RightChildOf l k v c p # fs) = Some k"

fun chained :: "('k, 'v) frame list \<Rightarrow> bool" where
  "chained [] = True"
| "chained (LeftChildOf k v c p r # fs) = (p = above fs \<and> linked (Some k) r \<and> chained fs)"
| "chained (RightChildOf l k v c p # fs) = (p = above fs \<and> linked (Some k) l \<and> chained fs)"

fun follows_links :: "('k, 'v) iter \<Rightarrow> bool" where
  "follows_links None = True"
| "follows_links (Some (n, fs)) = (linked (above fs) n \<and> chained fs)"

lemma cmin_follows: "linked (above fs) t \<Longrightarrow> chained fs \<Longrightarrow> follows_links (cmin t fs)"
  by (induction t fs rule: cmin.induct) auto

lemma climb_follows: "linked (above fs) n \<Longrightarrow> chained fs \<Longrightarrow> follows_links (climb n fs)"
  by (induction n fs rule: climb.induct) auto

lemma lower_bound_follows:
  "follows_links best \<Longrightarrow> linked (above fs) t \<Longrightarrow> chained fs \<Longrightarrow> follows_links (lower_bound_loop k best t fs)"
  by (induction k best t fs rule: lower_bound_loop.induct) auto

lemma iterators_follow_links:
  assumes "tree_ok t"
  shows "follows_links (iter_begin t)" "follows_links (iter_lower_bound t k)"
    "follows_links it \<Longrightarrow> iter_next it = Some (e, it') \<Longrightarrow> follows_links it'"
proof -
  have "linked None (root t)" using assms by (simp add: tree_ok_def)
  then show "follows_links (iter_begin t)" "follows_links (iter_lower_bound t k)"
    by (simp_all add: iter_begin_def iter_lower_bound_def cmin_follows lower_bound_follows)
  show "follows_links it'" if "follows_links it" "iter_next it = Some (e, it')"
    using that by (cases it rule: iter_next.cases) (auto intro!: cmin_follows climb_follows split: if_splits)
qed

lemma rest_cmin: "t \<noteq> Null \<Longrightarrow> rest (cmin t fs) = entries t @ rest_up fs"
  by (induction t fs rule: cmin.induct) auto

lemma rest_climb: "rest (climb n fs) = rest_up fs"
  by (induction n fs rule: climb.induct) auto

lemma points_to_node_cmin: "points_to_node (cmin t fs)"
  by (induction t fs rule: cmin.induct) auto

lemma points_to_node_climb: "points_to_node (climb n fs)"
  by (induction n fs rule: climb.induct) auto

lemma iter_next_rest:
  assumes "points_to_node it"
  shows "case iter_next it of None \<Rightarrow> rest it = []
    | Some (e, it') \<Rightarrow> rest it = e # rest it' \<and> points_to_node it'"
  using assms by (cases it rule: iter_next.cases)
    (auto simp: rest_cmin rest_climb points_to_node_cmin points_to_node_climb)

lemma rest_iter_begin: "rest (iter_begin t) = entries (root t)"
  by (cases "root t = Null") (simp_all add: iter_begin_def rest_cmin)

lemma dropWhile_append_all:
  "(\<forall>x \<in> set xs. fst x < (k::'k::linorder)) \<Longrightarrow> dropWhile (\<lambda>x. fst x < k) (xs @ ys) = dropWhile (\<lambda>x. fst x < k) ys"
  by (induction xs) auto

lemma dropWhile_append_some:
  "dropWhile P xs \<noteq> [] \<Longrightarrow> dropWhile P (xs @ ys) = dropWhile P xs @ ys"
  by (induction xs) auto

lemma lower_bound_loop_rest:
  assumes "bst t"
  shows "rest (lower_bound_loop k best t fs) =
    (case dropWhile (\<lambda>x. fst x < k) (entries t) of [] \<Rightarrow> rest best | xs \<Rightarrow> xs @ rest_up fs)"
  using assms
proof (induction t arbitrary: best fs)
  case (Node l k' v c p' r)
  note D = bst_NodeD [OF Node.prems]
  consider "k < k'" | "k' < k" | "k = k'" by force
  then show ?case
  proof cases
    case 1
    show ?thesis
    proof (cases "dropWhile (\<lambda>x. fst x < k) (entries l) = []")
      case True
      then have "\<forall>x \<in> set (entries l). fst x < k" by (auto simp: dropWhile_eq_Nil_conv)
      then show ?thesis
        using 1 True Node.IH(1) D
        by (auto simp: dropWhile_append_all simp del: dropWhile_eq_Nil_conv)
    next
      case False
      then show ?thesis
        using 1 Node.IH(1) D by (auto simp: dropWhile_append_some split: list.splits)
    qed
  next
    case 2
    then have "\<forall>x \<in> set (entries l). fst x < k" using D(3) by force
    then show ?thesis using 2 Node.IH(2) D 
      by (auto simp: dropWhile_append_all simp del: dropWhile_eq_Nil_conv split: list.split)
  next
    case 3
    then show ?thesis using D by (auto simp: dropWhile_append_all)
  qed
qed simp

lemma lower_bound_loop_points:
  "points_to_node best \<Longrightarrow> points_to_node (lower_bound_loop k best t fs)"
  by (induction k best t fs rule: lower_bound_loop.induct) auto

lemma iter_lower_bound_rest:
  assumes "tree_ok t"
  shows "rest (iter_lower_bound t k) = dropWhile (\<lambda>x. fst x < k) (entries (root t))"
  using assms lower_bound_loop_rest [of "root t" k None "[]"]
  by (cases "dropWhile (\<lambda>x. fst x < k) (entries (root t))")
    (simp_all add: iter_lower_bound_def tree_ok_def del: dropWhile_eq_Nil_conv)

text \<open>A \<open>while (iter_next(&it, \<dots>))\<close> loop visits exactly the remaining entries, in order.\<close>

fun drain :: "nat \<Rightarrow> ('k, 'v) iter \<Rightarrow> ('k \<times> 'v) list" where
  "drain 0 it = []"
| "drain (Suc n) it = (case iter_next it of None \<Rightarrow> [] | Some (e, it') \<Rightarrow> e # drain n it')"

lemma drain_rest:
  "points_to_node it \<Longrightarrow> length (rest it) \<le> n \<Longrightarrow> drain n it = rest it"
proof (induction n arbitrary: it)
  case (Suc n)
  then show ?case using iter_next_rest [of it] by (auto split: option.splits)
qed simp

section \<open>Ordered indexes\<close>

text \<open>
  The type of valid trees.  The kernel's indexes are values of it, so that the tree invariant
  accompanies them; the operations are those above, which \<open>llrb_insert_ok\<close> and
  \<open>remove_root_ok\<close> show never to dereference a null pointer here.
\<close>

typedef (overloaded) ('k::linorder, 'v) omap = "{t :: ('k, 'v) llrb. tree_ok t}"
  morphisms rep_omap Abs_omap
proof
  show "llrb_new \<in> {t. tree_ok t}" by (simp add: llrb_new_def tree_ok_def)
qed

setup_lifting type_definition_omap

lift_definition om_empty :: "('k::linorder, 'v) omap" is llrb_new
  by (simp add: llrb_new_def tree_ok_def)

lift_definition om_lookup :: "('k::linorder, 'v) omap \<Rightarrow> 'k \<Rightarrow> 'v option" is llrb_get .

lift_definition om_entries :: "('k::linorder, 'v) omap \<Rightarrow> ('k \<times> 'v) list"
  is "\<lambda>t. drain (llrb_len t) (iter_begin t)" .

lift_definition om_floor :: "('k::linorder, 'v) omap \<Rightarrow> 'k \<Rightarrow> ('k \<times> 'v) option" is llrb_floor .

lift_definition om_from :: "('k::linorder, 'v) omap \<Rightarrow> 'k \<Rightarrow> ('k \<times> 'v) list"
  is "\<lambda>t k. drain (llrb_len t) (iter_lower_bound t k)" .

lift_definition om_len :: "('k::linorder, 'v) omap \<Rightarrow> nat" is llrb_len .

lift_definition om_insert :: "'k::linorder \<Rightarrow> 'v \<Rightarrow> ('k, 'v) omap \<Rightarrow> ('k, 'v) omap"
  is "\<lambda>k v t. fst (the (llrb_insert_node k v t))"
proof -
  fix k :: 'k and v and t :: "('k, 'v) llrb"
  assume "tree_ok t"
  from llrb_insert_ok [OF this, of True k v] show "tree_ok (fst (the (llrb_insert_node k v t)))"
    by (auto simp: llrb_insert_node_def)
qed

lift_definition om_remove :: "'k::linorder \<Rightarrow> ('k, 'v) omap \<Rightarrow> ('k, 'v) omap"
  is "\<lambda>k t. fst (the (llrb_remove k t))"
proof -
  fix k :: 'k and t :: "('k, 'v) llrb"
  assume "tree_ok t"
  then show "tree_ok (fst (the (llrb_remove k t)))"
    using remove_root_ok [of t k] remove_root_absent [of t k]
    by (cases "llrb_get t k") (auto simp: llrb_remove_def)
qed

lemma map_fst_update:
  "map (fst \<circ> (\<lambda>(k', v). (k', if k' = k then f v else v))) xs = map fst xs"
  by (induction xs) auto

lift_definition om_modify :: "'k::linorder \<Rightarrow> ('v \<Rightarrow> 'v) \<Rightarrow> ('k, 'v) omap \<Rightarrow> ('k, 'v) omap"
  is llrb_modify
proof -
  fix k :: 'k and f :: "'v \<Rightarrow> 'v" and t :: "('k, 'v) llrb"
  assume "tree_ok t"
  then show "tree_ok (llrb_modify k f t)"
    by (simp add: llrb_modify_def tree_ok_def shape_modify_loop entries_modify_loop
        map_fst_update)
qed

lemma last_le_None_iff: "last_le k xs = None \<longleftrightarrow> (\<forall>x \<in> set xs. k < fst x)"
  by (induction xs) (auto split: option.splits)

lemma last_le_SomeD:
  assumes "sorted_wrt (<) (map fst xs)" "last_le k xs = Some (k', v)"
  shows "(k', v) \<in> set xs \<and> k' \<le> k \<and> (\<forall>x \<in> set xs. fst x \<le> k \<longrightarrow> fst x \<le> k')"
  using assms
proof (induction xs)
  case (Cons x xs)
  show ?case
  proof (cases "last_le k xs")
    case None
    then have "x = (k', v)" "fst x \<le> k" using Cons.prems by (auto split: if_splits)
    then show ?thesis using None Cons.prems(1) by (auto simp: last_le_None_iff not_le)
  next
    case (Some e)
    then show ?thesis using Cons by auto
  qed
qed simp

text \<open>The contract of an ordered index, over the sorted list of its entries.\<close>

locale ordered_index =
  fixes empty :: "'m"
    and ents :: "'m \<Rightarrow> ('k::linorder \<times> 'v) list"
    and lookup :: "'m \<Rightarrow> 'k \<Rightarrow> 'v option"
    and insert :: "'k \<Rightarrow> 'v \<Rightarrow> 'm \<Rightarrow> 'm"
    and remove :: "'k \<Rightarrow> 'm \<Rightarrow> 'm"
    and modify :: "'k \<Rightarrow> ('v \<Rightarrow> 'v) \<Rightarrow> 'm \<Rightarrow> 'm"
    and floor :: "'m \<Rightarrow> 'k \<Rightarrow> ('k \<times> 'v) option"
    and ents_from :: "'m \<Rightarrow> 'k \<Rightarrow> ('k \<times> 'v) list"
    and count :: "'m \<Rightarrow> nat"
  assumes ents_sorted: "sorted_wrt (<) (map fst (ents m))"
    and ents_empty: "ents empty = []"
    and lookup_ents: "lookup m k = map_of (ents m) k"
    and ents_insert: "ents (insert k v m) =
      (if lookup m k = None then insort_key fst (k, v) (ents m) else ents m)"
    and ents_remove: "ents (remove k m) = filter (\<lambda>e. fst e \<noteq> k) (ents m)"
    and ents_modify: "ents (modify k f m) = map (\<lambda>(k', v). (k', if k' = k then f v else v)) (ents m)"
    and floor_ents: "floor m k = last_le k (ents m)"
    and from_ents: "ents_from m k = dropWhile (\<lambda>e. fst e < k) (ents m)"
    and count_ents: "count m = length (ents m)"
begin

lemma lookup_empty: "lookup empty k = None"
  by (simp add: lookup_ents ents_empty)

lemma ents_distinct: "distinct (map fst (ents m))"
  using ents_sorted strict_sorted_iff by blast

lemma lookup_iff: "lookup m k = Some v \<longleftrightarrow> (k, v) \<in> set (ents m)"
  by (simp add: lookup_ents map_of_eq_Some_iff ents_distinct)

lemma lookup_None_iff: "lookup m k = None \<longleftrightarrow> k \<notin> fst ` set (ents m)"
  by (simp add: lookup_ents map_of_eq_None_iff)

lemma lookup_insert: "lookup (insert k v m) k' =
  (if k' = k \<and> lookup m k = None then Some v else lookup m k')"
proof (cases "lookup m k = None")
  case True
  have "lookup (insert k v m) k' = Some w \<longleftrightarrow> (if k' = k then Some v else lookup m k') = Some w" for w
    using True by (auto simp: lookup_iff ents_insert set_insort_key lookup_None_iff image_iff)
  then show ?thesis using True by (metis not_None_eq)
next
  case False
  then have "ents (insert k v m) = ents m" by (simp only: ents_insert if_False)
  then show ?thesis using False by (simp add: lookup_ents)
qed

lemma lookup_remove: "lookup (remove k m) k' = (if k' = k then None else lookup m k')"
proof -
  have "lookup (remove k m) k' = Some w \<longleftrightarrow> (if k' = k then None else lookup m k') = Some w" for w
    by (auto simp: lookup_iff ents_remove)
  then show ?thesis by (metis not_None_eq)
qed

lemma lookup_modify: "lookup (modify k f m) k' =
  (if k' = k then map_option f (lookup m k) else lookup m k')"
proof -
  have "map_of (map (\<lambda>(k', v). (k', if k' = k then f v else v)) xs) k' =
    (if k' = k then map_option f (map_of xs k) else map_of xs k')" for xs
    by (induction xs) auto
  then show ?thesis by (simp add: lookup_ents ents_modify)
qed

lemma floor_None: "floor m k = None \<longleftrightarrow> (\<forall>k'. lookup m k' \<noteq> None \<longrightarrow> k < k')"
  by (auto simp: floor_ents last_le_None_iff lookup_None_iff)

lemma floor_SomeD:
  assumes "floor m k = Some (k', v)"
  shows "lookup m k' = Some v" "k' \<le> k" "lookup m k'' \<noteq> None \<Longrightarrow> k'' \<le> k \<Longrightarrow> k'' \<le> k'"
  using last_le_SomeD [OF ents_sorted, of k m k' v] assms
  by (auto simp: floor_ents lookup_iff lookup_None_iff)

lemma floor_Some_iff:
  "floor m k = Some (k', v) \<longleftrightarrow>
   lookup m k' = Some v \<and> k' \<le> k \<and> (\<forall>k''. lookup m k'' \<noteq> None \<longrightarrow> k'' \<le> k \<longrightarrow> k'' \<le> k')"
  (is "?L \<longleftrightarrow> ?R")
proof
  assume ?L
  then show ?R using floor_SomeD by blast
next
  assume R: ?R
  then have "floor m k \<noteq> None" by (auto simp: floor_None)
  then obtain k2 v2 where f: "floor m k = Some (k2, v2)" by auto
  then have "k2 = k'" using R floor_SomeD [OF f] by (metis antisym option.distinct(1))
  then show ?L using f R floor_SomeD(1) [OF f] by simp
qed

end

section \<open>The LLRB trees are ordered indexes\<close>

lemma om_entries_rep: "om_entries m = entries (root (rep_omap m))"
proof -
  have ok: "tree_ok (rep_omap m)" using rep_omap by blast
  have "length (entries (root (rep_omap m))) = len (rep_omap m)"
    using ok by (simp add: tree_ok_def)
  then show ?thesis
    by (simp add: om_entries.rep_eq llrb_len_def drain_rest iter_begin_def points_to_node_cmin
        rest_iter_begin [unfolded iter_begin_def])
qed

lemma om_from_rep: "om_from m k = dropWhile (\<lambda>e. fst e < k) (entries (root (rep_omap m)))"
proof -
  have ok: "tree_ok (rep_omap m)" using rep_omap by blast
  have "length (rest (iter_lower_bound (rep_omap m) k)) \<le> len (rep_omap m)"
    using ok length_dropWhile_le [of "\<lambda>e. fst e < k" "entries (root (rep_omap m))"]
    by (simp add: iter_lower_bound_rest tree_ok_def)
  moreover have "points_to_node (iter_lower_bound (rep_omap m) k)"
    by (simp add: iter_lower_bound_def lower_bound_loop_points)
  ultimately show ?thesis
    by (simp add: om_from.rep_eq llrb_len_def drain_rest iter_lower_bound_rest [OF ok])
qed

interpretation om: ordered_index om_empty om_entries om_lookup om_insert om_remove om_modify
  om_floor om_from om_len
proof
  fix m :: "('k::linorder, 'v) omap" and k v f
  have ok: "tree_ok (rep_omap m)" using rep_omap by blast
  show "sorted_wrt (<) (map fst (om_entries m))"
    using ok by (simp add: om_entries_rep tree_ok_def)
  show "om_entries (om_empty :: ('k, 'v) omap) = []"
    by (simp add: om_entries_rep om_empty.rep_eq llrb_new_def)
  show lk: "om_lookup m k = map_of (om_entries m) k"
    using ok by (simp add: om_lookup.rep_eq om_entries_rep llrb_get_def get_loop_map_of tree_ok_def)
  show "om_entries (om_insert k v m) =
      (if om_lookup m k = None then insort_key fst (k, v) (om_entries m) else om_entries m)"
    using llrb_insert_ok [OF ok, of True k v]
    by (auto simp: om_entries_rep om_insert.rep_eq om_lookup.rep_eq llrb_insert_node_def)
  show "om_entries (om_remove k m) = filter (\<lambda>e. fst e \<noteq> k) (om_entries m)"
  proof (cases "llrb_get (rep_omap m) k")
    case None
    then have "k \<notin> fst ` set (om_entries m)"
      using lk by (metis map_of_eq_None_iff om_lookup.rep_eq)
    then have "filter (\<lambda>e. fst e \<noteq> k) (om_entries m) = om_entries m"
      by (auto simp: filter_id_conv)
    then show ?thesis
      using remove_root_absent [OF None] by (simp add: om_entries_rep om_remove.rep_eq llrb_remove_def)
  next
    case (Some v)
    then show ?thesis
      using remove_root_ok [OF ok Some] by (auto simp: om_entries_rep om_remove.rep_eq llrb_remove_def)
  qed
  show "om_entries (om_modify k f m) = map (\<lambda>(k', v). (k', if k' = k then f v else v)) (om_entries m)"
    using ok by (simp add: om_entries_rep om_modify.rep_eq llrb_modify_def entries_modify_loop tree_ok_def)
  show "om_floor m k = last_le k (om_entries m)"
    using ok by (simp add: om_entries_rep om_floor.rep_eq llrb_floor_def tree_ok_def
        floor_loop_last_le split: option.split)
  show "om_from m k = dropWhile (\<lambda>e. fst e < k) (om_entries m)"
    by (simp add: om_from_rep om_entries_rep)
  show "om_len m = length (om_entries m)"
    using ok by (simp add: om_len.rep_eq llrb_len_def om_entries_rep tree_ok_def)
qed

declare om.lookup_empty [simp] om.lookup_insert [simp] om.lookup_remove [simp]
  om.lookup_modify [simp] om.ents_empty [simp]

section \<open>Correctness of the public operations\<close>

definition sample_tree :: "(nat, nat) llrb" where
  "sample_tree = \<lparr>root = Node (Node (Node Null 1 10 True (Some 2) Null) 2 20 False (Some 4) Null) 4 40 False
     None (Node Null 6 60 False (Some 4) Null), len = 4\<rparr>"

lemma sample_tree_valid: "llrb_valid sample_tree"
  by (simp add: llrb_valid_def sample_tree_def)

lemma llrb_get_eq: "tree_ok t \<Longrightarrow> llrb_get t k = map_of (entries (root t)) k"
  by (simp add: llrb_get_def get_loop_map_of tree_ok_def)

lemma tree_ok_mem_iff:
  "tree_ok t \<Longrightarrow> (k, v) \<in> set (entries (root t)) \<longleftrightarrow> llrb_get t k = Some v"
  by (simp add: llrb_get_eq map_of_eq_Some_iff distinct_keys tree_ok_def)

lemma llrb_get_eqI:
  assumes "tree_ok t" "\<And>v. (k, v) \<in> set (entries (root t)) \<longleftrightarrow> r = Some v"
  shows "llrb_get t k = r"
  using assms tree_ok_mem_iff [OF assms(1), of k] by (metis not_None_eq)

text \<open>
  C17: on a tree that passes \<open>_valid\<close>, parent links included, \<open>_insert\<close> never dereferences a null pointer,
  reports success exactly when storage is available and the key is new, leaves a tree that passes
  \<open>_valid\<close>, and changes the stored map at that key only.
\<close>

theorem insert_correct:
  assumes "llrb_valid t"
  shows "\<exists>t'. llrb_insert mem k v t = Some (t', mem \<and> llrb_get t k = None) \<and> llrb_valid t'
    \<and> llrb_get t' = (if mem \<and> llrb_get t k = None then (llrb_get t)(k \<mapsto> v) else llrb_get t)
    \<and> llrb_len t' = (if mem \<and> llrb_get t k = None then llrb_len t + 1 else llrb_len t)"
proof -
  have ok: "tree_ok t" using assms by (simp add: llrb_valid_iff)
  from llrb_insert_ok [OF this, of mem k v] obtain t' where
    t': "llrb_insert mem k v t = Some (t', mem \<and> llrb_get t k = None)" "tree_ok t'"
    "entries (root t') = (if mem \<and> llrb_get t k = None
        then insort_key fst (k, v) (entries (root t)) else entries (root t))" by blast
  have "llrb_get t' k' = (if mem \<and> llrb_get t k = None then (llrb_get t)(k \<mapsto> v) else llrb_get t) k'" for k'
    using t' ok by (intro llrb_get_eqI) (auto simp: set_insort_key tree_ok_mem_iff)
  moreover have "llrb_len t' = (if mem \<and> llrb_get t k = None then llrb_len t + 1 else llrb_len t)"
    using t' ok by (auto simp: llrb_len_def tree_ok_def)
  ultimately show ?thesis using t' by (auto simp: llrb_valid_iff)
qed

theorem insert_correct_witness:
  "\<exists>t'. llrb_insert True 5 50 sample_tree = Some (t', True) \<and> llrb_valid t'
    \<and> llrb_get t' 5 = Some 50 \<and> llrb_get t' 6 = Some 60 \<and> llrb_len t' = 5"
proof -
  have "llrb_get sample_tree 5 = None" "llrb_get sample_tree 6 = Some 60" "llrb_len sample_tree = 4"
    by (simp_all add: llrb_get_def llrb_len_def sample_tree_def)
  then show ?thesis using insert_correct [OF sample_tree_valid, of True 5 50] by auto
qed

text \<open>
  C18: on a tree that passes \<open>_valid\<close>, parent links included, \<open>_remove\<close> never dereferences a null pointer,
  reports the value the key had, and leaves a tree that passes \<open>_valid\<close> for the map without the key.
\<close>

theorem remove_correct:
  assumes "llrb_valid t"
  shows "\<exists>t'. llrb_remove k t = Some (t', llrb_get t k) \<and> llrb_valid t'
    \<and> llrb_get t' = (llrb_get t)(k := None)
    \<and> llrb_len t' = (if llrb_get t k = None then llrb_len t else llrb_len t - 1)"
proof (cases "llrb_get t k")
  case None
  then show ?thesis
    using assms remove_root_absent [OF None] by (auto simp: llrb_remove_def)
next
  case (Some v)
  have ok: "tree_ok t" using assms by (simp add: llrb_valid_iff)
  from remove_root_ok [OF this Some] obtain t' where
    t': "remove_root k t = Some (Inr (t', v, (k, v)))" "tree_ok t'"
    "entries (root t') = filter (\<lambda>x. fst x \<noteq> k) (entries (root t))" by blast
  have "llrb_get t' k' = ((llrb_get t)(k := None)) k'" for k'
    using t' ok by (intro llrb_get_eqI) (auto simp: tree_ok_mem_iff)
  moreover have "llrb_len t' = llrb_len t - 1"
    using t'(1) Some by (auto simp: remove_root_def llrb_len_def Let_def split: if_splits bind_splits)
  ultimately show ?thesis using t' Some by (auto simp: llrb_remove_def llrb_valid_iff)
qed

theorem remove_correct_witness:
  "\<exists>t'. llrb_remove 2 sample_tree = Some (t', Some 20) \<and> llrb_valid t'
    \<and> llrb_get t' 2 = None \<and> llrb_get t' 1 = Some 10 \<and> llrb_len t' = 3"
proof -
  have "llrb_get sample_tree 2 = Some 20" "llrb_get sample_tree 1 = Some 10" "llrb_len sample_tree = 4"
    by (simp_all add: llrb_get_def llrb_len_def sample_tree_def)
  then show ?thesis using remove_correct [OF sample_tree_valid, of 2] by auto
qed

text \<open>
  C24: on a valid tree, \<open>_iter_lower_bound\<close> followed by repeated \<open>_iter_next\<close> yields exactly the
  entries whose key is at least the bound, in strictly increasing key order.
\<close>

theorem iteration_correct:
  assumes "llrb_valid t"
  shows "sorted_wrt (<) (map fst (drain (llrb_len t) (iter_lower_bound t k)))
    \<and> set (drain (llrb_len t) (iter_lower_bound t k)) = {(k', v). llrb_get t k' = Some v \<and> k \<le> k'}"
proof -
  have ok: "tree_ok t" using assms by (simp add: llrb_valid_iff)
  have d: "drain (llrb_len t) (iter_lower_bound t k) = dropWhile (\<lambda>e. fst e < k) (entries (root t))"
    (is "_ = ?d")
    using om_from_rep [of "Abs_omap t" k] ok by (simp add: om_from.rep_eq Abs_omap_inverse)
  obtain xs where xs: "entries (root t) = xs @ ?d" "\<forall>x \<in> set xs. fst x < k"
    by (metis set_takeWhileD takeWhile_dropWhile_id)
  have srt: "sorted_wrt (<) (map fst (entries (root t)))" using ok by (simp add: tree_ok_def)
  then have "sorted_wrt (<) (map fst xs @ map fst ?d)" using xs(1) by (metis map_append)
  then have sd: "sorted_wrt (<) (map fst ?d)" by (simp add: sorted_wrt_append)
  have ge: "k \<le> fst x" if "x \<in> set ?d" for x
    using that sd hd_dropWhile [of "\<lambda>e. fst e < k" "entries (root t)"]
    by (cases ?d) (auto simp del: dropWhile_eq_Nil_conv)
  have "(k', v) \<in> set ?d \<longleftrightarrow> llrb_get t k' = Some v \<and> k \<le> k'" for k' v
    using ge [of "(k', v)"] xs(2) tree_ok_mem_iff [OF ok, of k' v]
    by (subst (asm) xs(1)) (auto simp: not_le)
  then show ?thesis using sd unfolding d by auto
qed

theorem iteration_correct_witness:
  "set (drain (llrb_len sample_tree) (iter_lower_bound sample_tree 3)) =
     {(k', v). llrb_get sample_tree k' = Some v \<and> 3 \<le> k'}
   \<and> drain (llrb_len sample_tree) (iter_lower_bound sample_tree 3) = [(4, 40), (6, 60)]"
  using iteration_correct [OF sample_tree_valid, of 3]
  by (simp add: sample_tree_def llrb_len_def iter_lower_bound_def numeral_eq_Suc)

end
