(* ===== verification/Buddy.thy ===== *)
theory Buddy
  imports Prelude
begin

text \<open>
  The buddy page allocator, \<^verbatim>\<open>kernel/vendor/buddy_allocator/buddy_allocator.c\<close>: an implicit binary heap
  of one byte per block.  The byte of a block at level \<open>l\<close> is \<open>l\<close> when the whole block is free,
  254 when it is allocated, 253 when it is unusable, and otherwise the smallest level of a free
  block below it (255 when there is none).

  Bytes and indexes are naturals; the one place where the C code relies on 8-bit wrap-around (the
  level above the root) is written out with \<open>mod 256\<close>.  An access outside the heap array is \<open>None\<close>.
\<close>

section \<open>Arithmetic\<close>

definition BUDDY_LEVEL_FILLED :: nat where "BUDDY_LEVEL_FILLED = 255"
definition BUDDY_LEVEL_ALLOCATED :: nat where "BUDDY_LEVEL_ALLOCATED = 254"
definition BUDDY_LEVEL_UNUSABLE :: nat where "BUDDY_LEVEL_UNUSABLE = 253"

lemmas buddy_level_defs = BUDDY_LEVEL_FILLED_def BUDDY_LEVEL_ALLOCATED_def BUDDY_LEVEL_UNUSABLE_def

fun popcount :: "nat \<Rightarrow> nat" where
  "popcount n = (if n = 0 then 0 else n mod 2 + popcount (n div 2))"

declare popcount.simps [simp del]

definition uint64_is_power_of_2 :: "nat \<Rightarrow> bool" where
  "uint64_is_power_of_2 x = (popcount x = 1)"

text \<open>The index of the highest set bit (\<open>63 - clz\<close>); the argument is never 0.\<close>

fun uint64_log2 :: "nat \<Rightarrow> nat" where
  "uint64_log2 v = (if v < 2 then 0 else Suc (uint64_log2 (v div 2)))"

declare uint64_log2.simps [simp del]

definition uint64_ceil_log2 :: "nat \<Rightarrow> nat" where
  "uint64_ceil_log2 v = uint64_log2 v + (if uint64_is_power_of_2 v then 0 else 1)"

definition heap_level :: "nat \<Rightarrow> nat" where
  "heap_level i = uint64_log2 (i + 1)"

definition heap_size :: "nat \<Rightarrow> nat" where
  "heap_size max_level = 2 ^ ((max_level + 1) mod 256) - 1"

definition heap_parent :: "nat \<Rightarrow> nat" where
  "heap_parent i = (i - 1) div 2"

definition heap_left :: "nat \<Rightarrow> nat" where
  "heap_left i = 2 * i + 1"

definition heap_right :: "nat \<Rightarrow> nat" where
  "heap_right i = 2 * i + 2"

definition heap_sibling :: "nat \<Rightarrow> nat" where
  "heap_sibling i = (if i mod 2 = 1 then i + 1 else i - 1)"

section \<open>The allocator\<close>

record buddy =
  offset :: u64
  page_size_log2 :: nat
  ready :: bool
  max_level :: nat
  heap :: "nat list"

datatype buddy_status = NOMEM | INVAL | NO_SUCH_ALLOCATION

definition parent_free_level :: "nat \<Rightarrow> nat \<Rightarrow> nat \<Rightarrow> nat" where
  "parent_free_level ml a_level b_level =
     (let parent = min a_level b_level in if parent > ml then BUDDY_LEVEL_FILLED else parent)"

function propagate :: "nat \<Rightarrow> nat list \<Rightarrow> nat \<Rightarrow> nat list option" where
  "propagate ml h block_index =
     (if block_index = 0 then Some h
      else if block_index < length h \<and> heap_sibling block_index < length h then
        propagate ml
          (h[heap_parent block_index :=
               parent_free_level ml (h ! block_index) (h ! heap_sibling block_index)])
          (heap_parent block_index)
      else None)"
  by pat_completeness auto
termination
  by (relation "measure (\<lambda>(ml, h, i). i)") (auto simp: heap_parent_def)

function coalesce_loop :: "nat list \<Rightarrow> nat \<Rightarrow> (nat list \<times> nat) option" where
  "coalesce_loop h block_index =
     (if block_index = 0 then Some (h, block_index)
      else if heap_sibling block_index < length h then
        (if h ! heap_sibling block_index = heap_level block_index then
           coalesce_loop (h[heap_parent block_index := heap_level (heap_parent block_index)])
             (heap_parent block_index)
         else Some (h, block_index))
      else None)"
  by pat_completeness auto
termination
  by (relation "measure (\<lambda>(h, i). i)") (auto simp: heap_parent_def)

declare propagate.simps [simp del]
declare coalesce_loop.simps [simp del]

definition coalesce :: "nat list \<Rightarrow> nat \<Rightarrow> (nat list \<times> nat) option" where
  "coalesce h block_index =
     (if block_index < length h then
        (if h ! block_index \<noteq> heap_level block_index then Some (h, block_index)
         else coalesce_loop h block_index)
      else None)"

text \<open>The search of \<open>acquire_empty_slot\<close>; every turn moves to a larger index of the heap array.\<close>

function acquire_loop :: "nat list \<Rightarrow> nat \<Rightarrow> nat \<Rightarrow> nat \<Rightarrow> (nat list \<times> nat) option" where
  "acquire_loop h allocation_level index level =
     (if index \<ge> length h then None
      else if h ! index = level \<and> level = allocation_level then Some (h, index)
      else if heap_right index \<ge> length h then None
      else
        (let h = (if h ! index = level
                  then h[index := level + 1, heap_left index := level + 1, heap_right index := level + 1]
                  else h);
             left_level = h ! heap_left index;
             right_level = h ! heap_right index;
             index' = (if left_level < right_level then
                         (if allocation_level \<ge> right_level then heap_right index else heap_left index)
                       else
                         (if allocation_level \<ge> left_level then heap_left index else heap_right index))
         in acquire_loop h allocation_level index' (level + 1)))"
  by pat_completeness auto
termination
  by (relation "measure (\<lambda>(h, a, i, l). length h - i)") (auto simp: heap_left_def heap_right_def)

declare acquire_loop.simps [simp del]

definition acquire_empty_slot :: "nat list \<Rightarrow> nat \<Rightarrow> (nat list \<times> nat) option" where
  "acquire_empty_slot h allocation_level = acquire_loop h allocation_level 0 0"

text \<open>
  The level above the root is \<open>(0 - 1) mod 256 = 255\<close>, and \<open>heap_size 255 = 0\<close>, so the formula
  also serves block 0.
\<close>

definition get_first_page_index_from_block_index :: "nat \<Rightarrow> nat \<Rightarrow> nat" where
  "get_first_page_index_from_block_index ml block_index =
     (block_index - heap_size ((heap_level block_index + 255) mod 256))
       * 2 ^ (ml - heap_level block_index)"

definition get_last_page_index_from_block_index :: "nat \<Rightarrow> nat \<Rightarrow> nat" where
  "get_last_page_index_from_block_index ml block_index =
     (block_index - heap_size ((heap_level block_index + 255) mod 256) + 1)
       * 2 ^ (ml - heap_level block_index) - 1"

text \<open>
  The outcome is \<open>Inl\<close> for an error status and \<open>Inr\<close> for the block.  Descending below the last
  level would shift by a negative amount, which is undefined: \<open>None\<close>.
\<close>

function get_block_loop :: "nat \<Rightarrow> nat list \<Rightarrow> nat \<Rightarrow> nat \<Rightarrow> nat \<Rightarrow> (buddy_status + nat) option" where
  "get_block_loop ml h page_id bi level =
     (if level > ml then Some (Inr bi)
      else if bi \<ge> length h then None
      else if h ! bi = BUDDY_LEVEL_ALLOCATED then Some (Inr bi)
      else if h ! bi = level then Some (Inl NO_SUCH_ALLOCATION)
      else if h ! bi = BUDDY_LEVEL_UNUSABLE then Some (Inl NO_SUCH_ALLOCATION)
      else if heap_level (heap_right bi) > ml then None
      else if page_id \<ge> get_first_page_index_from_block_index ml (heap_right bi)
        then get_block_loop ml h page_id (heap_right bi) (level + 1)
        else get_block_loop ml h page_id (heap_left bi) (level + 1))"
  by pat_completeness auto
termination
  by (relation "measure (\<lambda>(ml, h, p, b, l). ml + 1 - l)") auto

declare get_block_loop.simps [simp del]

definition get_block_index_from_page_index ::
    "buddy \<Rightarrow> nat \<Rightarrow> (buddy_status + nat) option" where
  "get_block_index_from_page_index ba page_id =
     get_block_loop (max_level ba) (heap ba) page_id 0 0"

text \<open>\<open>sizeof(struct buddy_allocator_s)\<close> is 16: eight bytes of offset, three bytes, padding.\<close>

definition buddy_get_bytes :: "nat \<Rightarrow> nat" where
  "buddy_get_bytes n_pages = 16 + heap_size (uint64_ceil_log2 n_pages)"

text \<open>
  \<open>buddy_init\<close> is given uninitialised storage of \<open>heap_size\<close> bytes, here \<open>junk\<close>, and writes its
  bottom level only.
\<close>

definition buddy_init :: "nat list \<Rightarrow> nat \<Rightarrow> nat \<Rightarrow> u64 \<Rightarrow> buddy" where
  "buddy_init junk n_pages page_size off =
     (let ml = uint64_ceil_log2 n_pages;
          bottom_level_offset = (if ml > 0 then heap_size (ml - 1) else 0)
      in \<lparr>offset = off, page_size_log2 = uint64_log2 page_size, ready = False, max_level = ml,
          heap = take bottom_level_offset junk @ replicate n_pages ml
            @ replicate (heap_size ml - (n_pages + bottom_level_offset)) BUDDY_LEVEL_UNUSABLE\<rparr>)"

fun mark_loop :: "nat list \<Rightarrow> nat list \<Rightarrow> nat list option" where
  "mark_loop h [] = Some h"
| "mark_loop h (i # is) = (if i < length h then mark_loop (h[i := BUDDY_LEVEL_UNUSABLE]) is else None)"

definition buddy_mark_unusable :: "buddy \<Rightarrow> nat \<Rightarrow> nat \<Rightarrow> buddy option" where
  "buddy_mark_unusable ba min_page_id max_page_id = do {
     h \<leftarrow> mark_loop (heap ba)
       (map (\<lambda>i. i + 2 ^ (max_level ba - 1)) [min_page_id ..< max_page_id + 1]);
     Some (ba\<lparr>heap := h\<rparr>)
   }"

definition ready_value :: "nat list \<Rightarrow> nat \<Rightarrow> nat" where
  "ready_value h bi =
     (let level = heap_level bi; lv = h ! heap_left bi; rv = h ! heap_right bi
      in if lv = BUDDY_LEVEL_UNUSABLE \<and> rv = BUDDY_LEVEL_UNUSABLE then BUDDY_LEVEL_UNUSABLE
         else if lv = level + 1 \<and> rv = level + 1 then level
         else min lv rv)"

text \<open>\<open>n\<close> is one more than \<open>block_index\<close> of the loop.\<close>

fun ready_loop :: "nat list \<Rightarrow> nat \<Rightarrow> nat list" where
  "ready_loop h 0 = h"
| "ready_loop h (Suc bi) = ready_loop (h[bi := ready_value h bi]) bi"

definition buddy_ready :: "buddy \<Rightarrow> buddy" where
  "buddy_ready ba = ba\<lparr>
     heap := (if max_level ba > 0 then ready_loop (heap ba) (heap_size (max_level ba - 1)) else heap ba),
     ready := True\<rparr>"

definition buddy_page_alloc :: "buddy \<Rightarrow> nat \<Rightarrow> (buddy_status + nat \<times> buddy) option" where
  "buddy_page_alloc ba n = do {
     let n_pages = (if n = 0 then 1 else n);
     if n_pages > 2 ^ max_level ba then Some (Inl INVAL)
     else do {
       let allocation_level = max_level ba - uint64_ceil_log2 n_pages;
       if allocation_level < heap ba ! 0 then Some (Inl NOMEM)
       else do {
         (h, block_index) \<leftarrow> acquire_empty_slot (heap ba) allocation_level;
         h \<leftarrow> propagate (max_level ba) (h[block_index := BUDDY_LEVEL_ALLOCATED]) block_index;
         Some (Inr (get_first_page_index_from_block_index (max_level ba) block_index, ba\<lparr>heap := h\<rparr>))
       }
     }
   }"

definition buddy_page_free :: "buddy \<Rightarrow> nat \<Rightarrow> (buddy_status + buddy) option" where
  "buddy_page_free ba page_id = do {
     get_status \<leftarrow> get_block_index_from_page_index ba page_id;
     case get_status of
       Inl e \<Rightarrow> Some (Inl e)
     | Inr block_index \<Rightarrow> do {
         (h, c) \<leftarrow> coalesce ((heap ba)[block_index := heap_level block_index]) block_index;
         h \<leftarrow> propagate (max_level ba) h c;
         Some (Inr (ba\<lparr>heap := h\<rparr>))
       }
   }"

definition page_to_ptr :: "buddy \<Rightarrow> nat \<Rightarrow> u64" where
  "page_to_ptr ba page_id = offset ba + push_bit (page_size_log2 ba) (of_nat page_id)"

definition ptr_to_page :: "buddy \<Rightarrow> u64 \<Rightarrow> nat" where
  "ptr_to_page ba ptr = unat (drop_bit (page_size_log2 ba) (ptr - offset ba))"

definition buddy_mem_alloc :: "buddy \<Rightarrow> nat \<Rightarrow> (buddy_status + u64 \<times> buddy) option" where
  "buddy_mem_alloc ba n = do {
     let n_bytes = (if n < 2 ^ page_size_log2 ba then 2 ^ page_size_log2 ba else n);
     let n_pages = 2 ^ (uint64_ceil_log2 n_bytes - page_size_log2 ba);
     s \<leftarrow> buddy_page_alloc ba n_pages;
     Some (case s of Inl e \<Rightarrow> Inl e | Inr (page_id, ba') \<Rightarrow> Inr (page_to_ptr ba' page_id, ba'))
   }"

definition buddy_mem_free :: "buddy \<Rightarrow> u64 \<Rightarrow> (buddy_status + buddy) option" where
  "buddy_mem_free ba mem = buddy_page_free ba (ptr_to_page ba mem)"

definition buddy_mem_size :: "buddy \<Rightarrow> u64 \<Rightarrow> (buddy_status + nat) option" where
  "buddy_mem_size ba mem = do {
     s \<leftarrow> get_block_index_from_page_index ba (ptr_to_page ba mem);
     Some (case s of Inl e \<Rightarrow> Inl e
       | Inr block_index \<Rightarrow> Inr (2 ^ (max_level ba - heap_level block_index + page_size_log2 ba)))
   }"

end
