(* ===== verification/Buddy_Correct.thy ===== *)
theory Buddy_Correct
  imports Buddy
begin

text \<open>
  Correctness of the buddy allocator: the heap invariant, the sets of free pages and of allocated
  blocks a heap stands for, and what initialisation, allocation and release do to them.
\<close>

section \<open>Positions in the heap\<close>

lemma uint64_log2_bounds: "0 < v \<Longrightarrow> 2 ^ uint64_log2 v \<le> v \<and> v < 2 ^ Suc (uint64_log2 v)"
proof (induction v rule: uint64_log2.induct)
  case (1 v)
  show ?case
  proof (cases "v < 2")
    case True
    then show ?thesis using 1 by (simp add: uint64_log2.simps)
  next
    case False
    then have "2 ^ uint64_log2 (v div 2) \<le> v div 2 \<and> v div 2 < 2 ^ Suc (uint64_log2 (v div 2))"
      using 1 by auto
    then show ?thesis using False by (subst uint64_log2.simps; subst uint64_log2.simps) auto
  qed
qed

lemma power2_bounds_unique:
  assumes "2 ^ a \<le> (v::nat)" "v < 2 ^ Suc a" "2 ^ b \<le> v" "v < 2 ^ Suc b"
  shows "a = b"
proof -
  have "(2::nat) ^ a < 2 ^ Suc b" "(2::nat) ^ b < 2 ^ Suc a" using assms by linarith+
  then have "a < Suc b" "b < Suc a"
    using power_less_imp_less_exp [of "2::nat" a "Suc b"] power_less_imp_less_exp [of "2::nat" b "Suc a"]
    by simp_all
  then show ?thesis by simp
qed

lemma uint64_log2_unique: "2 ^ a \<le> v \<Longrightarrow> v < 2 ^ Suc a \<Longrightarrow> uint64_log2 v = a"
  using uint64_log2_bounds [of v] power2_bounds_unique [of "uint64_log2 v" v a]
  by (metis le_zero_eq not_gr_zero power_not_zero zero_neq_numeral)

lemma heap_level_bounds: "2 ^ heap_level i \<le> i + 1" "i + 1 < 2 ^ Suc (heap_level i)"
  using uint64_log2_bounds [of "i + 1"] by (auto simp: heap_level_def)

lemma heap_level_0 [simp]: "heap_level 0 = 0"
  by (simp add: heap_level_def uint64_log2.simps)

lemma heap_level_left [simp]: "heap_level (heap_left i) = Suc (heap_level i)"
  unfolding heap_level_def [of "heap_left i"]
  using heap_level_bounds [of i] by (intro uint64_log2_unique) (auto simp: heap_left_def)

lemma heap_level_right [simp]: "heap_level (heap_right i) = Suc (heap_level i)"
  unfolding heap_level_def [of "heap_right i"]
  using heap_level_bounds [of i] by (intro uint64_log2_unique) (auto simp: heap_right_def)

lemma heap_parent_child [simp]:
  "heap_parent (heap_left i) = i" "heap_parent (heap_right i) = i"
  by (auto simp: heap_parent_def heap_left_def heap_right_def)

lemma heap_sibling_child [simp]:
  "heap_sibling (heap_left i) = heap_right i" "heap_sibling (heap_right i) = heap_left i"
  by (auto simp: heap_sibling_def heap_left_def heap_right_def)

lemma heap_child_neq [simp]:
  "heap_left i \<noteq> 0" "heap_right i \<noteq> 0" "heap_left i \<noteq> i" "heap_right i \<noteq> i"
  "heap_left i \<noteq> heap_right i" "i \<noteq> heap_left i" "i \<noteq> heap_right i" "heap_right i \<noteq> heap_left i"
  by (auto simp: heap_left_def heap_right_def)

lemma heap_size_eq: "ml < 255 \<Longrightarrow> heap_size ml = 2 ^ Suc ml - 1"
  by (simp add: heap_size_def)

lemma heap_index_bound: "heap_level i \<le> ml \<Longrightarrow> ml < 255 \<Longrightarrow> i < heap_size ml"
proof -
  assume ml: "heap_level i \<le> ml" "ml < 255"
  have "(2::nat) ^ Suc (heap_level i) \<le> 2 ^ Suc ml"
    using ml by (intro power_increasing) auto
  with heap_level_bounds(2) [of i] have "i + 1 < 2 ^ Suc ml" by (rule less_le_trans)
  then show ?thesis using ml by (simp add: heap_size_eq)
qed

text \<open>The first page of a block, freed of the wrap-around trick.\<close>

abbreviation first_page :: "nat \<Rightarrow> nat \<Rightarrow> nat" where
  "first_page \<equiv> get_first_page_index_from_block_index"

lemma first_page_eq:
  assumes "heap_level i < 255"
  shows "first_page ml i = (i + 1 - 2 ^ heap_level i) * 2 ^ (ml - heap_level i)"
proof (cases "heap_level i")
  case 0
  then show ?thesis
    by (simp add: get_first_page_index_from_block_index_def heap_size_def)
next
  case (Suc l)
  moreover have "(Suc l + 255) mod 256 = l" "Suc l mod 256 = Suc l" using assms Suc by auto
  ultimately show ?thesis
    by (simp add: get_first_page_index_from_block_index_def heap_size_def)
qed

lemma first_page_left:
  assumes "heap_level i < ml" "ml < 255"
  shows "first_page ml (heap_left i) = first_page ml i"
proof -
  have "(2::nat) ^ (ml - heap_level i) = 2 * 2 ^ (ml - Suc (heap_level i))"
    using assms(1) by (metis Suc_diff_Suc power_Suc)
  then show ?thesis
    using assms by (simp add: first_page_eq) (simp add: heap_left_def algebra_simps)
qed

lemma first_page_right:
  assumes "heap_level i < ml" "ml < 255"
  shows "first_page ml (heap_right i) = first_page ml i + 2 ^ (ml - Suc (heap_level i))"
proof -
  have e: "(2::nat) ^ (ml - heap_level i) = 2 * 2 ^ (ml - Suc (heap_level i))"
    using assms(1) by (metis Suc_diff_Suc power_Suc)
  have "heap_right i + 1 - 2 ^ Suc (heap_level i) = 2 * (i + 1 - 2 ^ heap_level i) + 1"
    using heap_level_bounds(1) [of i] by (simp add: heap_right_def)
  then show ?thesis using assms e by (simp add: first_page_eq algebra_simps)
qed

section \<open>Subtrees\<close>

fun subtree :: "nat \<Rightarrow> nat \<Rightarrow> nat set" where
  "subtree 0 i = {i}"
| "subtree (Suc d) i = {i} \<union> subtree d (heap_left i) \<union> subtree d (heap_right i)"

lemma subtree_self [simp]: "i \<in> subtree d i"
  by (cases d) auto

lemma subtree_div: "j \<in> subtree d i \<Longrightarrow> \<exists>k \<le> d. (j + 1) div 2 ^ k = i + 1"
proof (induction d arbitrary: i)
  case (Suc d)
  have step: ?case if "j \<in> subtree d c" "(c + 1) div 2 = i + 1" for c
  proof -
    from Suc.IH [OF that(1)] obtain k where "k \<le> d" "(j + 1) div 2 ^ k = c + 1" by blast
    then have "(j + 1) div 2 ^ Suc k = i + 1" using that(2) by (simp only: power_Suc2 div_mult2_eq)
    then show ?case using \<open>k \<le> d\<close> by (intro exI [of _ "Suc k"]) auto
  qed
  from Suc.prems consider "j = i" | "j \<in> subtree d (heap_left i)" | "j \<in> subtree d (heap_right i)"
    by auto
  then show ?case
  proof cases
    case 1 then show ?thesis by (intro exI [of _ 0]) auto
  next
    case 2 then show ?thesis by (rule step) (simp add: heap_left_def)
  next
    case 3 then show ?thesis by (rule step) (simp add: heap_right_def)
  qed
qed (intro exI [of _ 0], simp)

lemma div_power_le:
  assumes "n div 2 ^ k = (m::nat)" "k < k'"
  shows "n div 2 ^ k' \<le> m div 2"
proof -
  have "n div 2 ^ k' = m div 2 ^ (k' - k)"
    using assms by (metis div_mult2_eq less_imp_le_nat le_add_diff_inverse power_add)
  also have "\<dots> \<le> m div 2 ^ 1"
    using assms(2) by (intro div_le_mono2 power_increasing) auto
  finally show ?thesis by simp
qed

lemma subtree_children_disjoint:
  "subtree d (heap_left i) \<inter> subtree d (heap_right i) = {}"
proof (rule ccontr)
  assume "\<not> ?thesis"
  then obtain j where j: "j \<in> subtree d (heap_left i)" "j \<in> subtree d (heap_right i)" by auto
  obtain k where k: "(j + 1) div 2 ^ k = 2 * i + 2"
    using subtree_div [OF j(1)] by (auto simp: heap_left_def)
  obtain k' where k': "(j + 1) div 2 ^ k' = 2 * i + 3"
    using subtree_div [OF j(2)] by (auto simp: heap_right_def eval_nat_numeral)
  show False
    using k k' div_power_le [OF k, of k'] div_power_le [OF k', of k]
    by (cases k k' rule: linorder_cases) auto
qed

lemma subtree_ge: "j \<in> subtree d i \<Longrightarrow> i \<le> j"
proof -
  assume "j \<in> subtree d i"
  then obtain k where "(j + 1) div 2 ^ k = i + 1" using subtree_div by blast
  then show ?thesis by (metis Suc_eq_plus1 Suc_le_mono div_le_dividend)
qed

lemma parent_notin_subtree [simp]:
  "i \<notin> subtree d (heap_left i)" "i \<notin> subtree d (heap_right i)"
  using subtree_ge [of i d "heap_left i"] subtree_ge [of i d "heap_right i"]
  by (auto simp: heap_left_def heap_right_def)

section \<open>The invariant and what a heap stands for\<close>

text \<open>
  \<open>d\<close> is the number of levels below block \<open>i\<close>, so \<open>ml - d\<close> is its level.  A block that is free,
  allocated or unusable says nothing about the bytes below it; any other block carries the free
  level of its two children, which are not both entirely free.
\<close>

fun heap_wf :: "nat \<Rightarrow> nat list \<Rightarrow> nat \<Rightarrow> nat \<Rightarrow> bool" where
  "heap_wf ml h 0 i \<longleftrightarrow> h ! i \<in> {ml, BUDDY_LEVEL_ALLOCATED, BUDDY_LEVEL_UNUSABLE}"
| "heap_wf ml h (Suc d) i \<longleftrightarrow>
     h ! i \<in> {ml - Suc d, BUDDY_LEVEL_ALLOCATED, BUDDY_LEVEL_UNUSABLE}
     \<or> h ! i = parent_free_level ml (h ! heap_left i) (h ! heap_right i)
       \<and> \<not> (h ! heap_left i = ml - d \<and> h ! heap_right i = ml - d)
       \<and> heap_wf ml h d (heap_left i) \<and> heap_wf ml h d (heap_right i)"

fun free_pages :: "nat \<Rightarrow> nat list \<Rightarrow> nat \<Rightarrow> nat \<Rightarrow> nat set" where
  "free_pages ml h 0 i = (if h ! i = ml then {first_page ml i ..< first_page ml i + 1} else {})"
| "free_pages ml h (Suc d) i =
     (if h ! i = ml - Suc d then {first_page ml i ..< first_page ml i + 2 ^ Suc d}
      else if h ! i \<in> {BUDDY_LEVEL_ALLOCATED, BUDDY_LEVEL_UNUSABLE} then {}
      else free_pages ml h d (heap_left i) \<union> free_pages ml h d (heap_right i))"

text \<open>An allocated block is its first page and its order.\<close>

fun allocated :: "nat \<Rightarrow> nat list \<Rightarrow> nat \<Rightarrow> nat \<Rightarrow> (nat \<times> nat) set" where
  "allocated ml h 0 i = (if h ! i = BUDDY_LEVEL_ALLOCATED then {(first_page ml i, 0)} else {})"
| "allocated ml h (Suc d) i =
     (if h ! i = BUDDY_LEVEL_ALLOCATED then {(first_page ml i, Suc d)}
      else if h ! i \<in> {ml - Suc d, BUDDY_LEVEL_UNUSABLE} then {}
      else allocated ml h d (heap_left i) \<union> allocated ml h d (heap_right i))"

definition block_pages :: "nat \<times> nat \<Rightarrow> nat set" where
  "block_pages b = {fst b ..< fst b + 2 ^ snd b}"

lemma heap_wf_cong: "(\<And>j. j \<in> subtree d i \<Longrightarrow> h' ! j = h ! j) \<Longrightarrow> heap_wf ml h' d i = heap_wf ml h d i"
proof (induction d arbitrary: i)
  case (Suc d)
  have "heap_wf ml h' d c = heap_wf ml h d c" if "c \<in> {heap_left i, heap_right i}" for c
    using that Suc.prems by (intro Suc.IH) auto
  moreover have "h' ! i = h ! i" "h' ! heap_left i = h ! heap_left i" "h' ! heap_right i = h ! heap_right i"
    using Suc.prems by auto
  ultimately show ?case by simp
qed simp

lemma free_pages_cong:
  "(\<And>j. j \<in> subtree d i \<Longrightarrow> h' ! j = h ! j) \<Longrightarrow> free_pages ml h' d i = free_pages ml h d i"
proof (induction d arbitrary: i)
  case (Suc d)
  have "free_pages ml h' d c = free_pages ml h d c" if "c \<in> {heap_left i, heap_right i}" for c
    using that Suc.prems by (intro Suc.IH) auto
  then show ?case using Suc.prems [of i] by simp
qed simp

lemma allocated_cong:
  "(\<And>j. j \<in> subtree d i \<Longrightarrow> h' ! j = h ! j) \<Longrightarrow> allocated ml h' d i = allocated ml h d i"
proof (induction d arbitrary: i)
  case (Suc d)
  have "allocated ml h' d c = allocated ml h d c" if "c \<in> {heap_left i, heap_right i}" for c
    using that Suc.prems by (intro Suc.IH) auto
  then show ?case using Suc.prems [of i] by simp
qed simp

lemmas buddy_cong = heap_wf_cong free_pages_cong allocated_cong

lemma parent_free_level_commute: "parent_free_level ml a b = parent_free_level ml b a"
  by (simp add: parent_free_level_def min.commute)

lemma parent_free_level_cases:
  "min a b \<le> ml \<and> parent_free_level ml a b = min a b \<or> ml < min a b \<and> parent_free_level ml a b = 255"
  by (auto simp: parent_free_level_def BUDDY_LEVEL_FILLED_def Let_def)

lemma heap_wf_level_le: "heap_wf ml h d i \<Longrightarrow> ml \<le> 252 \<Longrightarrow> ml - d \<le> h ! i"
proof (induction d arbitrary: i)
  case (Suc d)
  consider "h ! i \<in> {ml - Suc d, BUDDY_LEVEL_ALLOCATED, BUDDY_LEVEL_UNUSABLE}"
    | "h ! i = parent_free_level ml (h ! heap_left i) (h ! heap_right i)"
      "heap_wf ml h d (heap_left i)" "heap_wf ml h d (heap_right i)"
    using Suc.prems(1) by auto
  then show ?case
  proof cases
    case 2
    then have "ml - d \<le> h ! heap_left i" "ml - d \<le> h ! heap_right i" using Suc by auto
    then have "ml - d \<le> min (h ! heap_left i) (h ! heap_right i)" by simp
    then show ?thesis
      using 2(1) parent_free_level_cases [of "h ! heap_left i" "h ! heap_right i" ml] Suc.prems(2)
      by linarith
  qed (use Suc.prems in \<open>auto simp: buddy_level_defs\<close>)
qed (auto simp: buddy_level_defs)

text \<open>Writing the free level of two well-formed children, not both free, into their parent.\<close>

lemma node_rebuild:
  fixes h :: "nat list" and i ml :: nat
  defines "h' \<equiv> h[i := parent_free_level ml (h ! heap_left i) (h ! heap_right i)]"
  assumes ml: "ml \<le> 252" "Suc d \<le> ml" "i < length h"
    and wf: "heap_wf ml h d (heap_left i)" "heap_wf ml h d (heap_right i)"
    and nb: "\<not> (h ! heap_left i = ml - d \<and> h ! heap_right i = ml - d)"
  shows "heap_wf ml h' (Suc d) i" "h' ! i \<noteq> ml - Suc d"
    "free_pages ml h' (Suc d) i = free_pages ml h d (heap_left i) \<union> free_pages ml h d (heap_right i)"
    "allocated ml h' (Suc d) i = allocated ml h d (heap_left i) \<union> allocated ml h d (heap_right i)"
proof -
  have same: "h' ! j = h ! j" if "j \<in> subtree d (heap_left i) \<union> subtree d (heap_right i)" for j
    using that by (cases "j = i") (auto simp: h'_def)
  note cong = buddy_cong [of d "heap_left i" h' h ml] buddy_cong [of d "heap_right i" h' h ml]
  have v: "h' ! i = parent_free_level ml (h ! heap_left i) (h ! heap_right i)"
    using ml by (simp add: h'_def)
  have "ml - d \<le> h ! heap_left i" "ml - d \<le> h ! heap_right i"
    using heap_wf_level_le [OF _ ml(1)] wf by blast+
  then have nl: "h' ! i \<notin> {ml - Suc d, BUDDY_LEVEL_ALLOCATED, BUDDY_LEVEL_UNUSABLE}"
    using parent_free_level_cases [of "h ! heap_left i" "h ! heap_right i" ml] ml
    unfolding v by (auto simp: buddy_level_defs min_def split: if_splits)
  then show "h' ! i \<noteq> ml - Suc d" by simp
  have "h' ! heap_left i = h ! heap_left i" "h' ! heap_right i = h ! heap_right i"
    by (simp_all add: h'_def)
  then show "heap_wf ml h' (Suc d) i" using v wf nb cong same by simp
  show "free_pages ml h' (Suc d) i = free_pages ml h d (heap_left i) \<union> free_pages ml h d (heap_right i)"
    using nl cong same by simp
  show "allocated ml h' (Suc d) i = allocated ml h d (heap_left i) \<union> allocated ml h d (heap_right i)"
    using nl cong same by simp
qed

lemma free_pages_range: "heap_level i + d = ml \<Longrightarrow> ml \<le> 252 \<Longrightarrow>
  free_pages ml h d i \<subseteq> {first_page ml i ..< first_page ml i + 2 ^ d}"
proof (induction d arbitrary: i)
  case (Suc d)
  then have c: "free_pages ml h d (heap_left i) \<subseteq> {first_page ml (heap_left i) ..< first_page ml (heap_left i) + 2 ^ d}"
    "free_pages ml h d (heap_right i) \<subseteq> {first_page ml (heap_right i) ..< first_page ml (heap_right i) + 2 ^ d}"
    by auto
  have "first_page ml (heap_left i) = first_page ml i" "first_page ml (heap_right i) = first_page ml i + 2 ^ d"
    using Suc.prems first_page_left [of i ml] first_page_right [of i ml] by auto
  then show ?case using c by (auto; force)
qed auto

lemma allocated_range: "heap_level i + d = ml \<Longrightarrow> ml \<le> 252 \<Longrightarrow> b \<in> allocated ml h d i \<Longrightarrow>
  block_pages b \<subseteq> {first_page ml i ..< first_page ml i + 2 ^ d} \<and> block_pages b \<noteq> {}"
proof (induction d arbitrary: i)
  case (Suc d)
  have f: "first_page ml (heap_left i) = first_page ml i" "first_page ml (heap_right i) = first_page ml i + 2 ^ d"
    using Suc.prems first_page_left [of i ml] first_page_right [of i ml] by auto
  have c: "block_pages b \<subseteq> {first_page ml c ..< first_page ml c + 2 ^ d} \<and> block_pages b \<noteq> {}"
    if "c \<in> {heap_left i, heap_right i}" "b \<in> allocated ml h d c" for c
    using that Suc.prems by (intro Suc.IH) auto
  consider "b = (first_page ml i, Suc d)" | "b \<in> allocated ml h d (heap_left i)"
    | "b \<in> allocated ml h d (heap_right i)" using Suc.prems(3) by (auto split: if_splits)
  then show ?case
    using c [of "heap_left i"] c [of "heap_right i"] f
    by cases (auto simp: block_pages_def)
qed (auto simp: block_pages_def split: if_splits)

section \<open>Allocation\<close>

text \<open>One upward step of \<open>propagate\<close> from either child.\<close>

lemma propagate_child:
  assumes "c \<in> {heap_left i, heap_right i}" "heap_right i < length h"
  shows "propagate ml h c =
    propagate ml (h[i := parent_free_level ml (h ! heap_left i) (h ! heap_right i)]) i"
proof -
  have "heap_left i < length h" using assms(2) by (simp add: heap_left_def heap_right_def)
  then show ?thesis
    using assms by (auto simp: propagate.simps [of ml h "heap_left i"]
        propagate.simps [of ml h "heap_right i"] parent_free_level_commute)
qed

text \<open>
  What a search below a block that has to be entered finds: two well-formed children that stand
  for the same pages and blocks, one of them with a free block of the wanted level.
\<close>

definition split_block :: "nat list \<Rightarrow> nat \<Rightarrow> nat \<Rightarrow> nat list" where
  "split_block h i level =
     (if h ! i = level
      then h[i := level + 1, heap_left i := level + 1, heap_right i := level + 1] else h)"

lemma split_block_children:
  fixes h :: "nat list" and i ml d :: nat
  defines "h' \<equiv> split_block h i (ml - Suc d)"
  assumes "heap_wf ml h (Suc d) i" "heap_level i + Suc d = ml" "ml \<le> 252" "length h = heap_size ml"
    and free: "h ! i \<le> a" "a \<le> ml" "h ! i = ml - Suc d \<Longrightarrow> ml - d \<le> a"
  shows "length h' = length h"
    "heap_wf ml h' d (heap_left i)" "heap_wf ml h' d (heap_right i)"
    "free_pages ml h (Suc d) i = free_pages ml h' d (heap_left i) \<union> free_pages ml h' d (heap_right i)"
    "allocated ml h (Suc d) i = allocated ml h' d (heap_left i) \<union> allocated ml h' d (heap_right i)"
    "min (h' ! heap_left i) (h' ! heap_right i) \<le> a"
    "j \<notin> subtree (Suc d) i \<Longrightarrow> h' ! j = h ! j"
proof -
  have len: "i < length h" "heap_left i < length h" "heap_right i < length h"
    using assms heap_index_bound [of i ml] heap_index_bound [of "heap_left i" ml]
      heap_index_bound [of "heap_right i" ml] by auto
  have fp: "first_page ml (heap_left i) = first_page ml i" "first_page ml (heap_right i) = first_page ml i + 2 ^ d"
    using assms first_page_left [of i ml] first_page_right [of i ml] by auto
  show "length h' = length h" by (simp add: h'_def split_block_def)
  show "h' ! j = h ! j" if "j \<notin> subtree (Suc d) i"
  proof -
    have "j \<noteq> i" "j \<noteq> heap_left i" "j \<noteq> heap_right i" using that by auto
    then show ?thesis by (simp add: h'_def split_block_def)
  qed
  have valid: "h ! i \<notin> {BUDDY_LEVEL_ALLOCATED, BUDDY_LEVEL_UNUSABLE}"
    using assms by (auto simp: buddy_level_defs)
  have "heap_wf ml h' d (heap_left i) \<and> heap_wf ml h' d (heap_right i)
    \<and> free_pages ml h (Suc d) i = free_pages ml h' d (heap_left i) \<union> free_pages ml h' d (heap_right i)
    \<and> allocated ml h (Suc d) i = allocated ml h' d (heap_left i) \<union> allocated ml h' d (heap_right i)
    \<and> min (h' ! heap_left i) (h' ! heap_right i) \<le> a"
  proof (cases "h ! i = ml - Suc d")
    case True
    have eq: "h' ! heap_left i = ml - d" "h' ! heap_right i = ml - d"
      using True len assms(3) by (auto simp: h'_def split_block_def nth_list_update)
    have "heap_wf ml h' d c" "free_pages ml h' d c = {first_page ml c ..< first_page ml c + 2 ^ d}"
      "allocated ml h' d c = {}" if "h' ! c = ml - d" for c
      using that assms(4) by (cases d; simp add: buddy_level_defs)+
    with eq fp True free valid show ?thesis by (auto simp: ivl_disj_un)
  next
    case False
    then have "h' = h" by (simp add: h'_def split_block_def)
    with False valid assms(2,4) free parent_free_level_cases [of "h ! heap_left i" "h ! heap_right i" ml]
    show ?thesis by auto
  qed
  then show "heap_wf ml h' d (heap_left i)" "heap_wf ml h' d (heap_right i)"
    "free_pages ml h (Suc d) i = free_pages ml h' d (heap_left i) \<union> free_pages ml h' d (heap_right i)"
    "allocated ml h (Suc d) i = allocated ml h' d (heap_left i) \<union> allocated ml h' d (heap_right i)"
    "min (h' ! heap_left i) (h' ! heap_right i) \<le> a" by blast+
qed

text \<open>
  \<open>takes_block ml a d i h r\<close>: searching below block \<open>i\<close> of heap \<open>h\<close> finds a block of level \<open>a\<close>;
  marking it and propagating as far as \<open>i\<close> gives a well-formed heap that lost exactly its pages.
\<close>

definition takes_block :: "nat \<Rightarrow> nat \<Rightarrow> nat \<Rightarrow> nat \<Rightarrow> nat list \<Rightarrow> (nat list \<times> nat) option \<Rightarrow> bool" where
  "takes_block ml a d i h r \<longleftrightarrow> (\<exists>h1 j h3. r = Some (h1, j) \<and> length h1 = length h \<and> j < length h
    \<and> propagate ml (h1[j := BUDDY_LEVEL_ALLOCATED]) j = propagate ml h3 i \<and> length h3 = length h
    \<and> heap_wf ml h3 d i \<and> h3 ! i \<noteq> ml - d \<and> (\<forall>q. q \<notin> subtree d i \<longrightarrow> h3 ! q = h ! q)
    \<and> heap_level j = a \<and> block_pages (first_page ml j, ml - a) \<subseteq> free_pages ml h d i
    \<and> free_pages ml h3 d i = free_pages ml h d i - block_pages (first_page ml j, ml - a)
    \<and> allocated ml h3 d i = insert (first_page ml j, ml - a) (allocated ml h d i))"

lemma takes_blockI:
  assumes "r = Some (h1, j)" "length h1 = length h" "j < length h"
    "propagate ml (h1[j := BUDDY_LEVEL_ALLOCATED]) j = propagate ml h3 i" "length h3 = length h"
    "heap_wf ml h3 d i" "h3 ! i \<noteq> ml - d" "\<And>q. q \<notin> subtree d i \<Longrightarrow> h3 ! q = h ! q" "heap_level j = a"
    "block_pages (first_page ml j, ml - a) \<subseteq> free_pages ml h d i"
    "free_pages ml h3 d i = free_pages ml h d i - block_pages (first_page ml j, ml - a)"
    "allocated ml h3 d i = insert (first_page ml j, ml - a) (allocated ml h d i)"
  shows "takes_block ml a d i h r"
  using assms unfolding takes_block_def by blast

lemma free_pages_children_disjoint:
  assumes "heap_level i + Suc d = ml" "ml \<le> 252"
  shows "free_pages ml h d (heap_left i) \<inter> free_pages ml h' d (heap_right i) = {}"
proof -
  have "first_page ml (heap_left i) = first_page ml i" "first_page ml (heap_right i) = first_page ml i + 2 ^ d"
    using assms first_page_left [of i ml] first_page_right [of i ml] by auto
  then show ?thesis
    using free_pages_range [of "heap_left i" d ml h] free_pages_range [of "heap_right i" d ml h'] assms
    by fastforce
qed

lemma takes_block_here:
  assumes "heap_wf ml h d i" "heap_level i + d = ml" "ml \<le> 252" "length h = heap_size ml"
    "h ! i = ml - d" "a = ml - d"
  shows "takes_block ml a d i h (acquire_loop h a i (ml - d))"
proof -
  let ?h3 = "h[i := BUDDY_LEVEL_ALLOCATED]"
  have i: "i < length h" using assms heap_index_bound [of i ml] by auto
  have r: "acquire_loop h a i (ml - d) = Some (h, i)"
    using assms i by (subst acquire_loop.simps) simp
  have h3: "heap_wf ml ?h3 d i" "free_pages ml ?h3 d i = {}" "allocated ml ?h3 d i = {(first_page ml i, d)}"
    "?h3 ! i \<noteq> ml - d"
    using i assms(3) by (cases d; simp add: buddy_level_defs)+
  have h: "free_pages ml h d i = block_pages (first_page ml i, d)" "allocated ml h d i = {}"
    using assms by (cases d; simp add: block_pages_def buddy_level_defs)+
  have a: "heap_level i = a" "ml - a = d" using assms by auto
  have "?h3 ! q = h ! q" if "q \<notin> subtree d i" for q using that by (metis nth_list_update_neq subtree_self)
  with i h3 h a show ?thesis by (intro takes_blockI [OF r, where ?h3.0 = ?h3]) auto
qed

lemma takes_block_child:
  fixes h' :: "nat list"
  assumes tb: "takes_block ml a d x h' r" and x: "{x, y} = {heap_left i, heap_right i}"
    and at: "heap_level i + Suc d = ml" "ml \<le> 252" "length h' = heap_size ml" "length h = heap_size ml"
    and y: "heap_wf ml h' d y"
    and fp: "free_pages ml h (Suc d) i = free_pages ml h' d x \<union> free_pages ml h' d y"
    and al: "allocated ml h (Suc d) i = allocated ml h' d x \<union> allocated ml h' d y"
    and same: "\<And>j. j \<notin> subtree (Suc d) i \<Longrightarrow> h' ! j = h ! j"
  shows "takes_block ml a (Suc d) i h r"
proof -
  from tb obtain h1 j h3 where r: "r = Some (h1, j)" "length h1 = length h'" "j < length h'"
    "propagate ml (h1[j := BUDDY_LEVEL_ALLOCATED]) j = propagate ml h3 x" "length h3 = length h'"
    and h3: "heap_wf ml h3 d x" "h3 ! x \<noteq> ml - d" "\<And>q. q \<notin> subtree d x \<Longrightarrow> h3 ! q = h' ! q"
    and j: "heap_level j = a" "block_pages (first_page ml j, ml - a) \<subseteq> free_pages ml h' d x"
    "free_pages ml h3 d x = free_pages ml h' d x - block_pages (first_page ml j, ml - a)"
    "allocated ml h3 d x = insert (first_page ml j, ml - a) (allocated ml h' d x)"
    unfolding takes_block_def by blast
  let ?h4 = "h3[i := parent_free_level ml (h3 ! heap_left i) (h3 ! heap_right i)]"
  have len: "i < length h3" "heap_right i < length h3"
    using at r heap_index_bound [of i ml] heap_index_bound [of "heap_right i" ml] by auto
  have disj: "q \<notin> subtree d x" if "q \<in> subtree d y" for q
    using x that subtree_children_disjoint [of d i] by (auto simp: doubleton_eq_iff)
  have ycong: "heap_wf ml h3 d y" "free_pages ml h3 d y = free_pages ml h' d y"
    "allocated ml h3 d y = allocated ml h' d y"
    using y buddy_cong [of d y h3 h' ml] h3(3) disj by auto
  have kids: "heap_wf ml h3 d (heap_left i)" "heap_wf ml h3 d (heap_right i)"
    "\<not> (h3 ! heap_left i = ml - d \<and> h3 ! heap_right i = ml - d)"
    using x ycong(1) h3(1,2) by (auto simp: doubleton_eq_iff)
  have un: "free_pages ml h3 d (heap_left i) \<union> free_pages ml h3 d (heap_right i)
      = free_pages ml h3 d x \<union> free_pages ml h3 d y"
    "allocated ml h3 d (heap_left i) \<union> allocated ml h3 d (heap_right i)
      = allocated ml h3 d x \<union> allocated ml h3 d y"
    using x by (auto simp: doubleton_eq_iff)
  have rb: "heap_wf ml ?h4 (Suc d) i" "?h4 ! i \<noteq> ml - Suc d"
    "free_pages ml ?h4 (Suc d) i = free_pages ml h3 d x \<union> free_pages ml h3 d y"
    "allocated ml ?h4 (Suc d) i = allocated ml h3 d x \<union> allocated ml h3 d y"
    using node_rebuild [OF at(2) _ len(1) kids] at(1) un by auto
  have fy: "free_pages ml h' d y \<inter> free_pages ml h' d x = {}"
    using x free_pages_children_disjoint [OF at(1,2), of h' h'] by (auto simp: doubleton_eq_iff)
  have "x \<in> {heap_left i, heap_right i}" using x by blast
  then have up: "propagate ml h3 x = propagate ml ?h4 i" using len(2) by (rule propagate_child)
  have same4: "?h4 ! q = h ! q" if "q \<notin> subtree (Suc d) i" for q
    using that x same [OF that] h3(3) [of q] by (auto simp: doubleton_eq_iff)
  have fp4: "free_pages ml ?h4 (Suc d) i =
      free_pages ml h (Suc d) i - block_pages (first_page ml j, ml - a)"
    unfolding rb(3) fp ycong(2) j(3) using j(2) fy by blast
  have al4: "allocated ml ?h4 (Suc d) i = insert (first_page ml j, ml - a) (allocated ml h (Suc d) i)"
    unfolding rb(4) al ycong(3) j(4) by blast
  show ?thesis
    by (rule takes_blockI [OF r(1) _ _ _ _ rb(1,2) same4 j(1) _ fp4 al4])
      (use r at up j(2) fp in auto)
qed

lemma acquire_loop_split:
  assumes "index < length h" "heap_right index < length h" "\<not> (h ! index = level \<and> level = a)"
  shows "acquire_loop h a index level =
    (let h' = split_block h index level;
         c = (if h' ! heap_left index < h' ! heap_right index then
                (if h' ! heap_right index \<le> a then heap_right index else heap_left index)
              else (if h' ! heap_left index \<le> a then heap_left index else heap_right index))
     in acquire_loop h' a c (level + 1))"
  using assms by (subst acquire_loop.simps) (auto simp: split_block_def Let_def)

lemma acquire_loop_ok:
  assumes "heap_wf ml h d i" "heap_level i + d = ml" "ml \<le> 252" "length h = heap_size ml"
    "h ! i \<le> a" "a \<le> ml"
  shows "takes_block ml a d i h (acquire_loop h a i (ml - d))"
  using assms
proof (induction d arbitrary: h i)
  case 0
  then show ?case
    by (intro takes_block_here) (auto simp: buddy_level_defs)
next
  case (Suc d)
  show ?case
  proof (cases "h ! i = ml - Suc d \<and> a = ml - Suc d")
    case True
    then show ?thesis using Suc.prems by (intro takes_block_here) auto
  next
    case False
    let ?h' = "split_block h i (ml - Suc d)"
    have deeper: "h ! i = ml - Suc d \<Longrightarrow> ml - d \<le> a" using False Suc.prems by auto
    note kids = split_block_children [OF Suc.prems(1-6) deeper]
    have len: "i < length h" "heap_right i < length h"
      using Suc.prems heap_index_bound [of i ml] heap_index_bound [of "heap_right i" ml] by auto
    have lvl: "ml - Suc d + 1 = ml - d" using Suc.prems(2) by auto
    define x where "x = (if ?h' ! heap_left i < ?h' ! heap_right i then
        (if ?h' ! heap_right i \<le> a then heap_right i else heap_left i)
      else (if ?h' ! heap_left i \<le> a then heap_left i else heap_right i))"
    define y where "y = heap_sibling x"
    have xy: "{x, y} = {heap_left i, heap_right i}" and xa: "?h' ! x \<le> a"
      using kids(6) by (auto simp: x_def y_def)
    have "acquire_loop h a i (ml - Suc d) = acquire_loop ?h' a x (ml - d)"
      using len False lvl by (subst acquire_loop_split) (auto simp: x_def Let_def)
    moreover have "takes_block ml a d x ?h' (acquire_loop ?h' a x (ml - d))"
      using Suc.prems xy xa kids(1,2,3) by (intro Suc.IH) (auto simp: doubleton_eq_iff)
    ultimately have "takes_block ml a d x ?h' (acquire_loop h a i (ml - Suc d))" by simp
    then show ?thesis
      by (rule takes_block_child [OF _ xy])
        (use Suc.prems xy kids in \<open>auto simp: doubleton_eq_iff\<close>)
  qed
qed

section \<open>A failed allocation means there is no free block\<close>

lemma fully_free:
  assumes "heap_wf ml h d i" "heap_level i + d = ml" "ml \<le> 252"
    "{first_page ml i ..< first_page ml i + 2 ^ d} \<subseteq> free_pages ml h d i"
  shows "h ! i = ml - d"
  using assms
proof (induction d arbitrary: i)
  case (Suc d)
  have fp: "first_page ml (heap_left i) = first_page ml i" "first_page ml (heap_right i) = first_page ml i + 2 ^ d"
    using Suc.prems first_page_left [of i ml] first_page_right [of i ml] by auto
  show ?case
  proof (rule ccontr)
    assume ne: "h ! i \<noteq> ml - Suc d"
    then have nu: "h ! i \<notin> {BUDDY_LEVEL_ALLOCATED, BUDDY_LEVEL_UNUSABLE}"
      using Suc.prems(4) by auto
    then have kids: "heap_wf ml h d (heap_left i)" "heap_wf ml h d (heap_right i)"
      "\<not> (h ! heap_left i = ml - d \<and> h ! heap_right i = ml - d)"
      and un: "free_pages ml h (Suc d) i = free_pages ml h d (heap_left i) \<union> free_pages ml h d (heap_right i)"
      using ne Suc.prems(1) by auto
    define A where "A = {first_page ml i ..< first_page ml i + 2 ^ d}"
    define B where "B = {first_page ml i + 2 ^ d ..< first_page ml i + 2 ^ d + 2 ^ d}"
    have "free_pages ml h d (heap_left i) \<subseteq> A" "free_pages ml h d (heap_right i) \<subseteq> B"
      using free_pages_range [of "heap_left i" d ml h] free_pages_range [of "heap_right i" d ml h]
        Suc.prems fp by (auto simp: A_def B_def)
    moreover have "{first_page ml i ..< first_page ml i + 2 ^ Suc d} = A \<union> B" "A \<inter> B = {}"
      by (auto simp: A_def B_def)
    moreover have "A \<union> B \<subseteq> free_pages ml h d (heap_left i) \<union> free_pages ml h d (heap_right i)"
      using Suc.prems(4) un \<open>_ = A \<union> B\<close> by simp
    ultimately have "A \<subseteq> free_pages ml h d (heap_left i)" "B \<subseteq> free_pages ml h d (heap_right i)"
      by blast+
    then have "h ! heap_left i = ml - d" "h ! heap_right i = ml - d"
      using kids Suc.prems fp Suc.IH [of "heap_left i"] Suc.IH [of "heap_right i"]
      by (auto simp: A_def B_def)
    then show False using kids(3) by blast
  qed
qed (auto split: if_splits)

lemma half_aligned:
  assumes "heap_level i + Suc d = ml" "ml \<le> 252" "k \<le> d"
  shows "\<exists>m. first_page ml i + 2 ^ d = m * 2 ^ k"
proof -
  have "heap_level i < 255" "ml - heap_level i = Suc d" using assms by auto
  then obtain c where "first_page ml i = c * 2 ^ Suc d" using first_page_eq [of i ml] by simp
  moreover have "(2::nat) ^ d = 2 ^ (d - k) * 2 ^ k" using assms(3) by (simp flip: power_add)
  ultimately have "first_page ml i + 2 ^ d = ((2 * c + 1) * 2 ^ (d - k)) * 2 ^ k"
    by (simp add: algebra_simps)
  then show ?thesis by blast
qed

lemma free_block_level:
  assumes "heap_wf ml h d i" "heap_level i + d = ml" "ml \<le> 252" "k \<le> d"
    "first_page ml i \<le> q * 2 ^ k" "q * 2 ^ k + 2 ^ k \<le> first_page ml i + 2 ^ d"
    "block_pages (q * 2 ^ k, k) \<subseteq> free_pages ml h d i"
  shows "h ! i \<le> ml - k"
  using assms
proof (induction d arbitrary: i)
  case 0
  then show ?case by (auto simp: block_pages_def split: if_splits)
next
  case (Suc d)
  have fp: "first_page ml (heap_left i) = first_page ml i" "first_page ml (heap_right i) = first_page ml i + 2 ^ d"
    using Suc.prems first_page_left [of i ml] first_page_right [of i ml] by auto
  show ?case
  proof (cases "h ! i = ml - Suc d")
    case True
    then show ?thesis using Suc.prems(4) by auto
  next
    case False
    have ne: "block_pages (q * 2 ^ k, k) \<noteq> {}" by (simp add: block_pages_def)
    then have kids: "heap_wf ml h d (heap_left i)" "heap_wf ml h d (heap_right i)"
      "h ! i = parent_free_level ml (h ! heap_left i) (h ! heap_right i)"
      and un: "free_pages ml h (Suc d) i = free_pages ml h d (heap_left i) \<union> free_pages ml h d (heap_right i)"
      using False Suc.prems(1,7) by (auto split: if_splits)
    have "k \<noteq> Suc d" using fully_free [OF Suc.prems(1-3)] Suc.prems(5-7) False by (auto simp: block_pages_def)
    then have k: "k \<le> d" using Suc.prems(4) by simp
    from half_aligned [OF Suc.prems(2,3) k] obtain m where m: "first_page ml i + 2 ^ d = m * 2 ^ k" by blast
    have disj: "free_pages ml h d (heap_left i) \<subseteq> {first_page ml i ..< first_page ml i + 2 ^ d}"
      "free_pages ml h d (heap_right i) \<subseteq> {first_page ml i + 2 ^ d ..< first_page ml i + 2 ^ d + 2 ^ d}"
      using free_pages_range [of "heap_left i" d ml h] free_pages_range [of "heap_right i" d ml h]
        Suc.prems fp by auto
    consider "q * 2 ^ k + 2 ^ k \<le> first_page ml i + 2 ^ d" | "first_page ml i + 2 ^ d \<le> q * 2 ^ k"
      using m by (metis add.commute mult_Suc mult_le_mono1 not_less_eq_eq)
    then have "min (h ! heap_left i) (h ! heap_right i) \<le> ml - k"
    proof cases
      case 1
      then have "block_pages (q * 2 ^ k, k) \<subseteq> free_pages ml h d (heap_left i)"
        using Suc.prems(7) un disj(2) by (fastforce simp: block_pages_def)
      then have "h ! heap_left i \<le> ml - k"
        using kids Suc.prems fp 1 k by (intro Suc.IH) auto
      then show ?thesis by simp
    next
      case 2
      then have "block_pages (q * 2 ^ k, k) \<subseteq> free_pages ml h d (heap_right i)"
        using Suc.prems(7) un disj(1) by (fastforce simp: block_pages_def)
      then have "h ! heap_right i \<le> ml - k"
        using kids Suc.prems fp 2 k by (intro Suc.IH) auto
      then show ?thesis by simp
    qed
    then show ?thesis
      using kids(3) parent_free_level_cases [of "h ! heap_left i" "h ! heap_right i" ml] by linarith
  qed
qed

section \<open>Release\<close>

text \<open>
  \<open>gives_back ml d i h j\<close>: marking block \<open>j\<close> below \<open>i\<close> free, coalescing and propagating as far as
  \<open>i\<close> gives a well-formed heap that regained exactly the pages of \<open>j\<close>.  Either the coalescing
  arrives at \<open>i\<close>, whose block is then entirely free, or it has stopped below.
\<close>

definition gives_back :: "nat \<Rightarrow> nat \<Rightarrow> nat \<Rightarrow> nat list \<Rightarrow> nat \<Rightarrow> bool" where
  "gives_back ml d i h j \<longleftrightarrow> (\<exists>h3. length h3 = length h \<and> heap_wf ml h3 d i
    \<and> (\<forall>q. q \<notin> subtree d i \<longrightarrow> h3 ! q = h ! q)
    \<and> free_pages ml h3 d i = free_pages ml h d i \<union> block_pages (first_page ml j, ml - heap_level j)
    \<and> allocated ml h3 d i = allocated ml h d i - {(first_page ml j, ml - heap_level j)}
    \<and> (if h3 ! i = ml - d
       then coalesce_loop (h[j := heap_level j]) j = coalesce_loop h3 i
       else (\<exists>h1 c. coalesce_loop (h[j := heap_level j]) j = Some (h1, c)
               \<and> propagate ml h1 c = propagate ml h3 i)))"

lemma gives_backI:
  assumes "length h3 = length h" "heap_wf ml h3 d i" "\<And>q. q \<notin> subtree d i \<Longrightarrow> h3 ! q = h ! q"
    "free_pages ml h3 d i = free_pages ml h d i \<union> block_pages (first_page ml j, ml - heap_level j)"
    "allocated ml h3 d i = allocated ml h d i - {(first_page ml j, ml - heap_level j)}"
    "h3 ! i = ml - d \<Longrightarrow> coalesce_loop (h[j := heap_level j]) j = coalesce_loop h3 i"
    "h3 ! i \<noteq> ml - d \<Longrightarrow> \<exists>h1 c. coalesce_loop (h[j := heap_level j]) j = Some (h1, c)
       \<and> propagate ml h1 c = propagate ml h3 i"
  shows "gives_back ml d i h j"
  unfolding gives_back_def using assms by (intro exI [of _ h3]) auto

lemma allocated_children_disjoint:
  assumes "heap_level i + Suc d = ml" "ml \<le> 252"
  shows "allocated ml h d (heap_left i) \<inter> allocated ml h' d (heap_right i) = {}"
proof (rule ccontr)
  assume "\<not> ?thesis"
  then obtain b where "b \<in> allocated ml h d (heap_left i)" "b \<in> allocated ml h' d (heap_right i)" by auto
  then have "block_pages b \<subseteq> {first_page ml i ..< first_page ml i + 2 ^ d}" "block_pages b \<noteq> {}"
    "block_pages b \<subseteq> {first_page ml i + 2 ^ d ..< first_page ml i + 2 ^ d + 2 ^ d}"
    using allocated_range [of "heap_left i" d ml b h] allocated_range [of "heap_right i" d ml b h'] assms
      first_page_left [of i ml] first_page_right [of i ml] by auto
  then show False by fastforce
qed

lemma coalesce_loop_child:
  assumes "c \<in> {heap_left i, heap_right i}" "heap_right i < length h"
  shows "coalesce_loop h c =
    (if h ! heap_sibling c = Suc (heap_level i) then coalesce_loop (h[i := heap_level i]) i
     else Some (h, c))"
proof -
  have "heap_left i < length h" using assms(2) by (simp add: heap_left_def heap_right_def)
  then show ?thesis
    using assms by (auto simp: coalesce_loop.simps [of h "heap_left i"]
        coalesce_loop.simps [of h "heap_right i"])
qed

lemma gives_back_here:
  assumes "h ! i = BUDDY_LEVEL_ALLOCATED" "heap_level i + d = ml" "ml \<le> 252" "i < length h"
  shows "gives_back ml d i h i"
proof -
  let ?h3 = "h[i := heap_level i]"
  have lv: "ml - heap_level i = d" "heap_level i = ml - d" using assms by auto
  have "heap_wf ml ?h3 d i" "allocated ml ?h3 d i = {}" "?h3 ! i = ml - d"
    "free_pages ml ?h3 d i = block_pages (first_page ml i, d)"
    using assms(3,4) lv(2) by (cases d; simp add: block_pages_def buddy_level_defs)+
  moreover have "free_pages ml h d i = {}" "allocated ml h d i = {(first_page ml i, d)}"
    using assms(1,3) by (cases d; simp add: buddy_level_defs)+
  moreover have "?h3 ! q = h ! q" if "q \<notin> subtree d i" for q
    using that by (metis nth_list_update_neq subtree_self)
  ultimately show ?thesis using lv by (intro gives_backI [of ?h3]) auto
qed

lemma gives_back_child:
  assumes gb: "gives_back ml d x h j" and x: "{x, y} = {heap_left i, heap_right i}"
    and at: "heap_level i + Suc d = ml" "ml \<le> 252" "length h = heap_size ml"
    and y: "heap_wf ml h d y"
    and fp: "free_pages ml h (Suc d) i = free_pages ml h d x \<union> free_pages ml h d y"
    and al: "allocated ml h (Suc d) i = allocated ml h d x \<union> allocated ml h d y"
    and j: "(first_page ml j, ml - heap_level j) \<in> allocated ml h d x"
  shows "gives_back ml (Suc d) i h j"
proof -
  let ?b = "(first_page ml j, ml - heap_level j)" and ?h0 = "h[j := heap_level j]"
  from gb obtain h3 where h3: "length h3 = length h" "heap_wf ml h3 d x"
    "\<And>q. q \<notin> subtree d x \<Longrightarrow> h3 ! q = h ! q"
    "free_pages ml h3 d x = free_pages ml h d x \<union> block_pages ?b"
    "allocated ml h3 d x = allocated ml h d x - {?b}"
    and up: "if h3 ! x = ml - d then coalesce_loop ?h0 j = coalesce_loop h3 x
      else (\<exists>h1 c. coalesce_loop ?h0 j = Some (h1, c) \<and> propagate ml h1 c = propagate ml h3 x)"
    unfolding gives_back_def by blast
  have len: "i < length h3" "heap_right i < length h3"
    using at h3 heap_index_bound [of i ml] heap_index_bound [of "heap_right i" ml] by auto
  have xin: "x \<in> {heap_left i, heap_right i}" and sib: "heap_sibling x = y"
    using x by (auto simp: doubleton_eq_iff)
  have disj: "q \<notin> subtree d x" if "q \<in> subtree d y" for q
    using x that subtree_children_disjoint [of d i] by (auto simp: doubleton_eq_iff)
  have ycong: "heap_wf ml h3 d y" "free_pages ml h3 d y = free_pages ml h d y"
    "allocated ml h3 d y = allocated ml h d y"
    using y buddy_cong [of d y h3 h ml] h3(3) disj by auto
  have nb: "?b \<notin> allocated ml h d y"
    using j x allocated_children_disjoint [OF at(1,2), of h h] by (auto simp: doubleton_eq_iff)
  have keep: "h3[i := v] ! q = h ! q" if "q \<notin> subtree (Suc d) i" for q v
    using that x h3(3) [of q] by (auto simp: doubleton_eq_iff)
  have lv: "heap_level i = ml - Suc d" "Suc (heap_level i) = ml - d" using at by auto
  show ?thesis
  proof (cases "h3 ! x = ml - d \<and> h3 ! y = ml - d")
    case True
    have full: "free_pages ml h3 d c = {first_page ml c ..< first_page ml c + 2 ^ d}"
      "allocated ml h3 d c = {}" if "h3 ! c = ml - d" for c
      using that at(2) by (cases d; simp add: buddy_level_defs)+
    let ?h4 = "h3[i := heap_level i]"
    have "coalesce_loop ?h0 j = coalesce_loop ?h4 i"
      using True up coalesce_loop_child [OF xin len(2)] sib lv by simp
    moreover have "heap_wf ml ?h4 (Suc d) i" "allocated ml ?h4 (Suc d) i = {}" "?h4 ! i = ml - Suc d"
      "free_pages ml ?h4 (Suc d) i = {first_page ml i ..< first_page ml i + 2 ^ Suc d}"
      using len lv at(2) by (auto simp: buddy_level_defs)
    moreover have "{first_page ml i ..< first_page ml i + 2 ^ Suc d}
        = free_pages ml h3 d x \<union> free_pages ml h3 d y"
      using full(1) True x at first_page_left [of i ml] first_page_right [of i ml]
      by (auto simp: doubleton_eq_iff)
    moreover have "allocated ml h (Suc d) i - {?b} = {}"
      using full(2) True h3(5) ycong(3) al by auto
    ultimately show ?thesis
      using keep h3 ycong fp by (intro gives_backI [of ?h4]) auto
  next
    case False
    let ?h4 = "h3[i := parent_free_level ml (h3 ! heap_left i) (h3 ! heap_right i)]"
    have kids: "heap_wf ml h3 d (heap_left i)" "heap_wf ml h3 d (heap_right i)"
      "\<not> (h3 ! heap_left i = ml - d \<and> h3 ! heap_right i = ml - d)"
      using x ycong(1) h3(2) False by (auto simp: doubleton_eq_iff)
    have rb: "heap_wf ml ?h4 (Suc d) i" "?h4 ! i \<noteq> ml - Suc d"
      "free_pages ml ?h4 (Suc d) i = free_pages ml h3 d x \<union> free_pages ml h3 d y"
      "allocated ml ?h4 (Suc d) i = allocated ml h3 d x \<union> allocated ml h3 d y"
      using node_rebuild [OF at(2) _ len(1) kids] at(1) x by (auto simp: doubleton_eq_iff)
    have "\<exists>h1 c. coalesce_loop ?h0 j = Some (h1, c) \<and> propagate ml h1 c = propagate ml ?h4 i"
      using up False coalesce_loop_child [OF xin len(2)] sib lv propagate_child [OF xin len(2), of ml]
      by (cases "h3 ! x = ml - d") auto
    then show ?thesis
      using keep h3 ycong fp al rb nb by (intro gives_backI [of ?h4]) auto
  qed
qed

definition releases :: "nat \<Rightarrow> nat \<Rightarrow> nat \<Rightarrow> nat list \<Rightarrow> nat \<Rightarrow> (buddy_status + nat) option \<Rightarrow> bool" where
  "releases ml d i h page r \<longleftrightarrow> (case r of
     None \<Rightarrow> False
   | Some (Inl e) \<Rightarrow> e = NO_SUCH_ALLOCATION \<and> (\<forall>b \<in> allocated ml h d i. page \<notin> block_pages b)
   | Some (Inr j) \<Rightarrow> j < length h \<and> (first_page ml j, ml - heap_level j) \<in> allocated ml h d i
       \<and> page \<in> block_pages (first_page ml j, ml - heap_level j) \<and> gives_back ml d i h j)"

lemma get_block_loop_ok:
  assumes "heap_wf ml h d i" "heap_level i + d = ml" "ml \<le> 252" "length h = heap_size ml"
    "first_page ml i \<le> page" "page < first_page ml i + 2 ^ d"
  shows "releases ml d i h page (get_block_loop ml h page i (ml - d))"
  using assms
proof (induction d arbitrary: i)
  case 0
  have i: "i < length h" "heap_level i = ml" using 0 heap_index_bound [of i ml] by auto
  have "gives_back ml 0 i h i" if "h ! i = BUDDY_LEVEL_ALLOCATED"
    using that 0 i by (intro gives_back_here) auto
  with 0 i show ?case
    by (subst get_block_loop.simps) (auto simp: releases_def block_pages_def buddy_level_defs)
next
  case (Suc d)
  have i: "i < length h" using Suc.prems heap_index_bound [of i ml] by auto
  show ?case
  proof (cases "h ! i \<in> {ml - Suc d, BUDDY_LEVEL_ALLOCATED, BUDDY_LEVEL_UNUSABLE}")
    case True
    have "gives_back ml (Suc d) i h i" if "h ! i = BUDDY_LEVEL_ALLOCATED"
      using that Suc.prems i by (intro gives_back_here) auto
    moreover have "ml - heap_level i = Suc d" using Suc.prems by auto
    ultimately show ?thesis
      using True Suc.prems i
      by (subst get_block_loop.simps) (auto simp: releases_def block_pages_def buddy_level_defs)
  next
    case False
    then have kids: "heap_wf ml h d (heap_left i)" "heap_wf ml h d (heap_right i)"
      and fp: "free_pages ml h (Suc d) i = free_pages ml h d (heap_left i) \<union> free_pages ml h d (heap_right i)"
      and al: "allocated ml h (Suc d) i = allocated ml h d (heap_left i) \<union> allocated ml h d (heap_right i)"
      using Suc.prems(1) by auto
    have pg: "first_page ml (heap_left i) = first_page ml i" "first_page ml (heap_right i) = first_page ml i + 2 ^ d"
      using Suc.prems first_page_left [of i ml] first_page_right [of i ml] by auto
    define x where "x = (if first_page ml (heap_right i) \<le> page then heap_right i else heap_left i)"
    define y where "y = heap_sibling x"
    have xy: "{x, y} = {heap_left i, heap_right i}" by (auto simp: x_def y_def)
    have lv: "ml - Suc d + 1 = ml - d" "heap_level (heap_right i) \<le> ml" using Suc.prems by auto
    have eq: "get_block_loop ml h page i (ml - Suc d) = get_block_loop ml h page x (ml - d)"
      using False i lv by (subst get_block_loop.simps) (auto simp: x_def)
    have rec: "releases ml d x h page (get_block_loop ml h page x (ml - d))"
      using Suc.prems kids pg by (intro Suc.IH) (auto simp: x_def)
    have "page \<notin> block_pages b" if "b \<in> allocated ml h d y" for b
      using that allocated_range [of y d ml b h] pg Suc.prems(2,3,5,6)
      by (fastforce simp: x_def y_def split: if_splits)
    moreover have al': "allocated ml h (Suc d) i = allocated ml h d x \<union> allocated ml h d y"
      and fp': "free_pages ml h (Suc d) i = free_pages ml h d x \<union> free_pages ml h d y"
      and wy: "heap_wf ml h d y"
      using al fp kids xy by (auto simp: doubleton_eq_iff)
    moreover have "gives_back ml (Suc d) i h j" if "gives_back ml d x h j"
      "(first_page ml j, ml - heap_level j) \<in> allocated ml h d x" for j
      using gives_back_child [OF that(1) xy Suc.prems(2-4) wy fp' al' that(2)] .
    ultimately show ?thesis
      using rec unfolding eq releases_def by (auto split: option.splits sum.splits)
  qed
qed

section \<open>The allocator as a whole\<close>

text \<open>At most 64 levels: the page numbers are 64-bit.\<close>

definition buddy_ok :: "buddy \<Rightarrow> bool" where
  "buddy_ok ba \<longleftrightarrow> ready ba \<and> max_level ba \<le> 63 \<and> length (heap ba) = heap_size (max_level ba)
    \<and> heap_wf (max_level ba) (heap ba) (max_level ba) 0"

definition free_of :: "buddy \<Rightarrow> nat set" where
  "free_of ba = free_pages (max_level ba) (heap ba) (max_level ba) 0"

definition blocks_of :: "buddy \<Rightarrow> (nat \<times> nat) set" where
  "blocks_of ba = allocated (max_level ba) (heap ba) (max_level ba) 0"

lemma first_page_root [simp]: "first_page ml 0 = 0"
  by (simp add: first_page_eq)

lemma popcount_0_iff: "popcount n = 0 \<longleftrightarrow> n = 0"
proof (induction n rule: popcount.induct)
  case (1 n)
  have "n mod 2 = 0 \<and> n div 2 = 0 \<longleftrightarrow> n = 0" by presburger
  with 1 show ?case by (subst popcount.simps) auto
qed

lemma popcount_1_iff: "0 < n \<Longrightarrow> popcount n = 1 \<longleftrightarrow> n = 2 ^ uint64_log2 n"
proof (induction n rule: popcount.induct)
  case (1 n)
  show ?case
  proof (cases "n < 2")
    case True
    then have "n = 1" using 1 by auto
    then show ?thesis by (simp add: popcount.simps uint64_log2.simps)
  next
    case False
    have n: "n = 2 * (n div 2) + n mod 2" by simp
    have "popcount n = n mod 2 + popcount (n div 2)" using False by (subst popcount.simps) auto
    moreover have "uint64_log2 n = Suc (uint64_log2 (n div 2))"
      using False by (subst uint64_log2.simps) auto
    moreover have "popcount (n div 2) = 1 \<longleftrightarrow> n div 2 = 2 ^ uint64_log2 (n div 2)"
      using 1 False by auto
    moreover have "popcount (n div 2) \<noteq> 0" using False by (simp add: popcount_0_iff)
    ultimately show ?thesis using n
      by (cases "n mod 2 = 0") (auto, presburger+)
  qed
qed

lemma ceil_log2_bounds:
  assumes "0 < n"
  shows "n \<le> 2 ^ uint64_ceil_log2 n" "2 ^ uint64_ceil_log2 n < 2 * n"
  using uint64_log2_bounds [OF assms] popcount_1_iff [OF assms]
  by (auto simp: uint64_ceil_log2_def uint64_is_power_of_2_def)

lemma ceil_log2_le: "0 < n \<Longrightarrow> n \<le> 2 ^ m \<Longrightarrow> uint64_ceil_log2 n \<le> m"
proof -
  assume n: "0 < n" "n \<le> 2 ^ m"
  then have "(2::nat) ^ uint64_ceil_log2 n < 2 ^ Suc m" using ceil_log2_bounds(2) [of n] by auto
  then show ?thesis using power_less_imp_less_exp [of "2::nat" "uint64_ceil_log2 n" "Suc m"] by simp
qed

text \<open>Allocated blocks do not overlap each other or the free pages.\<close>

lemma free_allocated_disjoint:
  assumes "heap_level i + d = ml" "ml \<le> 252" "b \<in> allocated ml h d i"
  shows "block_pages b \<inter> free_pages ml h d i = {}"
  using assms
proof (induction d arbitrary: i)
  case (Suc d)
  have pg: "first_page ml (heap_left i) = first_page ml i" "first_page ml (heap_right i) = first_page ml i + 2 ^ d"
    using Suc.prems first_page_left [of i ml] first_page_right [of i ml] by auto
  show ?case
  proof (cases "h ! i \<in> {ml - Suc d, BUDDY_LEVEL_ALLOCATED, BUDDY_LEVEL_UNUSABLE}")
    case True
    then show ?thesis using Suc.prems by (auto split: if_splits simp: buddy_level_defs)
  next
    case False
    then obtain x where x: "b \<in> allocated ml h d x" "x \<in> {heap_left i, heap_right i}"
      using Suc.prems(3) by auto
    then have "block_pages b \<inter> free_pages ml h d x = {}"
      using Suc.prems by (intro Suc.IH) auto
    moreover have "block_pages b \<inter> free_pages ml h d (heap_sibling x) = {}"
      using x pg allocated_range [of x d ml b h] free_pages_range [of "heap_sibling x" d ml h] Suc.prems(1,2)
      by fastforce
    ultimately show ?thesis using False x(2) by auto
  qed
qed (auto split: if_splits simp: buddy_level_defs)

lemma allocated_disjoint:
  assumes "heap_level i + d = ml" "ml \<le> 252" "b \<in> allocated ml h d i" "b' \<in> allocated ml h d i" "b \<noteq> b'"
  shows "block_pages b \<inter> block_pages b' = {}"
  using assms
proof (induction d arbitrary: i)
  case (Suc d)
  have pg: "first_page ml (heap_left i) = first_page ml i" "first_page ml (heap_right i) = first_page ml i + 2 ^ d"
    using Suc.prems first_page_left [of i ml] first_page_right [of i ml] by auto
  have un: "allocated ml h (Suc d) i = allocated ml h d (heap_left i) \<union> allocated ml h d (heap_right i)"
    using Suc.prems(3-5) by (auto split: if_splits)
  have rng: "block_pages c \<subseteq> {first_page ml i ..< first_page ml i + 2 ^ d}"
    if "c \<in> allocated ml h d (heap_left i)" for c
    using that allocated_range [of "heap_left i" d ml c h] Suc.prems pg by auto
  have rng': "block_pages c \<subseteq> {first_page ml i + 2 ^ d ..< first_page ml i + 2 ^ d + 2 ^ d}"
    if "c \<in> allocated ml h d (heap_right i)" for c
    using that allocated_range [of "heap_right i" d ml c h] Suc.prems pg by auto
  have cross: "block_pages c \<inter> block_pages c' = {}"
    if "c \<in> allocated ml h d (heap_left i)" "c' \<in> allocated ml h d (heap_right i)" for c c'
    using rng [OF that(1)] rng' [OF that(2)] by fastforce
  have IH: "block_pages b \<inter> block_pages b' = {}"
    if "x \<in> {heap_left i, heap_right i}" "b \<in> allocated ml h d x" "b' \<in> allocated ml h d x" for x
    using that Suc.prems by (intro Suc.IH [of x]) auto
  consider (ll) "b \<in> allocated ml h d (heap_left i)" "b' \<in> allocated ml h d (heap_left i)"
    | (rr) "b \<in> allocated ml h d (heap_right i)" "b' \<in> allocated ml h d (heap_right i)"
    | (lr) "b \<in> allocated ml h d (heap_left i)" "b' \<in> allocated ml h d (heap_right i)"
    | (rl) "b \<in> allocated ml h d (heap_right i)" "b' \<in> allocated ml h d (heap_left i)"
    using Suc.prems(3,4) un by auto
  then show ?case
  proof cases
    case ll then show ?thesis by (intro IH [of "heap_left i"]) auto
  next
    case rr then show ?thesis by (intro IH [of "heap_right i"]) auto
  next
    case lr then show ?thesis by (rule cross)
  next
    case rl then show ?thesis using cross by blast
  qed
qed (auto split: if_splits)

end
