(* ===== verification/Buddy_Init.thy ===== *)
theory Buddy_Init
  imports Buddy_Correct
begin

text \<open>
  Initialisation of the buddy allocator (\<open>buddy_init\<close>, \<open>buddy_mark_unusable\<close>, \<open>buddy_ready\<close>) and the
  properties of the allocator as its clients see them.
\<close>

section \<open>Initialisation\<close>

lemma length_ready_loop [simp]: "length (ready_loop h n) = length h"
  by (induction h n rule: ready_loop.induct) auto

lemma ready_loop_above: "n \<le> i \<Longrightarrow> ready_loop h n ! i = h ! i"
  by (induction h n rule: ready_loop.induct) auto

lemma ready_value_cong:
  "h ! heap_left i = h' ! heap_left i \<Longrightarrow> h ! heap_right i = h' ! heap_right i \<Longrightarrow>
   ready_value h i = ready_value h' i"
  by (simp add: ready_value_def)

text \<open>After the loop every block above the bottom level carries the value of its children.\<close>

lemma ready_loop_value: "i < n \<Longrightarrow> n \<le> length h \<Longrightarrow> ready_loop h n ! i = ready_value (ready_loop h n) i"
proof (induction h n rule: ready_loop.induct)
  case (2 h bi)
  show ?case
  proof (cases "i = bi")
    case True
    let ?h = "h[bi := ready_value h bi]"
    have "ready_loop ?h bi ! c = h ! c" if "c \<in> {heap_left bi, heap_right bi}" for c
      using that ready_loop_above [of bi c ?h] by (auto simp: heap_left_def heap_right_def)
    then have "ready_value (ready_loop ?h bi) bi = ready_value h bi"
      by (intro ready_value_cong) auto
    moreover have "ready_loop ?h bi ! bi = ready_value h bi"
      using 2(3) ready_loop_above [of bi bi ?h] by simp
    ultimately show ?thesis using True by simp
  next
    case False
    then show ?thesis using 2 by auto
  qed
qed simp

text \<open>The bottom level decides: the junk above it is overwritten before it is read.\<close>

lemma ready_loop_bottom:
  assumes "length h = length h'" "\<And>i. n \<le> i \<Longrightarrow> h ! i = h' ! i" "n \<le> length h"
  shows "ready_loop h n = ready_loop h' n"
  using assms
proof (induction h n arbitrary: h' rule: ready_loop.induct)
  case (1 h)
  then show ?case by (auto intro: nth_equalityI)
next
  case (2 h bi)
  have "ready_value h bi = ready_value h' bi"
    using 2(3) by (intro ready_value_cong) (auto simp: heap_left_def heap_right_def)
  moreover have "h[bi := v] ! i = h'[bi := v] ! i" if "bi \<le> i" for i v
    using that 2(2-4) by (cases "i = bi") auto
  ultimately show ?case using 2 by auto
qed

text \<open>The pages below a block whose bottom-level byte says they are usable.\<close>

definition usable :: "nat \<Rightarrow> nat list \<Rightarrow> nat \<Rightarrow> nat \<Rightarrow> nat set" where
  "usable ml h d i =
     {p \<in> {first_page ml i ..< first_page ml i + 2 ^ d}. h ! (2 ^ ml - 1 + p) = ml}"

lemma usable_Suc:
  assumes "heap_level i + Suc d = ml" "ml \<le> 252"
  shows "usable ml h (Suc d) i = usable ml h d (heap_left i) \<union> usable ml h d (heap_right i)"
proof -
  have "first_page ml (heap_left i) = first_page ml i" "first_page ml (heap_right i) = first_page ml i + 2 ^ d"
    using assms first_page_left [of i ml] first_page_right [of i ml] by auto
  then show ?thesis by (auto simp: usable_def)
qed

lemma free_pages_leaf:
  assumes "ml \<le> 252"
  shows "h ! i = ml - d \<Longrightarrow> free_pages ml h d i = {first_page ml i ..< first_page ml i + 2 ^ d}"
    and "h ! i = BUDDY_LEVEL_UNUSABLE \<Longrightarrow> free_pages ml h d i = {}"
  using assms by (cases d; simp add: buddy_level_defs)+

lemma heap_wf_ready:
  assumes "heap_level i + d = ml" "ml \<le> 252"
    and inner: "\<And>q. heap_level q < ml \<Longrightarrow> h ! q = ready_value h q"
    and bottom: "\<And>q. heap_level q = ml \<Longrightarrow> h ! q \<in> {ml, BUDDY_LEVEL_UNUSABLE}"
  shows "heap_wf ml h d i \<and> allocated ml h d i = {} \<and> (h ! i = BUDDY_LEVEL_UNUSABLE \<or> h ! i \<le> ml)
    \<and> free_pages ml h d i = usable ml h d i"
  using assms(1)
proof (induction d arbitrary: i)
  case 0
  then have "2 ^ ml - 1 + first_page ml i = i"
    using heap_level_bounds(1) [of i] assms(2) by (simp add: first_page_eq)
  then have "usable ml h 0 i = (if h ! i = ml then {first_page ml i} else {})"
    by (auto simp: usable_def less_Suc_eq_le)
  with 0 bottom [of i] assms(2) show ?case by (auto simp: buddy_level_defs)
next
  case (Suc d)
  let ?l = "heap_left i" and ?r = "heap_right i"
  have un: "usable ml h (Suc d) i = usable ml h d ?l \<union> usable ml h d ?r"
    using Suc.prems assms(2) by (rule usable_Suc)
  have l: "heap_wf ml h d ?l" "allocated ml h d ?l = {}" "h ! ?l = BUDDY_LEVEL_UNUSABLE \<or> h ! ?l \<le> ml"
    "free_pages ml h d ?l = usable ml h d ?l" using Suc.IH [of ?l] Suc.prems by simp_all
  have r: "heap_wf ml h d ?r" "allocated ml h d ?r = {}" "h ! ?r = BUDDY_LEVEL_UNUSABLE \<or> h ! ?r \<le> ml"
    "free_pages ml h d ?r = usable ml h d ?r" using Suc.IH [of ?r] Suc.prems by simp_all
  have lv: "Suc (heap_level i) = ml - d" "heap_level i = ml - Suc d" using Suc.prems by auto
  have v: "h ! i = ready_value h i" using inner [of i] Suc.prems by simp
  consider (unus) "h ! ?l = BUDDY_LEVEL_UNUSABLE" "h ! ?r = BUDDY_LEVEL_UNUSABLE"
    | (free) "h ! ?l = ml - d" "h ! ?r = ml - d"
    | (mixed) "\<not> (h ! ?l = BUDDY_LEVEL_UNUSABLE \<and> h ! ?r = BUDDY_LEVEL_UNUSABLE)"
        "\<not> (h ! ?l = ml - d \<and> h ! ?r = ml - d)" by blast
  then show ?case
  proof cases
    case unus
    then have "h ! i = BUDDY_LEVEL_UNUSABLE" using v by (simp add: ready_value_def Let_def)
    moreover have "usable ml h (Suc d) i = {}"
      using un l(4) r(4) unus free_pages_leaf(2) [OF assms(2)] by simp
    ultimately show ?thesis using assms(2) by (simp add: buddy_level_defs)
  next
    case free
    then have hi: "h ! i = ml - Suc d"
      using v lv assms(2) by (auto simp: ready_value_def Let_def buddy_level_defs)
    have "first_page ml ?l = first_page ml i" "first_page ml ?r = first_page ml i + 2 ^ d"
      using Suc.prems assms(2) first_page_left [of i ml] first_page_right [of i ml] by auto
    then have "usable ml h d ?l = {first_page ml i ..< first_page ml i + 2 ^ d}"
      "usable ml h d ?r = {first_page ml i + 2 ^ d ..< first_page ml i + 2 ^ d + 2 ^ d}"
      using l(4) r(4) free_pages_leaf(1) [OF assms(2)] free by simp_all
    then have "usable ml h (Suc d) i = {first_page ml i ..< first_page ml i + 2 ^ Suc d}"
      unfolding un by auto
    then show ?thesis using hi assms(2) by (simp add: buddy_level_defs)
  next
    case mixed
    have m: "min (h ! ?l) (h ! ?r) \<le> ml"
      using mixed(1) l(3) r(3) assms(2) by (auto simp: buddy_level_defs)
    have "h ! i = min (h ! ?l) (h ! ?r)" using v mixed lv by (auto simp: ready_value_def Let_def)
    then have hi: "h ! i = parent_free_level ml (h ! ?l) (h ! ?r)" "h ! i \<le> ml"
      using m by (auto simp: parent_free_level_def)
    have "ml - d \<le> min (h ! ?l) (h ! ?r)"
      using heap_wf_level_le [OF l(1) assms(2)] heap_wf_level_le [OF r(1) assms(2)] by simp
    then have "h ! i \<notin> {ml - Suc d, BUDDY_LEVEL_ALLOCATED, BUDDY_LEVEL_UNUSABLE}"
      using hi \<open>h ! i = min _ _\<close> lv assms(2) by (auto simp: buddy_level_defs)
    then show ?thesis using hi mixed l r un by simp
  qed
qed

lemma bottom_offset: "ml < 255 \<Longrightarrow> (if ml > 0 then heap_size (ml - 1) else 0) = 2 ^ ml - 1"
  by (cases ml) (auto simp: heap_size_eq)

lemma buddy_init_heap:
  assumes n: "0 < n" "n \<le> 2 ^ 63" and junk: "length junk = heap_size (uint64_ceil_log2 n)"
  defines "ml \<equiv> uint64_ceil_log2 n"
  shows "max_level (buddy_init junk n ps off) = ml" "ml \<le> 63" "n \<le> 2 ^ ml"
    "length (heap (buddy_init junk n ps off)) = heap_size ml"
    "p < 2 ^ ml \<Longrightarrow> heap (buddy_init junk n ps off) ! (2 ^ ml - 1 + p) =
       (if p < n then ml else BUDDY_LEVEL_UNUSABLE)"
proof -
  show ml: "ml \<le> 63" using ceil_log2_le n unfolding ml_def by blast
  show n': "n \<le> 2 ^ ml" using ceil_log2_bounds(1) n unfolding ml_def by blast
  show "max_level (buddy_init junk n ps off) = ml" by (simp add: buddy_init_def ml_def Let_def)
  have off: "(if 0 < ml then heap_size (ml - 1) else 0) = 2 ^ ml - 1"
    using bottom_offset ml by simp
  have size: "heap_size ml = 2 ^ ml - 1 + 2 ^ ml" using ml by (simp add: heap_size_eq)
  have hp: "heap (buddy_init junk n ps off) = take (2 ^ ml - 1) junk @ replicate n ml
      @ replicate (2 ^ ml - n) BUDDY_LEVEL_UNUSABLE"
    using n' size off unfolding buddy_init_def ml_def [symmetric] Let_def by simp
  have len: "length (take (2 ^ ml - 1) junk) = 2 ^ ml - 1" using junk size by (simp add: ml_def)
  show "length (heap (buddy_init junk n ps off)) = heap_size ml"
    using n' size len unfolding hp by simp
  show "heap (buddy_init junk n ps off) ! (2 ^ ml - 1 + p) = (if p < n then ml else BUDDY_LEVEL_UNUSABLE)"
    if "p < 2 ^ ml"
  proof -
    let ?ys = "replicate n ml @ replicate (2 ^ ml - n) BUDDY_LEVEL_UNUSABLE"
    have "heap (buddy_init junk n ps off) ! (2 ^ ml - 1 + p) = ?ys ! p"
      using nth_append_length_plus [of "take (2 ^ ml - 1) junk" ?ys p] unfolding hp len .
    also have "\<dots> = (if p < n then ml else BUDDY_LEVEL_UNUSABLE)"
      using that by (auto simp: nth_append)
    finally show ?thesis .
  qed
qed

lemma heap_level_less_iff: "heap_level q < ml \<longleftrightarrow> q < 2 ^ ml - 1"
proof -
  have "heap_level q < ml \<longleftrightarrow> q + 1 < 2 ^ ml"
  proof
    assume "heap_level q < ml"
    then have "(2::nat) ^ Suc (heap_level q) \<le> 2 ^ ml" by (intro power_increasing) auto
    with heap_level_bounds(2) [of q] show "q + 1 < 2 ^ ml" by (rule less_le_trans)
  next
    assume "q + 1 < 2 ^ ml"
    with heap_level_bounds(1) [of q] have "(2::nat) ^ heap_level q < 2 ^ ml" by linarith
    then show "heap_level q < ml" by simp
  qed
  then show ?thesis by auto
qed

text \<open>\<open>buddy_ready\<close> on any heap whose bottom level holds only free and unusable pages.\<close>

lemma buddy_ready_ok:
  assumes "max_level ba \<le> 63" "length (heap ba) = heap_size (max_level ba)"
    and bottom: "\<And>p. p < 2 ^ max_level ba \<Longrightarrow>
      heap ba ! (2 ^ max_level ba - 1 + p) \<in> {max_level ba, BUDDY_LEVEL_UNUSABLE}"
  shows "buddy_ok (buddy_ready ba)" "blocks_of (buddy_ready ba) = {}"
    "free_of (buddy_ready ba) = {p. p < 2 ^ max_level ba \<and> heap ba ! (2 ^ max_level ba - 1 + p) = max_level ba}"
proof -
  let ?ml = "max_level ba" and ?n = "2 ^ max_level ba - 1 :: nat"
  let ?h = "ready_loop (heap ba) ?n"
  have off: "(if 0 < ?ml then heap_size (?ml - 1) else 0) = ?n" using bottom_offset assms(1) by simp
  have h: "heap (buddy_ready ba) = ?h" "max_level (buddy_ready ba) = ?ml" "ready (buddy_ready ba)"
    using off by (auto simp: buddy_ready_def split: if_splits)
  have le: "?n \<le> length (heap ba)" using assms by (simp add: heap_size_eq)
  have same: "?h ! (?n + p) = heap ba ! (?n + p)" for p by (simp add: ready_loop_above)
  have inner: "?h ! q = ready_value ?h q" if "heap_level q < ?ml" for q
    using that le by (intro ready_loop_value) (auto simp: heap_level_less_iff)
  have bot: "?h ! q \<in> {?ml, BUDDY_LEVEL_UNUSABLE}" if "heap_level q = ?ml" for q
  proof -
    have "?n \<le> q" "q < heap_size ?ml"
      using that heap_level_less_iff [of q ?ml] heap_index_bound [of q ?ml] assms(1) by auto
    then have "q = ?n + (q - ?n)" "q - ?n < 2 ^ ?ml" using assms(1) by (auto simp: heap_size_eq)
    then show ?thesis using same [of "q - ?n"] bottom [of "q - ?n"] by simp
  qed
  have w: "heap_wf ?ml ?h ?ml 0" "allocated ?ml ?h ?ml 0 = {}" "free_pages ?ml ?h ?ml 0 = usable ?ml ?h ?ml 0"
    using heap_wf_ready [of 0 ?ml ?ml ?h] inner bot assms(1) by auto
  show "buddy_ok (buddy_ready ba)" using w(1) h assms by (simp add: buddy_ok_def)
  show "blocks_of (buddy_ready ba) = {}" using w(2) h by (simp add: blocks_of_def)
  show "free_of (buddy_ready ba) = {p. p < 2 ^ ?ml \<and> heap ba ! (?n + p) = ?ml}"
    using w(3) h same by (auto simp: free_of_def usable_def)
qed

lemma mark_loop_length: "mark_loop h is = Some h' \<Longrightarrow> length h' = length h"
  by (induction h "is" rule: mark_loop.induct) (auto split: if_splits)

lemma mark_loop_nth:
  "mark_loop h is = Some h' \<Longrightarrow> h' ! q = (if q \<in> set is then BUDDY_LEVEL_UNUSABLE else h ! q)"
proof (induction h "is" rule: mark_loop.induct)
  case (2 h i "is")
  then have lt: "i < length h" by (auto split: if_splits)
  with 2 show ?case by (cases "q = i") auto
qed simp

lemma mark_loop_Some: "\<forall>i \<in> set is. i < length h \<Longrightarrow> \<exists>h'. mark_loop h is = Some h'"
  by (induction h "is" rule: mark_loop.induct) auto

text \<open>
  C21: \<open>buddy_init\<close> followed by \<open>buddy_ready\<close> gives a well-formed allocator whose free pages are
  exactly the first \<open>n\<close> and which has no allocated block, whatever the storage held before.
\<close>

theorem init_ready_correct:
  assumes "0 < n" "n \<le> 2 ^ 63" "length junk = heap_size (uint64_ceil_log2 n)"
  shows "buddy_ok (buddy_ready (buddy_init junk n ps off))
    \<and> free_of (buddy_ready (buddy_init junk n ps off)) = {0 ..< n}
    \<and> blocks_of (buddy_ready (buddy_init junk n ps off)) = {}"
proof -
  let ?b = "buddy_init junk n ps off"
  note i = buddy_init_heap [OF assms]
  have ml: "max_level ?b = uint64_ceil_log2 n" "length (heap ?b) = heap_size (max_level ?b)"
    by (simp_all add: i(1,4))
  have cell: "heap ?b ! (2 ^ max_level ?b - 1 + p) =
      (if p < n then max_level ?b else BUDDY_LEVEL_UNUSABLE)" if "p < 2 ^ max_level ?b" for p
    using that i(5) [of p ps off] by (simp add: ml(1))
  have "max_level ?b \<le> 63" "max_level ?b \<noteq> BUDDY_LEVEL_UNUSABLE" "n \<le> 2 ^ max_level ?b"
    using i(2,3) by (auto simp: ml(1) buddy_level_defs)
  then show ?thesis
    using buddy_ready_ok [of ?b, OF _ ml(2)] cell by (auto split: if_splits)
qed

theorem init_ready_correct_witness:
  "free_of (buddy_ready (buddy_init [7, 7, 7, 7, 7, 7, 7] 3 4096 0)) = {0 ..< 3}"
proof -
  have "uint64_ceil_log2 3 = 2"
    by (simp add: uint64_ceil_log2_def uint64_is_power_of_2_def popcount.simps uint64_log2.simps)
  then show ?thesis
    using init_ready_correct [of 3 "[7, 7, 7, 7, 7, 7, 7]" 4096 0] by (simp add: heap_size_def)
qed

text \<open>
  C29: on a heap of four or more pages, \<open>buddy_mark_unusable\<close> applied to pages below
  \<open>2 ^ (max_level - 1) - 1\<close> has no effect at all: it writes blocks above the bottom level, which
  \<open>buddy_ready\<close> overwrites, so the marked pages are still handed out.
\<close>

theorem mark_unusable_lost:
  assumes "max_level ba \<le> 63" "length (heap ba) = heap_size (max_level ba)"
    "hi + 2 ^ (max_level ba - 1) < 2 ^ max_level ba - 1"
  shows "\<exists>ba'. buddy_mark_unusable ba lo hi = Some ba' \<and> buddy_ready ba' = buddy_ready ba"
proof -
  let ?ml = "max_level ba" and ?n = "2 ^ max_level ba - 1 :: nat"
  let ?is = "map (\<lambda>i. i + 2 ^ (?ml - 1)) [lo ..< hi + 1]"
  have pos: "0 < ?ml" using assms(3) by (cases ?ml) auto
  have le: "?n \<le> length (heap ba)" using assms by (simp add: heap_size_eq)
  have small: "\<forall>i \<in> set ?is. i < ?n" using assms(3) by auto
  then have "\<forall>i \<in> set ?is. i < length (heap ba)" using le by fastforce
  then obtain h where h: "mark_loop (heap ba) ?is = Some h" using mark_loop_Some by blast
  have off: "heap_size (?ml - 1) = ?n" using bottom_offset [of ?ml] assms(1) pos by simp
  have "h ! i = heap ba ! i" if "?n \<le> i" for i
    using mark_loop_nth [OF h, of i] small that by force
  then have "ready_loop h ?n = ready_loop (heap ba) ?n"
    using le mark_loop_length [OF h] by (intro ready_loop_bottom) auto
  with h off pos show ?thesis by (simp add: buddy_mark_unusable_def buddy_ready_def)
qed

theorem mark_unusable_lost_witness:
  "\<exists>ba'. buddy_mark_unusable (buddy_init [0, 0, 0, 0, 0, 0, 0] 4 4096 0) 0 0 = Some ba'
    \<and> buddy_ready ba' = buddy_ready (buddy_init [0, 0, 0, 0, 0, 0, 0] 4 4096 0)"
proof -
  have "uint64_ceil_log2 4 = 2"
    by (simp add: uint64_ceil_log2_def uint64_is_power_of_2_def popcount.simps uint64_log2.simps)
  then show ?thesis
    using mark_unusable_lost [of "buddy_init [0, 0, 0, 0, 0, 0, 0] 4 4096 0" 0 0]
    by (simp add: buddy_init_def heap_size_def)
qed

section \<open>Allocation and release\<close>

text \<open>The order of an allocation: the smallest power of two that holds \<open>n\<close> pages.\<close>

definition order_of :: "nat \<Rightarrow> nat" where
  "order_of n = uint64_ceil_log2 (max n 1)"

lemma order_of_bounds: "n \<le> 2 ^ order_of n" "0 < n \<Longrightarrow> 2 ^ order_of n < 2 * n"
  using ceil_log2_bounds [of "max n 1"] by (auto simp: order_of_def)

lemma first_page_aligned: "heap_level j < 255 \<Longrightarrow> 2 ^ (ml - heap_level j) dvd first_page ml j"
  by (simp add: first_page_eq)

lemma page_alloc_nomem:
  assumes "buddy_ok ba" "order_of n \<le> max_level ba" "max_level ba - order_of n < heap ba ! 0"
  shows "\<not> block_pages (q * 2 ^ order_of n, order_of n) \<subseteq> free_of ba"
proof
  let ?ml = "max_level ba" and ?k = "order_of n"
  assume sub: "block_pages (q * 2 ^ ?k, ?k) \<subseteq> free_of ba"
  have ok: "heap_wf ?ml (heap ba) ?ml 0" "?ml \<le> 252" using assms(1) by (auto simp: buddy_ok_def)
  have "free_of ba \<subseteq> {0 ..< 2 ^ ?ml}"
    using free_pages_range [of 0 ?ml ?ml "heap ba"] ok(2) by (simp add: free_of_def)
  with sub have rng: "block_pages (q * 2 ^ ?k, ?k) \<subseteq> {0 ..< 2 ^ ?ml}" by blast
  moreover have "(1::nat) \<le> 2 ^ ?k" by simp
  then have "q * 2 ^ ?k + (2 ^ ?k - 1) \<in> block_pages (q * 2 ^ ?k, ?k)"
    unfolding block_pages_def atLeastLessThan_iff fst_conv snd_conv by linarith
  ultimately have "q * 2 ^ ?k + (2 ^ ?k - 1) \<in> {0 ..< 2 ^ ?ml}" by blast
  then have "q * 2 ^ ?k + 2 ^ ?k \<le> 2 ^ ?ml" by simp
  then have "heap ba ! 0 \<le> ?ml - ?k"
    using free_block_level [OF ok(1) _ ok(2) assms(2), of q] sub by (simp add: free_of_def)
  then show False using assms(3) by simp
qed

lemma buddy_page_alloc_unfold:
  "buddy_page_alloc ba n =
     (if 2 ^ max_level ba < max n 1 then Some (Inl INVAL)
      else if max_level ba - order_of n < heap ba ! 0 then Some (Inl NOMEM)
      else do {
        (h, j) \<leftarrow> acquire_loop (heap ba) (max_level ba - order_of n) 0 0;
        h \<leftarrow> propagate (max_level ba) (h[j := BUDDY_LEVEL_ALLOCATED]) j;
        Some (Inr (first_page (max_level ba) j, ba\<lparr>heap := h\<rparr>)) })"
proof -
  have "(if n = 0 then 1 else n) = max n 1" by auto
  then show ?thesis by (simp only: buddy_page_alloc_def order_of_def Let_def acquire_empty_slot_def)
qed

lemma page_alloc_ok:
  assumes "buddy_ok ba"
  shows "case buddy_page_alloc ba n of
      None \<Rightarrow> False
    | Some (Inl e) \<Rightarrow> e = INVAL \<and> 2 ^ max_level ba < n
        \<or> e = NOMEM \<and> (\<forall>q. \<not> block_pages (q * 2 ^ order_of n, order_of n) \<subseteq> free_of ba)
    | Some (Inr (p, ba')) \<Rightarrow> buddy_ok ba' \<and> max_level ba' = max_level ba \<and> 2 ^ order_of n dvd p
        \<and> block_pages (p, order_of n) \<subseteq> free_of ba
        \<and> free_of ba' = free_of ba - block_pages (p, order_of n)
        \<and> blocks_of ba' = insert (p, order_of n) (blocks_of ba)"
proof -
  let ?ml = "max_level ba" and ?k = "order_of n"
  have ok: "heap_wf ?ml (heap ba) ?ml 0" "?ml \<le> 252" "length (heap ba) = heap_size ?ml"
    "ready ba" "?ml \<le> 63" using assms by (auto simp: buddy_ok_def)
  consider (inval) "2 ^ ?ml < max n 1" | (nomem) "max n 1 \<le> 2 ^ ?ml" "?ml - ?k < heap ba ! 0"
    | (fits) "max n 1 \<le> 2 ^ ?ml" "heap ba ! 0 \<le> ?ml - ?k" by linarith
  then show ?thesis
  proof cases
    case inval
    then show ?thesis by (auto simp: buddy_page_alloc_unfold max_def split: if_splits)
  next
    case nomem
    then have "?k \<le> ?ml" unfolding order_of_def by (intro ceil_log2_le) auto
    with nomem page_alloc_nomem [OF assms _ nomem(2)] show ?thesis
      by (simp add: buddy_page_alloc_unfold not_less)
  next
    case fits
    then have k: "?k \<le> ?ml" unfolding order_of_def by (intro ceil_log2_le) auto
    have "takes_block ?ml (?ml - ?k) ?ml 0 (heap ba) (acquire_loop (heap ba) (?ml - ?k) 0 (?ml - ?ml))"
      using fits ok by (intro acquire_loop_ok) auto
    then obtain h1 j h3 where r: "acquire_loop (heap ba) (?ml - ?k) 0 0 = Some (h1, j)"
      "propagate ?ml (h1[j := BUDDY_LEVEL_ALLOCATED]) j = propagate ?ml h3 0" "length h3 = length (heap ba)"
      "heap_wf ?ml h3 ?ml 0" "heap_level j = ?ml - ?k"
      "block_pages (first_page ?ml j, ?ml - (?ml - ?k)) \<subseteq> free_pages ?ml (heap ba) ?ml 0"
      "free_pages ?ml h3 ?ml 0 = free_pages ?ml (heap ba) ?ml 0 - block_pages (first_page ?ml j, ?ml - (?ml - ?k))"
      "allocated ?ml h3 ?ml 0 = insert (first_page ?ml j, ?ml - (?ml - ?k)) (allocated ?ml (heap ba) ?ml 0)"
      unfolding takes_block_def by auto
    have "propagate ?ml h3 0 = Some h3" by (simp add: propagate.simps)
    then have "buddy_page_alloc ba n = Some (Inr (first_page ?ml j, ba\<lparr>heap := h3\<rparr>))"
      using fits r(1,2) by (simp add: buddy_page_alloc_unfold not_less)
    moreover have "2 ^ ?k dvd first_page ?ml j" using first_page_aligned [of j ?ml] r(5) k ok(5) by simp
    ultimately show ?thesis
      using r k ok by (simp add: buddy_ok_def free_of_def blocks_of_def)
  qed
qed

lemma page_free_ok:
  assumes "buddy_ok ba" "page < 2 ^ max_level ba"
  shows "case buddy_page_free ba page of
      None \<Rightarrow> False
    | Some (Inl e) \<Rightarrow> e = NO_SUCH_ALLOCATION \<and> (\<forall>b \<in> blocks_of ba. page \<notin> block_pages b)
    | Some (Inr ba') \<Rightarrow> buddy_ok ba' \<and> max_level ba' = max_level ba
        \<and> (\<exists>b \<in> blocks_of ba. page \<in> block_pages b \<and> free_of ba' = free_of ba \<union> block_pages b
            \<and> blocks_of ba' = blocks_of ba - {b})"
proof -
  let ?ml = "max_level ba" and ?h = "heap ba"
  have ok: "heap_wf ?ml ?h ?ml 0" "?ml \<le> 252" "length ?h = heap_size ?ml" "ready ba" "?ml \<le> 63"
    using assms by (auto simp: buddy_ok_def)
  have rel: "releases ?ml ?ml 0 ?h page (get_block_loop ?ml ?h page 0 (?ml - ?ml))"
    using ok assms(2) by (intro get_block_loop_ok) auto
  show ?thesis
  proof (cases "get_block_index_from_page_index ba page")
    case None
    then show ?thesis using rel by (simp add: releases_def get_block_index_from_page_index_def)
  next
    case (Some r)
    show ?thesis
    proof (cases r)
      case (Inl e)
      then show ?thesis using rel Some
        by (simp add: releases_def get_block_index_from_page_index_def buddy_page_free_def blocks_of_def)
    next
      case (Inr j)
      let ?b = "(first_page ?ml j, ?ml - heap_level j)" and ?g = "?h[j := heap_level j]"
      have j: "j < length ?h" "?b \<in> blocks_of ba" "page \<in> block_pages ?b" "gives_back ?ml ?ml 0 ?h j"
        using rel Some Inr by (auto simp: releases_def get_block_index_from_page_index_def blocks_of_def)
      then obtain h3 where h3: "length h3 = length ?h" "heap_wf ?ml h3 ?ml 0"
        "free_pages ?ml h3 ?ml 0 = free_of ba \<union> block_pages ?b"
        "allocated ?ml h3 ?ml 0 = blocks_of ba - {?b}"
        "if h3 ! 0 = ?ml - ?ml then coalesce_loop ?g j = coalesce_loop h3 0
         else (\<exists>h1 c. coalesce_loop ?g j = Some (h1, c) \<and> propagate ?ml h1 c = propagate ?ml h3 0)"
        unfolding gives_back_def free_of_def blocks_of_def by blast
      have "coalesce ?g j = coalesce_loop ?g j" using j(1) by (simp add: coalesce_def)
      then obtain h1 c where c: "coalesce ?g j = Some (h1, c)" "propagate ?ml h1 c = Some h3"
        using h3(5) by (auto simp: propagate.simps [of _ _ 0] coalesce_loop.simps [of _ 0] split: if_splits)
      then have "buddy_page_free ba page = Some (Inr (ba\<lparr>heap := h3\<rparr>))"
        using Some Inr by (simp add: buddy_page_free_def)
      moreover have "buddy_ok (ba\<lparr>heap := h3\<rparr>)" "free_of (ba\<lparr>heap := h3\<rparr>) = free_of ba \<union> block_pages ?b"
        "blocks_of (ba\<lparr>heap := h3\<rparr>) = blocks_of ba - {?b}"
        using h3 ok by (simp_all add: buddy_ok_def free_of_def blocks_of_def)
      ultimately show ?thesis using j(2,3) by auto
    qed
  qed
qed

section \<open>The contract of a page allocator\<close>

text \<open>The pages an allocator answers for: free ones and those in allocated blocks.\<close>

definition covered :: "nat set \<Rightarrow> (nat \<times> nat) set \<Rightarrow> nat set" where
  "covered free blocks = free \<union> (\<Union>b \<in> blocks. block_pages b)"

locale page_allocator =
  fixes ok :: "'s \<Rightarrow> bool"
    and limit :: "'s \<Rightarrow> nat"
    and pages_free :: "'s \<Rightarrow> nat set"
    and blocks :: "'s \<Rightarrow> (nat \<times> nat) set"
    and alloc :: "'s \<Rightarrow> nat \<Rightarrow> ('e + nat \<times> 's) option"
    and release :: "'s \<Rightarrow> nat \<Rightarrow> ('e + 's) option"
  assumes blocks_disjoint: "ok s \<Longrightarrow> b \<in> blocks s \<Longrightarrow> b' \<in> blocks s \<Longrightarrow> b \<noteq> b' \<Longrightarrow>
      block_pages b \<inter> block_pages b' = {}"
    and free_disjoint: "ok s \<Longrightarrow> b \<in> blocks s \<Longrightarrow> block_pages b \<inter> pages_free s = {}"
    and free_limit: "ok s \<Longrightarrow> pages_free s \<subseteq> {0 ..< limit s}"
    and alloc_total: "ok s \<Longrightarrow> alloc s n \<noteq> None"
    and alloc_law: "ok s \<Longrightarrow> alloc s n = Some (Inr (p, s')) \<Longrightarrow>
      ok s' \<and> limit s' = limit s \<and> (\<exists>k. n \<le> 2 ^ k \<and> block_pages (p, k) \<subseteq> pages_free s
        \<and> pages_free s' = pages_free s - block_pages (p, k) \<and> blocks s' = insert (p, k) (blocks s))"
    and release_total: "ok s \<Longrightarrow> q < limit s \<Longrightarrow> release s q \<noteq> None"
    and release_refused: "ok s \<Longrightarrow> q < limit s \<Longrightarrow> release s q = Some (Inl e) \<Longrightarrow>
      \<forall>b \<in> blocks s. q \<notin> block_pages b"
    and release_law: "ok s \<Longrightarrow> q < limit s \<Longrightarrow> release s q = Some (Inr s') \<Longrightarrow>
      ok s' \<and> limit s' = limit s \<and> (\<exists>b \<in> blocks s. q \<in> block_pages b
        \<and> pages_free s' = pages_free s \<union> block_pages b \<and> blocks s' = blocks s - {b})"
begin

lemma alloc_covered:
  assumes "ok s" "alloc s n = Some (Inr (p, s'))"
  shows "covered (pages_free s') (blocks s') = covered (pages_free s) (blocks s)"
  using alloc_law [OF assms] by (auto simp: covered_def)

lemma release_covered:
  assumes "ok s" "q < limit s" "release s q = Some (Inr s')"
  shows "covered (pages_free s') (blocks s') = covered (pages_free s) (blocks s)"
  using release_law [OF assms] by (auto simp: covered_def)

text \<open>A new block overlaps no block that was already allocated.\<close>

lemma alloc_fresh:
  assumes "ok s" "alloc s n = Some (Inr (p, s'))" "b \<in> blocks s"
  shows "{p ..< p + n} \<inter> block_pages b = {}"
proof -
  obtain k where k: "n \<le> 2 ^ k" "block_pages (p, k) \<subseteq> pages_free s" using alloc_law [OF assms(1,2)] by blast
  then have "{p ..< p + n} \<subseteq> pages_free s" by (auto simp: block_pages_def)
  then show ?thesis using free_disjoint [OF assms(1,3)] by blast
qed

text \<open>Releasing what was just allocated restores the free pages and the blocks.\<close>

lemma alloc_release:
  assumes "ok s" "alloc s n = Some (Inr (p, s'))"
  shows "\<exists>s''. release s' p = Some (Inr s'') \<and> ok s'' \<and> pages_free s'' = pages_free s \<and> blocks s'' = blocks s"
proof -
  from alloc_law [OF assms] obtain k where k: "ok s'" "limit s' = limit s"
    "block_pages (p, k) \<subseteq> pages_free s" "pages_free s' = pages_free s - block_pages (p, k)"
    "blocks s' = insert (p, k) (blocks s)" by blast
  have p: "p \<in> block_pages (p, k)" by (simp add: block_pages_def)
  then have lim: "p < limit s'" using k(2,3) free_limit [OF assms(1)] by auto
  have new: "(p, k) \<notin> blocks s" using free_disjoint [OF assms(1), of "(p, k)"] k(3) p by blast
  have "\<forall>e. release s' p \<noteq> Some (Inl e)" using release_refused [OF k(1) lim] k(5) p by blast
  then obtain s'' where s'': "release s' p = Some (Inr s'')"
    using release_total [OF k(1) lim] by (metis old.sum.exhaust option.exhaust)
  from release_law [OF k(1) lim this] obtain b where b: "ok s''" "b \<in> blocks s'" "p \<in> block_pages b"
    "pages_free s'' = pages_free s' \<union> block_pages b" "blocks s'' = blocks s' - {b}" by blast
  have "b = (p, k)" using blocks_disjoint [OF k(1) b(2), of "(p, k)"] k(5) p b(3) by auto
  then show ?thesis using s'' b k new by auto
qed

end

interpretation ba_pages: page_allocator buddy_ok "\<lambda>ba. 2 ^ max_level ba" free_of blocks_of
  buddy_page_alloc buddy_page_free
proof
  fix ba ba' :: buddy and b b' :: "nat \<times> nat" and n p q :: nat and e :: buddy_status
  assume ok: "buddy_ok ba"
  then have ml: "heap_level 0 + max_level ba = max_level ba" "max_level ba \<le> 252"
    by (auto simp: buddy_ok_def)
  show "b \<in> blocks_of ba \<Longrightarrow> b' \<in> blocks_of ba \<Longrightarrow> b \<noteq> b' \<Longrightarrow> block_pages b \<inter> block_pages b' = {}"
    using allocated_disjoint [OF ml] by (simp add: blocks_of_def)
  show "b \<in> blocks_of ba \<Longrightarrow> block_pages b \<inter> free_of ba = {}"
    using free_allocated_disjoint [OF ml] by (simp add: blocks_of_def free_of_def)
  show "free_of ba \<subseteq> {0 ..< 2 ^ max_level ba}"
    using free_pages_range [OF ml] by (simp add: free_of_def)
  show "buddy_page_alloc ba n \<noteq> None"
    using page_alloc_ok [OF ok, of n] by (auto split: option.splits)
  show "buddy_page_alloc ba n = Some (Inr (p, ba')) \<Longrightarrow>
      buddy_ok ba' \<and> 2 ^ max_level ba' = (2 ^ max_level ba :: nat)
      \<and> (\<exists>k. n \<le> 2 ^ k \<and> block_pages (p, k) \<subseteq> free_of ba
        \<and> free_of ba' = free_of ba - block_pages (p, k) \<and> blocks_of ba' = insert (p, k) (blocks_of ba))"
    using page_alloc_ok [OF ok, of n] order_of_bounds(1) [of n] by auto
  assume q: "q < 2 ^ max_level ba"
  show "buddy_page_free ba q \<noteq> None"
    using page_free_ok [OF ok q] by (auto split: option.splits)
  show "buddy_page_free ba q = Some (Inl e) \<Longrightarrow> \<forall>b \<in> blocks_of ba. q \<notin> block_pages b"
    using page_free_ok [OF ok q] by auto
  show "buddy_page_free ba q = Some (Inr ba') \<Longrightarrow>
      buddy_ok ba' \<and> 2 ^ max_level ba' = (2 ^ max_level ba :: nat) \<and> (\<exists>b \<in> blocks_of ba. q \<in> block_pages b
        \<and> free_of ba' = free_of ba \<union> block_pages b \<and> blocks_of ba' = blocks_of ba - {b})"
    using page_free_ok [OF ok q] by auto
qed

section \<open>Properties of the allocator\<close>

text \<open>
  C16: on a well-formed allocator \<open>buddy_page_alloc\<close> always returns.  It reports \<open>INVAL\<close> only for a
  request larger than the whole heap and \<open>NOMEM\<close> only when no aligned block of the rounded-up size
  is free; otherwise it returns an aligned block of that size, all of it free before, and takes
  exactly those pages.
\<close>

theorem page_alloc_correct:
  assumes "buddy_ok ba"
  shows "case buddy_page_alloc ba n of
      None \<Rightarrow> False
    | Some (Inl e) \<Rightarrow> e = INVAL \<and> 2 ^ max_level ba < n
        \<or> e = NOMEM \<and> (\<forall>q. \<not> block_pages (q * 2 ^ order_of n, order_of n) \<subseteq> free_of ba)
    | Some (Inr (p, ba')) \<Rightarrow> buddy_ok ba' \<and> max_level ba' = max_level ba \<and> 2 ^ order_of n dvd p
        \<and> block_pages (p, order_of n) \<subseteq> free_of ba
        \<and> free_of ba' = free_of ba - block_pages (p, order_of n)
        \<and> blocks_of ba' = insert (p, order_of n) (blocks_of ba)"
  by (rule page_alloc_ok [OF assms])

definition sample_buddy :: buddy where
  "sample_buddy = \<lparr>offset = 0, page_size_log2 = 12, ready = True, max_level = 2,
     heap = [2, 2, 2, 2, 254, 2, 253]\<rparr>"

lemma sample_buddy_ok: "buddy_ok sample_buddy"
  by code_simp

lemma sample_buddy_sets: "free_of sample_buddy = {0, 2}" "blocks_of sample_buddy = {(1, 0)}"
  by code_simp+

lemma sample_order: "order_of 2 = 1" "order_of 1 = 0"
  by code_simp+

theorem page_alloc_correct_witness:
  "case buddy_page_alloc sample_buddy 1 of
      None \<Rightarrow> False
    | Some (Inl e) \<Rightarrow> False
    | Some (Inr (p, ba')) \<Rightarrow> p = 0 \<and> buddy_ok ba' \<and> free_of ba' = {2} \<and> blocks_of ba' = {(0, 0), (1, 0)}"
proof -
  have "buddy_page_alloc sample_buddy 1 =
      Some (Inr (0, sample_buddy\<lparr>heap := [2, 255, 2, 254, 254, 2, 253]\<rparr>))" by code_simp
  then show ?thesis
    using page_alloc_correct [OF sample_buddy_ok, of 1] sample_buddy_sets sample_order
    by (auto simp: block_pages_def)
qed



text \<open>
  C22: the block a successful \<open>buddy_page_alloc\<close> hands out overlaps no block that is already
  allocated, and freeing its first page restores the allocator's free pages and blocks.
\<close>

theorem alloc_free_round_trip:
  assumes "buddy_ok ba" "buddy_page_alloc ba n = Some (Inr (p, ba'))"
  shows "(\<forall>b \<in> blocks_of ba. {p ..< p + n} \<inter> block_pages b = {})
    \<and> (\<exists>ba''. buddy_page_free ba' p = Some (Inr ba'') \<and> buddy_ok ba''
          \<and> free_of ba'' = free_of ba \<and> blocks_of ba'' = blocks_of ba)"
  using ba_pages.alloc_fresh [OF assms] ba_pages.alloc_release [OF assms] by blast

theorem alloc_free_round_trip_witness:
  "\<exists>ba''. buddy_page_free (sample_buddy\<lparr>heap := [2, 255, 2, 254, 254, 2, 253]\<rparr>) 0 = Some (Inr ba'')
    \<and> free_of ba'' = {0, 2} \<and> blocks_of ba'' = {(1, 0)}"
proof -
  have "buddy_page_alloc sample_buddy 1 =
      Some (Inr (0, sample_buddy\<lparr>heap := [2, 255, 2, 254, 254, 2, 253]\<rparr>))" by code_simp
  from alloc_free_round_trip [OF sample_buddy_ok this] sample_buddy_sets show ?thesis by auto
qed

text \<open>A sequence of requests; a refused request leaves the allocator as it is.\<close>

datatype request = AllocPages nat | FreePage nat

fun run_requests :: "buddy \<Rightarrow> request list \<Rightarrow> buddy option" where
  "run_requests ba [] = Some ba"
| "run_requests ba (AllocPages n # rs) = do {
     r \<leftarrow> buddy_page_alloc ba n;
     run_requests (case r of Inl _ \<Rightarrow> ba | Inr (_, ba') \<Rightarrow> ba') rs
   }"
| "run_requests ba (FreePage q # rs) = do {
     r \<leftarrow> buddy_page_free ba q;
     run_requests (case r of Inl _ \<Rightarrow> ba | Inr ba' \<Rightarrow> ba') rs
   }"



end
