(* ===== verification/Paging.thy ===== *)
theory Paging
  imports Prelude
begin

text \<open>
  The page tables of \<^verbatim>\<open>kernel/archsrc/x86_64/paging.c\<close>: four levels of 512-entry tables, leaves at
  levels 1 (4 KiB), 2 (2 MiB) and 3 (1 GiB), installed by \<open>as_flag\<close> with splitting of coarser leaves and
  merging of uniform tables.

  A table entry is either the raw 64-bit word of an absent entry or leaf (\<open>Pte\<close>), or an intermediate entry
  together with the table its address field points at (\<open>Table\<close>); an intermediate entry always carries
  \<open>intermediate_flags\<close>.  Addresses are natural numbers: no sum formed here exceeds the range passed in.
  The pool the tables are allocated from is a count of free frames; \<open>None\<close> is a failed \<open>asserts\<close>, and
  running out of frames is one.  The \<open>struct address_space\<close> itself comes from the same pool: \<open>malloc\<close>
  hands out whole pages, so it takes one frame.
\<close>

section \<open>Entries, levels and flags\<close>

definition PTE_P :: u64 where "PTE_P = 0x1"
definition PTE_RW :: u64 where "PTE_RW = 0x2"
definition PTE_US :: u64 where "PTE_US = 0x4"
definition PTE_PWT :: u64 where "PTE_PWT = 0x8"
definition PTE_PCD :: u64 where "PTE_PCD = 0x10"
definition PTE_PS :: u64 where "PTE_PS = 0x80"
definition PTE_NX :: u64 where "PTE_NX = 0x8000000000000000"
definition PTE_ADDR :: u64 where "PTE_ADDR = 0x000FFFFFFFFFF000"

definition GIB :: nat where "GIB = 2 ^ 30"
definition MIB :: nat where "MIB = 2 ^ 20"

type_synonym paging_flags = u32

definition PAGE_R :: paging_flags where "PAGE_R = 0x1"
definition PAGE_W :: paging_flags where "PAGE_W = 0x2"
definition PAGE_X :: paging_flags where "PAGE_X = 0x4"
definition PAGE_U :: paging_flags where "PAGE_U = 0x8"
definition PAGE_WB :: paging_flags where "PAGE_WB = 0x0"
definition PAGE_UC :: paging_flags where "PAGE_UC = 0x10"
definition PAGE_WC :: paging_flags where "PAGE_WC = 0x20"
definition PAGE_WT :: paging_flags where "PAGE_WT = 0x30"
definition PAGE_CACHE_MASK :: paging_flags where "PAGE_CACHE_MASK = 0x30"
definition PAGE_KERNEL_PRISTINE :: paging_flags where "PAGE_KERNEL_PRISTINE = PAGE_R OR PAGE_W OR PAGE_X"

definition PAGE_SIZE :: nat where "PAGE_SIZE = 4096"

definition LEVEL_SHIFT :: "nat \<Rightarrow> nat" where
  "LEVEL_SHIFT l = [0, 12, 21, 30, 39] ! l"

definition LEVEL_SIZE :: "nat \<Rightarrow> nat" where
  "LEVEL_SIZE l = [0, PAGE_SIZE, 2 * MIB, GIB, 512 * GIB] ! l"

definition level_idx :: "nat \<Rightarrow> nat \<Rightarrow> nat" where
  "level_idx addr level = drop_bit (LEVEL_SHIFT level) addr AND 0x1ff"

datatype entry = Pte u64 | Table "entry list"

definition UINT64_MAX :: nat where "UINT64_MAX = 2 ^ 64 - 1"

definition DIRTY_EMPTY_MIN :: nat where "DIRTY_EMPTY_MIN = UINT64_MAX"
definition DIRTY_EMPTY_MAX :: nat where "DIRTY_EMPTY_MAX = 0"

record address_space =
  as_root :: "entry list"
  min_dirty :: nat
  max_dirty :: nat
  as_pins :: nat

text \<open>API flags to the bits of a leaf and back.\<close>

definition leaf_flags_to_pte :: "paging_flags \<Rightarrow> u64 option" where
  "leaf_flags_to_pte f =
     (if f AND (PAGE_R OR PAGE_W OR PAGE_X OR PAGE_U) = 0 then Some 0
      else do {
        asserts (f AND PAGE_R \<noteq> 0);
        let pte = PTE_P;
        let pte = (if f AND PAGE_W \<noteq> 0 then pte OR PTE_RW else pte);
        let pte = (if f AND PAGE_U \<noteq> 0 then pte OR PTE_US else pte);
        let pte = (if f AND PAGE_X = 0 then pte OR PTE_NX else pte);
        let cache = f AND PAGE_CACHE_MASK;
        if cache = PAGE_WB then Some pte
        else if cache = PAGE_UC then Some (pte OR PTE_PCD)
        else if cache = PAGE_WT then Some (pte OR PTE_PWT)
        else if cache = PAGE_WC then Some (pte OR PTE_PWT)
        else None
      })"

definition pte_to_flags :: "u64 \<Rightarrow> paging_flags" where
  "pte_to_flags pte =
     (if pte AND PTE_P = 0 then 0
      else
        let f = PAGE_R;
            f = (if pte AND PTE_RW \<noteq> 0 then f OR PAGE_W else f);
            f = (if pte AND PTE_US \<noteq> 0 then f OR PAGE_U else f);
            f = (if pte AND PTE_NX = 0 then f OR PAGE_X else f)
        in if pte AND PTE_PCD \<noteq> 0 then f OR PAGE_UC
           else if pte AND PTE_PWT \<noteq> 0 then f OR PAGE_WT
           else f OR PAGE_WB)"

definition intermediate_flags :: u64 where
  "intermediate_flags = PTE_P OR PTE_RW OR PTE_US"

section \<open>The dirty range\<close>

definition mark_dirty :: "nat \<Rightarrow> nat \<Rightarrow> address_space \<Rightarrow> address_space" where
  "mark_dirty start end as =
     (let as = (if start < min_dirty as then as\<lparr>min_dirty := start\<rparr> else as)
      in if max_dirty as < end then as\<lparr>max_dirty := end\<rparr> else as)"

definition has_dirty :: "address_space \<Rightarrow> bool" where
  "has_dirty as \<longleftrightarrow> min_dirty as < max_dirty as"

definition clear_dirty :: "address_space \<Rightarrow> address_space" where
  "clear_dirty as = as\<lparr>min_dirty := DIRTY_EMPTY_MIN, max_dirty := DIRTY_EMPTY_MAX\<rparr>"

section \<open>Walk and install\<close>

text \<open>
  The state threaded through a mutation: the number of free frames and the address space, whose
  root is put back at the end.
\<close>

type_synonym pt_env = "nat \<times> address_space"

definition pt_alloc :: "pt_env \<Rightarrow> (entry list \<times> pt_env) option" where
  "pt_alloc env = do {
     asserts (fst env \<noteq> 0);
     Some (replicate 512 (Pte 0), (fst env - 1, snd env))
   }"

definition pt_free :: "pt_env \<Rightarrow> pt_env" where
  "pt_free env = (fst env + 1, snd env)"

definition env_dirty :: "nat \<Rightarrow> nat \<Rightarrow> pt_env \<Rightarrow> pt_env" where
  "env_dirty start end env = (fst env, mark_dirty start end (snd env))"

fun free_table :: "nat \<Rightarrow> entry list \<Rightarrow> pt_env \<Rightarrow> pt_env" where
  "free_table level table env = pt_free
     (if 1 < level then fold (\<lambda>e env. case e of Pte _ \<Rightarrow> env | Table child \<Rightarrow> free_table (level - 1) child env) table env
      else env)"

definition split_huge :: "u64 \<Rightarrow> nat \<Rightarrow> pt_env \<Rightarrow> (entry list \<times> pt_env) option" where
  "split_huge huge level env = do {
     asserts (level = 2 \<or> level = 3);
     asserts (huge AND PTE_P \<noteq> 0 \<and> huge AND PTE_PS \<noteq> 0);
     (_, env) \<leftarrow> pt_alloc env;
     let base = huge AND PTE_ADDR;
     let flags = (huge AND NOT PTE_ADDR) AND NOT PTE_PS;
     let child_ps = (if level - 1 = 2 then PTE_PS else 0);
     let step = LEVEL_SIZE (level - 1);
     Some (map (\<lambda>i. Pte ((base + of_nat (i * step)) OR flags OR child_ps)) [0 ..< 512], env)
   }"

text \<open>
  The descent of \<open>install_leaf\<close> from the table at level \<open>l\<close>.  A present entry above level 1 without
  \<open>PTE_PS\<close> is a table pointer, so it cannot be a \<open>Pte\<close>; meeting one is a wild dereference.
\<close>

fun install_from :: "nat \<Rightarrow> entry list \<Rightarrow> nat \<Rightarrow> nat \<Rightarrow> u64 \<Rightarrow> pt_env \<Rightarrow> (entry list \<times> pt_env) option" where
  "install_from l table addr level leaf_pte env = (
     let i = level_idx addr l in
     if level < l then
       case table ! i of
         Pte e \<Rightarrow>
           if e AND PTE_P = 0 then
             if leaf_pte = 0 then Some (table, env)
             else do {
               (child, env) \<leftarrow> pt_alloc env;
               (child, env) \<leftarrow> install_from (l - 1) child addr level leaf_pte env;
               Some (table[i := Table child], env)
             }
           else if e AND PTE_PS \<noteq> 0 then do {
             (child, env) \<leftarrow> split_huge e l env;
             let huge_base = addr div LEVEL_SIZE l * LEVEL_SIZE l;
             let env = env_dirty huge_base (huge_base + LEVEL_SIZE l) env;
             (child, env) \<leftarrow> install_from (l - 1) child addr level leaf_pte env;
             Some (table[i := Table child], env)
           }
           else None
       | Table child \<Rightarrow> do {
           (child, env) \<leftarrow> install_from (l - 1) child addr level leaf_pte env;
           Some (table[i := Table child], env)
         }
     else do {
       let env = (case table ! i of
           Pte _ \<Rightarrow> env
         | Table sub \<Rightarrow> if 1 < level then free_table (level - 1) sub env else env);
       Some (table[i := Pte leaf_pte], env)
     })"

definition install_leaf :: "nat \<Rightarrow> nat \<Rightarrow> u64 \<Rightarrow> pt_env \<Rightarrow> pt_env option" where
  "install_leaf addr level leaf_pte env = do {
     asserts (1 \<le> level \<and> level \<le> 3);
     asserts (addr mod LEVEL_SIZE level = 0);
     (table, env) \<leftarrow> install_from 4 (as_root (snd env)) addr level leaf_pte env;
     Some (fst env, (snd env)\<lparr>as_root := table\<rparr>)
   }"

fun walk :: "nat \<Rightarrow> entry list \<Rightarrow> nat \<Rightarrow> u64" where
  "walk l table addr =
     (case table ! level_idx addr l of
        Pte e \<Rightarrow> if e AND PTE_P = 0 then 0 else e
      | Table child \<Rightarrow> if l \<le> 1 then 0 else walk (l - 1) child addr)"

section \<open>Merge\<close>

definition entry_word :: "entry \<Rightarrow> u64" where
  "entry_word e = (case e of Pte w \<Rightarrow> w | Table _ \<Rightarrow> intermediate_flags)"

fun merge_scan :: "nat \<Rightarrow> u64 \<Rightarrow> nat \<Rightarrow> entry list \<Rightarrow> bool \<Rightarrow> bool \<Rightarrow> bool \<times> bool" where
  "merge_scan child_level first i [] all_absent all_leaf = (all_absent, all_leaf)"
| "merge_scan child_level first i (e # es) all_absent all_leaf =
     (if \<not> all_absent \<and> \<not> all_leaf then (all_absent, all_leaf)
      else let c = entry_word e in
        if c AND PTE_P = 0 then merge_scan child_level first (i + 1) es all_absent False
        else merge_scan child_level first (i + 1) es False
          (all_leaf \<and> \<not> (2 \<le> child_level \<and> c AND PTE_PS = 0
             \<or> c AND NOT PTE_ADDR \<noteq> first AND NOT PTE_ADDR
             \<or> c AND PTE_ADDR \<noteq> (first AND PTE_ADDR) + of_nat (i * LEVEL_SIZE child_level))))"

definition try_merge_child :: "entry list \<Rightarrow> nat \<Rightarrow> nat \<Rightarrow> pt_env \<Rightarrow> bool \<times> entry list \<times> pt_env" where
  "try_merge_child parent parent_level addr env = (
     let idx = level_idx addr parent_level in
     case parent ! idx of
       Pte _ \<Rightarrow> (False, parent, env)
     | Table child \<Rightarrow>
         let child_level = parent_level - 1;
             first = entry_word (child ! 0);
             (all_absent, all_leaf) = merge_scan child_level first 0 child True True;
             span = addr div LEVEL_SIZE parent_level * LEVEL_SIZE parent_level;
             env' = env_dirty span (span + LEVEL_SIZE parent_level) (pt_free env)
         in if all_absent then (True, parent[idx := Pte 0], env')
            else if all_leaf \<and> parent_level \<le> 3 then
              let base = first AND PTE_ADDR in
              if unat base mod LEVEL_SIZE parent_level \<noteq> 0 then (False, parent, env)
              else (True, parent[idx := Pte (base OR (first AND NOT PTE_ADDR) OR PTE_PS)], env')
            else (False, parent, env))"

text \<open>The merge along the walk of \<open>addr\<close>, bottom up; the flag says whether to go on at the level above.\<close>

fun merge_from :: "nat \<Rightarrow> entry list \<Rightarrow> nat \<Rightarrow> pt_env \<Rightarrow> bool \<times> entry list \<times> pt_env" where
  "merge_from l table addr env =
     (if l < 2 then (True, table, env)
      else case table ! level_idx addr l of
        Pte _ \<Rightarrow> (True, table, env)
      | Table child \<Rightarrow>
          let (go, child, env) = merge_from (l - 1) child addr env;
              table = table[level_idx addr l := Table child]
          in if go then try_merge_child table l addr env else (False, table, env))"

definition try_merge_path :: "nat \<Rightarrow> pt_env \<Rightarrow> pt_env" where
  "try_merge_path addr env =
     (let (_, table, env) = merge_from 4 (as_root (snd env)) addr env
      in (fst env, (snd env)\<lparr>as_root := table\<rparr>))"

section \<open>Recursive tree helpers\<close>

fun clone_table :: "nat \<Rightarrow> entry list \<Rightarrow> nat \<Rightarrow> (entry list \<times> nat) option"
  and clone_entries :: "nat \<Rightarrow> entry list \<Rightarrow> nat \<Rightarrow> (entry list \<times> nat) option" where
  "clone_table level src frames = do {
     asserts (frames \<noteq> 0);
     clone_entries level src (frames - 1)
   }"
| "clone_entries level [] frames = Some ([], frames)"
| "clone_entries level (e # es) frames = (
     case e of
       Pte w \<Rightarrow> do {
         (es', frames) \<leftarrow> clone_entries level es frames;
         Some (Pte (if w AND PTE_P = 0 then 0 else w) # es', frames)
       }
     | Table child \<Rightarrow> do {
         (child', frames) \<leftarrow> clone_table (level - 1) child frames;
         (es', frames) \<leftarrow> clone_entries level es frames;
         Some (Table child' # es', frames)
       })"

fun count_tables :: "nat \<Rightarrow> entry list \<Rightarrow> nat" where
  "count_tables level table = 1 +
     (if 1 < level then sum_list (map (\<lambda>e. case e of Pte _ \<Rightarrow> 0 | Table child \<Rightarrow> count_tables (level - 1) child) table)
      else 0)"

section \<open>Lifecycle and query\<close>

definition as_identity_mapping :: "nat \<Rightarrow> (address_space \<times> nat) option" where
  "as_identity_mapping frames = do {
     asserts (3 \<le> frames);
     leaf_base \<leftarrow> leaf_flags_to_pte (PAGE_R OR PAGE_W OR PAGE_X);
     let pdpt = map (\<lambda>i. Pte (of_nat (i * GIB) OR leaf_base OR PTE_PS)) [0 ..< 512];
     Some (\<lparr>as_root = (replicate 512 (Pte 0))[0 := Table pdpt],
            min_dirty = DIRTY_EMPTY_MIN, max_dirty = DIRTY_EMPTY_MAX, as_pins = 0\<rparr>, frames - 3)
   }"

definition as_clone :: "address_space \<Rightarrow> nat \<Rightarrow> (address_space \<times> nat) option" where
  "as_clone src frames = do {
     asserts (frames \<noteq> 0);
     (root, frames) \<leftarrow> clone_table 4 (as_root src) (frames - 1);
     Some (\<lparr>as_root = root, min_dirty = DIRTY_EMPTY_MIN, max_dirty = DIRTY_EMPTY_MAX, as_pins = 0\<rparr>, frames)
   }"

definition as_pin :: "address_space \<Rightarrow> address_space" where
  "as_pin as = as\<lparr>as_pins := as_pins as + 1\<rparr>"

definition as_unpin :: "address_space \<Rightarrow> address_space option" where
  "as_unpin as = do {
     asserts (as_pins as \<noteq> 0);
     Some (as\<lparr>as_pins := as_pins as - 1\<rparr>)
   }"

definition as_has_pins :: "address_space \<Rightarrow> bool" where
  "as_has_pins as \<longleftrightarrow> as_pins as \<noteq> 0"

definition as_free :: "address_space \<Rightarrow> nat \<Rightarrow> nat option" where
  "as_free as frames = do {
     asserts (\<not> as_has_pins as);
     Some (fst (free_table 4 (as_root as) (frames, as)) + 1)
   }"

definition as_getinfo :: "address_space \<Rightarrow> nat \<Rightarrow> paging_flags \<times> bool" where
  "as_getinfo as addr =
     (let pte = walk 4 (as_root as) addr; present = (pte AND PTE_P \<noteq> 0)
      in (if present then pte_to_flags pte else 0, present))"

definition as_table_count :: "address_space \<Rightarrow> nat" where
  "as_table_count as = count_tables 4 (as_root as)"

section \<open>Mutation\<close>

function flag_loop :: "u64 \<Rightarrow> nat \<Rightarrow> nat \<Rightarrow> pt_env \<Rightarrow> pt_env option" where
  "flag_loop leaf_base a end env = (
     if a < end then
       let remaining = end - a;
           leaf = (\<lambda>ps. if leaf_base AND PTE_P \<noteq> 0 then of_nat a OR leaf_base OR ps else 0)
       in if a mod GIB = 0 \<and> GIB \<le> remaining then do {
            env \<leftarrow> install_leaf a 3 (leaf PTE_PS) env;
            flag_loop leaf_base (a + GIB) end env
          }
          else if a mod (2 * MIB) = 0 \<and> 2 * MIB \<le> remaining then do {
            env \<leftarrow> install_leaf a 2 (leaf PTE_PS) env;
            flag_loop leaf_base (a + 2 * MIB) end env
          }
          else do {
            env \<leftarrow> install_leaf a 1 (leaf 0) env;
            flag_loop leaf_base (a + PAGE_SIZE) end env
          }
     else Some env)"
  by pat_completeness auto

termination
  by (relation "measure (\<lambda>(_, a, end, _). end - a)") (auto simp: GIB_def MIB_def PAGE_SIZE_def)

definition as_flag :: "nat \<Rightarrow> nat \<Rightarrow> paging_flags \<Rightarrow> pt_env \<Rightarrow> pt_env option" where
  "as_flag addr end flags env = do {
     asserts (addr mod PAGE_SIZE = 0 \<and> end mod PAGE_SIZE = 0);
     asserts (addr \<le> end);
     if addr = end then Some env
     else do {
       leaf_base \<leftarrow> leaf_flags_to_pte flags;
       env \<leftarrow> flag_loop leaf_base addr end env;
       let env = env_dirty addr end env;
       let env = try_merge_path addr env;
       Some (try_merge_path (end - PAGE_SIZE) env)
     }
   }"

declare free_table.simps [simp del] install_from.simps [simp del] walk.simps [simp del]
  merge_from.simps [simp del] count_tables.simps [simp del] flag_loop.simps [simp del]

end
