(* ===== verification/Allocator.thy ===== *)
theory Allocator
  imports Buddy_Init Paging
begin

text \<open>
  The kernel heap, \<^verbatim>\<open>kernel/src/allocator.c\<close>: the global buddy allocator built from the firmware memory
  map, and \<open>malloc_unlocked\<close> / \<open>free_unlocked\<close> on top of it.  \<open>None\<close> is a kernel panic
  (\<open>fatal\<close> or a failed \<open>asserts\<close>).
\<close>

section \<open>Building the heap from the memory map\<close>

definition EFI_CONVENTIONAL_MEMORY :: nat where "EFI_CONVENTIONAL_MEMORY = 7"

record efi_memory_descriptor =
  mtype :: nat
  physical_start :: nat
  pages :: nat

definition max_free_page :: "efi_memory_descriptor list \<Rightarrow> nat" where
  "max_free_page mmap = fold (\<lambda>d acc. if mtype d = EFI_CONVENTIONAL_MEMORY
     then max acc (physical_start d div PAGE_SIZE) else acc) mmap 0"

definition mark_region :: "nat \<Rightarrow> nat \<Rightarrow> buddy option \<Rightarrow> buddy option" where
  "mark_region lo hi ba = do { ba \<leftarrow> ba; buddy_mark_unusable ba lo hi }"

text \<open>\<open>junk\<close> is what the chosen region held before.\<close>

definition allocator_init :: "nat list \<Rightarrow> efi_memory_descriptor list \<Rightarrow> buddy option" where
  "allocator_init junk mmap = do {
     let n_pages = max_free_page mmap + 1;
     let pages_for_allocator = buddy_get_bytes n_pages div PAGE_SIZE;
     d \<leftarrow> find (\<lambda>d. mtype d = EFI_CONVENTIONAL_MEMORY \<and> pages d > pages_for_allocator) mmap;
     let start = physical_start d div PAGE_SIZE;
     let ba = buddy_init junk n_pages PAGE_SIZE 0;
     ba \<leftarrow> buddy_mark_unusable ba start (start + pages_for_allocator);
     ba \<leftarrow> fold (\<lambda>d ba. if mtype d \<noteq> EFI_CONVENTIONAL_MEMORY
         then mark_region (physical_start d div PAGE_SIZE) (physical_start d div PAGE_SIZE + pages d) ba
         else ba) mmap (Some ba);
     Some (buddy_ready ba)
   }"

section \<open>malloc and free\<close>

text \<open>The state is \<open>g_allocator\<close>; a pointer is a 64-bit address and 0 is the null pointer.\<close>

definition allocator_require :: "buddy option \<Rightarrow> buddy option" where
  "allocator_require g = g"

definition malloc_unlocked :: "buddy option \<Rightarrow> nat \<Rightarrow> (u64 \<times> buddy option) option" where
  "malloc_unlocked g n = do {
     ba \<leftarrow> allocator_require g;
     if n = 0 then Some (0, g)
     else do {
       s \<leftarrow> buddy_mem_alloc ba n;
       Some (case s of Inl _ \<Rightarrow> (0, g) | Inr (p, ba') \<Rightarrow> (p, Some ba'))
     }
   }"

definition free_unlocked :: "buddy option \<Rightarrow> u64 \<Rightarrow> buddy option option" where
  "free_unlocked g ptr = do {
     ba \<leftarrow> allocator_require g;
     if ptr = 0 then Some g
     else do {
       s \<leftarrow> buddy_mem_free ba ptr;
       case s of Inl _ \<Rightarrow> None | Inr ba' \<Rightarrow> Some (Some ba')
     }
   }"

section \<open>Pointers and pages\<close>

text \<open>The kernel's instance: offset 0, 4096-byte pages, physical addresses below \<open>2 ^ 63\<close>.\<close>

definition kernel_heap :: "buddy \<Rightarrow> bool" where
  "kernel_heap ba \<longleftrightarrow> buddy_ok ba \<and> offset ba = 0 \<and> page_size_log2 ba = 12 \<and> max_level ba \<le> 51"

lemma unat_page_to_ptr:
  assumes "kernel_heap ba" "p < 2 ^ max_level ba"
  shows "unat (page_to_ptr ba p) = p * 4096"
proof -
  have "p < 2 ^ 51"
    using assms power_increasing [of "max_level ba" 51 "2::nat"] by (auto simp: kernel_heap_def)
  then have "p * 4096 < 2 ^ LENGTH(64)" by simp
  then show ?thesis
    using assms by (simp add: page_to_ptr_def kernel_heap_def push_bit_eq_mult unat_word_ariths
        unat_of_nat take_bit_eq_mod)
qed

lemma ptr_to_page_to_ptr:
  assumes "kernel_heap ba" "p < 2 ^ max_level ba"
  shows "ptr_to_page ba (page_to_ptr ba p) = p"
proof -
  have "ptr_to_page ba (page_to_ptr ba p) = drop_bit 12 (unat (page_to_ptr ba p))"
    using assms by (simp only: ptr_to_page_def kernel_heap_def unat_drop_bit_eq diff_0_right)
  then show ?thesis using unat_page_to_ptr [OF assms] by (simp add: drop_bit_eq_div)
qed

definition mem_pages :: "buddy \<Rightarrow> nat \<Rightarrow> nat" where
  "mem_pages ba n = 2 ^ (uint64_ceil_log2 (max n (2 ^ page_size_log2 ba)) - page_size_log2 ba)"

lemma mem_pages_enough: "n \<le> mem_pages ba n * 2 ^ page_size_log2 ba"
proof -
  let ?m = "max n (2 ^ page_size_log2 ba)"
  have m: "0 < ?m" by (simp add: less_max_iff_disj)
  have "?m \<le> 2 ^ uint64_ceil_log2 ?m" using ceil_log2_bounds(1) [OF m] .
  then have "(2::nat) ^ page_size_log2 ba \<le> 2 ^ uint64_ceil_log2 ?m" by simp
  then have "page_size_log2 ba \<le> uint64_ceil_log2 ?m"
    by (rule power_le_imp_le_exp [rotated]) simp
  then have "mem_pages ba n * 2 ^ page_size_log2 ba = 2 ^ uint64_ceil_log2 ?m"
    by (simp add: mem_pages_def flip: power_add)
  then show ?thesis using \<open>?m \<le> 2 ^ uint64_ceil_log2 ?m\<close> by simp
qed

lemma buddy_mem_alloc_eq:
  "buddy_mem_alloc ba n = map_option (\<lambda>s. case s of Inl e \<Rightarrow> Inl e
     | Inr (p, ba') \<Rightarrow> Inr (page_to_ptr ba' p, ba')) (buddy_page_alloc ba (mem_pages ba n))"
proof -
  have "(if n < 2 ^ page_size_log2 ba then 2 ^ page_size_log2 ba else n) = max n (2 ^ page_size_log2 ba)"
    by auto
  then show ?thesis
    by (simp add: buddy_mem_alloc_def mem_pages_def Let_def map_option_case split: bind_split)
qed

lemma page_alloc_frame:
  "buddy_page_alloc ba n = Some (Inr (p, ba')) \<Longrightarrow> offset ba' = offset ba \<and> page_size_log2 ba' = page_size_log2 ba"
  by (auto simp: buddy_page_alloc_def Let_def split: if_splits bind_splits)



end
