(* ===== verification/Paging_Correct.thy ===== *)
theory Paging_Correct
  imports Paging
begin

text \<open>
  Correctness of the page-table operations: the identity-mapping invariant of a tree of tables, the view a
  tree gives of each page, and the lemmas that \<open>as_flag\<close> changes the view exactly on its range, conserves
  page-table frames and keeps the invariant.
\<close>

section \<open>Bits of an entry\<close>

lemmas u64_eq_iff = bit_eq_iff [where 'a = u64]

lemma bit_PTE_ADDR: "bit PTE_ADDR n \<longleftrightarrow> 12 \<le> n \<and> n < 52"
proof -
  have *: "PTE_ADDR = mask 52 AND NOT (mask 12)"
    by (simp add: PTE_ADDR_def mask_eq_exp_minus_1)
  show ?thesis unfolding * by (auto simp: bit_and_iff bit_not_iff bit_mask_iff)
qed

lemma bit_PTE_PS: "bit PTE_PS n \<longleftrightarrow> n = 7"
proof -
  have *: "PTE_PS = 2 ^ 7" by (simp add: PTE_PS_def)
  show ?thesis unfolding * bit_exp_iff by auto
qed

lemma and_PTE_P: "e AND PTE_P = 0 \<longleftrightarrow> \<not> bit e 0"
  by (auto simp: PTE_P_def and_one_eq bit_0 even_iff_mod_2_eq_zero)

lemma and_PTE_PS: "e AND PTE_PS = 0 \<longleftrightarrow> \<not> bit e 7"
  by (auto simp: u64_eq_iff bit_and_iff bit_PTE_PS dest: spec [of _ 7])

lemma bit_of_nat_aligned:
  assumes "x mod 4096 = 0" "x < 2 ^ 52" "bit (of_nat x :: u64) n"
  shows "12 \<le> n \<and> n < 52"
proof -
  have b: "bit x n" using assms(3) by (simp add: bit_of_nat_iff)
  have "x = push_bit 12 (x div 4096)" using assms(1) by (simp add: push_bit_eq_mult mod_0_imp_dvd)
  then have "12 \<le> n" using b by (metis bit_push_bit_iff)
  moreover have "take_bit 52 x = x" using assms(2) by (simp add: take_bit_nat_eq_self_iff)
  then have "n < 52" using b by (metis bit_take_bit_iff)
  ultimately show ?thesis by simp
qed

lemma of_nat_and_ADDR:
  "x mod 4096 = 0 \<Longrightarrow> x < 2 ^ 52 \<Longrightarrow> (of_nat x :: u64) AND PTE_ADDR = of_nat x"
  using bit_of_nat_aligned [of x] by (auto simp: u64_eq_iff bit_and_iff bit_PTE_ADDR)

text \<open>What a leaf grants: its bits without the address and the size bit.\<close>

definition pbits :: "u64 \<Rightarrow> u64" where
  "pbits e = (e AND NOT PTE_ADDR) AND NOT PTE_PS"

definition leaf_ok :: "nat \<Rightarrow> nat \<Rightarrow> u64 \<Rightarrow> bool" where
  "leaf_ok l a e \<longleftrightarrow> e AND PTE_ADDR = of_nat a \<and> e AND PTE_P \<noteq> 0 \<and> (e AND PTE_PS \<noteq> 0 \<longleftrightarrow> 2 \<le> l)"

lemma bit_pbits: "bit (pbits e) n \<longleftrightarrow> bit e n \<and> \<not> (12 \<le> n \<and> n < 52) \<and> n \<noteq> 7"
  using bit_imp_le_length [of e n]
  by (auto simp: pbits_def bit_and_iff bit_not_iff bit_PTE_ADDR bit_PTE_PS)

lemma pbits_0 [simp]: "pbits 0 = 0"
  by (simp add: pbits_def)

lemma pbits_eq_0: "leaf_ok l a e \<Longrightarrow> pbits e \<noteq> 0"
  by (metis and_PTE_P bit_0_eq bit_pbits bot_apply leaf_ok_def numeral_eq_iff not_numeral_le_zero zero_neq_numeral bot_bool_def)

lemma pbits_leaf:
  assumes "leaf_ok l a e"
  shows "bit (pbits e) 0" "pbits e AND PTE_ADDR = 0" "\<not> bit (pbits e) 7"
proof -
  have "bit e 0" using assms by (simp only: leaf_ok_def and_PTE_P) simp
  then show "bit (pbits e) 0" "\<not> bit (pbits e) 7" by (simp_all add: bit_pbits)
  show "pbits e AND PTE_ADDR = 0"
    by (auto simp: u64_eq_iff bit_and_iff bit_pbits bit_PTE_ADDR)
qed

lemma leaf_okI:
  assumes "a mod 4096 = 0" "a < 2 ^ 52" "bit f 0" "f AND PTE_ADDR = 0" "\<not> bit f 7"
    and ps: "ps = (if 2 \<le> l then PTE_PS else 0)"
  shows "leaf_ok l a (of_nat a OR f OR ps)" "pbits (of_nat a OR f OR ps) = f"
proof -
  have f: "\<not> bit f n" if "12 \<le> n" "n < 52" for n
    using assms(4) that by (metis bit_0_eq bit_PTE_ADDR bit_and_iff bot_apply bot_bool_def)
  note a = bit_of_nat_aligned [OF assms(1,2)]
  have p: "bit ps n \<longleftrightarrow> 2 \<le> l \<and> n = 7" for n by (auto simp: ps bit_PTE_PS)
  have "(of_nat a OR f OR ps) AND PTE_ADDR = of_nat a"
    using f a by (auto simp: u64_eq_iff bit_and_iff bit_or_iff bit_PTE_ADDR p)
  moreover have "bit (of_nat a OR f OR ps) 0" using assms(3) by (simp add: bit_or_iff)
  moreover have "bit (of_nat a OR f OR ps) 7 \<longleftrightarrow> 2 \<le> l"
    using assms(5) a [of 7] by (auto simp: bit_or_iff p)
  ultimately show "leaf_ok l a (of_nat a OR f OR ps)"
    by (simp only: leaf_ok_def and_PTE_P and_PTE_PS) simp
  show "pbits (of_nat a OR f OR ps) = f"
    using f a assms(5) by (auto simp: u64_eq_iff bit_pbits bit_or_iff p)
qed

section \<open>Levels\<close>

lemma level_cases: "1 \<le> l \<Longrightarrow> l \<le> 4 \<Longrightarrow> l = 1 \<or> l = 2 \<or> l = 3 \<or> l = (4::nat)"
  by linarith

lemma LEVEL_SIZE_eq: "1 \<le> l \<Longrightarrow> l \<le> 4 \<Longrightarrow> LEVEL_SIZE l = 2 ^ (9 * l + 3)"
  by (drule (1) level_cases) (auto simp: LEVEL_SIZE_def PAGE_SIZE_def MIB_def GIB_def)

lemma LEVEL_SIZE_pos [simp]: "1 \<le> l \<Longrightarrow> l \<le> 4 \<Longrightarrow> 0 < LEVEL_SIZE l"
  by (simp add: LEVEL_SIZE_eq)

lemma LEVEL_SIZE_step: "1 < l \<Longrightarrow> l \<le> 4 \<Longrightarrow> LEVEL_SIZE l = 512 * LEVEL_SIZE (l - 1)"
  using level_cases [of l] by (auto simp: LEVEL_SIZE_def PAGE_SIZE_def MIB_def GIB_def)

lemma LEVEL_SIZE_page: "1 \<le> l \<Longrightarrow> l \<le> 4 \<Longrightarrow> LEVEL_SIZE l mod 4096 = 0"
  by (drule (1) level_cases) (auto simp: LEVEL_SIZE_def PAGE_SIZE_def MIB_def GIB_def)

lemma level_idx_eq: "1 \<le> l \<Longrightarrow> l \<le> 4 \<Longrightarrow> level_idx a l = a div LEVEL_SIZE l mod 512"
proof -
  assume l: "1 \<le> l" "l \<le> 4"
  have "LEVEL_SHIFT l = 9 * l + 3" using level_cases [OF l] by (auto simp: LEVEL_SHIFT_def)
  moreover have "x AND 0x1ff = x mod 512" for x :: nat
    using take_bit_eq_mask [of 9 x] by (simp add: mask_eq_exp_minus_1 take_bit_eq_mod)
  ultimately show ?thesis by (simp add: level_idx_def LEVEL_SIZE_eq [OF l] drop_bit_eq_div)
qed

lemma level_idx_less: "1 \<le> l \<Longrightarrow> l \<le> 4 \<Longrightarrow> level_idx a l < 512"
  by (simp add: level_idx_eq)

text \<open>The addresses a table of level \<open>l\<close> based at \<open>b\<close> translates, and the slots of its entries.\<close>

definition in_table :: "nat \<Rightarrow> nat \<Rightarrow> nat \<Rightarrow> bool" where
  "in_table l b x \<longleftrightarrow> b mod (512 * LEVEL_SIZE l) = 0 \<and> b \<le> x \<and> x < b + 512 * LEVEL_SIZE l"

definition slot :: "nat \<Rightarrow> nat \<Rightarrow> nat \<Rightarrow> nat" where
  "slot l b i = b + i * LEVEL_SIZE l"

lemma in_table_idx:
  assumes "in_table l b x" "1 \<le> l" "l \<le> 4"
  shows "slot l b (level_idx x l) \<le> x" "x < slot l b (level_idx x l) + LEVEL_SIZE l"
    "i < 512 \<Longrightarrow> level_idx x l = i \<longleftrightarrow> slot l b i \<le> x \<and> x < slot l b i + LEVEL_SIZE l"
proof -
  let ?s = "LEVEL_SIZE l"
  have s: "0 < ?s" using assms by simp
  obtain c where b: "b = 512 * ?s * c" using assms(1) by (auto simp: in_table_def mod_eq_0_iff_dvd)
  define y where "y = x - b"
  have x: "x = b + y" "y < 512 * ?s" using assms(1) by (auto simp: in_table_def y_def)
  have "x div ?s = 512 * c + y div ?s" using s by (simp add: x(1) b mult.commute [of 512] mult.assoc)
  moreover have "y div ?s < 512" using x(2) s by (simp add: div_less_iff_less_mult)
  ultimately have idx: "level_idx x l = y div ?s" by (simp add: level_idx_eq assms(2,3) mod_mult_self4 del: One_nat_def)
  have le: "y div ?s * ?s \<le> y" "y < y div ?s * ?s + ?s"
    using s dividend_less_times_div [of ?s y] by (simp_all add: ac_simps)
  then show "slot l b (level_idx x l) \<le> x" "x < slot l b (level_idx x l) + ?s"
    by (simp_all add: idx slot_def) (simp_all add: x(1))
  show "level_idx x l = i \<longleftrightarrow> slot l b i \<le> x \<and> x < slot l b i + ?s"
  proof
    assume "level_idx x l = i"
    then show "slot l b i \<le> x \<and> x < slot l b i + ?s" using le by (auto simp: idx slot_def) (auto simp: x(1))
  next
    assume "slot l b i \<le> x \<and> x < slot l b i + ?s"
    then have "i * ?s \<le> y" "y < (i + 1) * ?s" by (simp_all add: slot_def x(1))
    then have "y div ?s = i" by (simp add: div_nat_eqI mult.commute)
    then show "level_idx x l = i" by (simp add: idx)
  qed
qed

lemma in_table_child:
  assumes "in_table l b x" "1 < l" "l \<le> 4"
  shows "in_table (l - 1) (slot l b (level_idx x l)) x"
proof -
  have "slot l b (level_idx x l) mod LEVEL_SIZE l = 0"
  proof -
    have "LEVEL_SIZE l dvd b"
      using assms(1) by (auto simp: in_table_def mod_eq_0_iff_dvd dest: dvd_mult_right)
    then show ?thesis by (auto simp: slot_def mod_eq_0_iff_dvd)
  qed
  then show ?thesis
    using in_table_idx [OF assms(1)] assms(2,3) by (simp add: in_table_def LEVEL_SIZE_step)
qed

section \<open>Well-formed tables\<close>

fun table_ok :: "nat \<Rightarrow> nat \<Rightarrow> entry list \<Rightarrow> bool" where
  "table_ok l b ts \<longleftrightarrow> length ts = 512 \<and>
     (\<forall>i \<in> {0 ..< length ts}. case ts ! i of
         Pte e \<Rightarrow> e = 0 \<or> l \<le> 3 \<and> leaf_ok l (slot l b i) e
       | Table child \<Rightarrow> 1 < l \<and> (if 1 < l then table_ok (l - 1) (slot l b i) child else False))"

definition entry_ok :: "nat \<Rightarrow> nat \<Rightarrow> entry \<Rightarrow> bool" where
  "entry_ok l a t = (case t of
       Pte e \<Rightarrow> e = 0 \<or> l \<le> 3 \<and> leaf_ok l a e
     | Table child \<Rightarrow> 1 < l \<and> table_ok (l - 1) a child)"

declare table_ok.simps [simp del]

lemma table_ok_iff:
  "table_ok l b ts \<longleftrightarrow> length ts = 512 \<and> (\<forall>i < 512. entry_ok l (slot l b i) (ts ! i))"
proof -
  have "(case t of Pte e \<Rightarrow> e = 0 \<or> l \<le> 3 \<and> leaf_ok l a e
       | Table child \<Rightarrow> 1 < l \<and> (if 1 < l then table_ok (l - 1) a child else False)) = entry_ok l a t" for a t
    by (auto simp: entry_ok_def split: entry.splits)
  then show ?thesis by (subst table_ok.simps) auto
qed

lemma table_okD: "table_ok l b ts \<Longrightarrow> i < 512 \<Longrightarrow> entry_ok l (slot l b i) (ts ! i)"
  by (simp add: table_ok_iff)

lemma table_ok_length: "table_ok l b ts \<Longrightarrow> length ts = 512"
  by (simp add: table_ok_iff)

lemma table_ok_update:
  "table_ok l b ts \<Longrightarrow> i < 512 \<Longrightarrow> entry_ok l (slot l b i) t \<Longrightarrow> table_ok l b (ts[i := t])"
  by (auto simp: table_ok_iff nth_list_update)

lemma entry_ok_empty [simp]: "entry_ok l a (Pte 0)"
  by (simp add: entry_ok_def)

lemma table_ok_empty [simp]: "table_ok l b (replicate 512 (Pte 0))"
  by (simp add: table_ok_iff)

text \<open>Following one entry of a table.\<close>

definition walk_entry :: "nat \<Rightarrow> entry \<Rightarrow> nat \<Rightarrow> u64" where
  "walk_entry l t x = (case t of
       Pte e \<Rightarrow> if e AND PTE_P = 0 then 0 else e
     | Table child \<Rightarrow> if l \<le> 1 then 0 else walk (l - 1) child x)"

lemma walk_eq: "walk l ts x = walk_entry l (ts ! level_idx x l) x"
  by (simp add: walk.simps [of l] walk_entry_def)

lemma walk_update:
  assumes "length ts = 512" "i < 512"
  shows "walk l (ts[i := t]) x = (if level_idx x l = i then walk_entry l t x else walk l ts x)"
  using assms by (simp add: walk_eq)

lemma walk_empty: "1 \<le> l \<Longrightarrow> l \<le> 4 \<Longrightarrow> walk l (replicate 512 (Pte 0)) x = 0"
  by (simp add: walk_eq walk_entry_def level_idx_less)

lemma walk_entry_leaf [simp]: "leaf_ok l a e \<Longrightarrow> walk_entry l' (Pte e) x = e" "walk_entry l' (Pte 0) x = 0"
  by (simp_all add: walk_entry_def leaf_ok_def)

text \<open>Tables held by one entry.\<close>

definition entry_tables :: "nat \<Rightarrow> entry \<Rightarrow> nat" where
  "entry_tables l t = (case t of Pte _ \<Rightarrow> 0 | Table child \<Rightarrow> if 1 < l then count_tables (l - 1) child else 0)"

lemma entry_tables_simps [simp]:
  "entry_tables l (Pte w) = 0" "1 < l \<Longrightarrow> entry_tables l (Table c) = count_tables (l - 1) c"
  by (simp_all add: entry_tables_def)

lemma count_tables_eq: "count_tables l ts = 1 + sum_list (map (entry_tables l) ts)"
proof (cases "1 < l")
  case True
  then have "map (entry_tables l) ts =
      map (\<lambda>e. case e of Pte _ \<Rightarrow> 0 | Table child \<Rightarrow> count_tables (l - 1) child) ts"
    using True by (intro map_cong refl) (simp add: entry_tables_def split: entry.splits)
  then show ?thesis using True by (simp only: count_tables.simps [of l] if_True)
next
  case False
  then have "entry_tables l = (\<lambda>_. 0)" by (auto simp: entry_tables_def split: entry.splits)
  then show ?thesis using False by (simp add: count_tables.simps [of l])
qed

lemma count_tables_update:
  assumes "i < length ts"
  shows "count_tables l (ts[i := t]) + entry_tables l (ts ! i) = count_tables l ts + entry_tables l t"
proof -
  have "entry_tables l (ts ! i) \<le> sum_list (map (entry_tables l) ts)"
    using assms by (simp add: member_le_sum_list)
  then show ?thesis
    using assms by (simp add: count_tables_eq map_update sum_list_update)
qed

section \<open>Frames\<close>

lemma fold_frames:
  assumes "\<And>t env. t \<in> set ts \<Longrightarrow> f t env = (fst env + g t :: nat, snd env)"
  shows "fold f ts env = (fst env + sum_list (map g ts), snd env :: address_space)"
  using assms by (induction ts arbitrary: env) (auto simp: prod_eq_iff)

lemma free_table_eq: "free_table l ts env = (fst env + count_tables l ts, snd env)"
proof (induction l arbitrary: ts env rule: less_induct)
  case (less l)
  show ?case
  proof (cases "1 < l")
    case True
    have "fold (\<lambda>e env. case e of Pte _ \<Rightarrow> env | Table child \<Rightarrow> free_table (l - 1) child env) ts env =
        (fst env + sum_list (map (entry_tables l) ts), snd env)"
      using True less.IH [of "l - 1"] by (intro fold_frames) (auto simp: entry_tables_def split: entry.splits)
    then show ?thesis using True by (simp add: free_table.simps [of l] pt_free_def count_tables_eq)
  next
    case False
    then show ?thesis by (simp add: free_table.simps [of l] count_tables.simps [of l] pt_free_def)
  qed
qed

lemma count_tables_empty [simp]: "count_tables l (replicate 512 (Pte 0)) = 1"
  by (simp add: count_tables_eq entry_tables_def sum_list_replicate)

text \<open>A mutation only widens the dirty range and touches nothing else of the address space.\<close>

definition dirtier :: "address_space \<Rightarrow> address_space \<Rightarrow> bool" where
  "dirtier as as' \<longleftrightarrow> min_dirty as' \<le> min_dirty as \<and> max_dirty as \<le> max_dirty as' \<and>
     (max_dirty as mod 4096 = 0 \<longrightarrow> max_dirty as' mod 4096 = 0) \<and>
     as_root as' = as_root as \<and> as_pins as' = as_pins as"

lemma dirtier_refl [simp]: "dirtier as as"
  by (simp add: dirtier_def)

lemma dirtier_trans [trans]: "dirtier a b \<Longrightarrow> dirtier b c \<Longrightarrow> dirtier a c"
  by (auto simp: dirtier_def)

lemma dirtier_mark [simp]: "e mod 4096 = 0 \<Longrightarrow> dirtier as (mark_dirty s e as)"
  by (auto simp: dirtier_def mark_dirty_def Let_def)

lemma env_dirty_simps [simp]: "fst (env_dirty s e env) = fst env" "snd (env_dirty s e env) = mark_dirty s e (snd env)"
  by (simp_all add: env_dirty_def)

lemma span_page: "1 \<le> l \<Longrightarrow> l \<le> 4 \<Longrightarrow> (a div LEVEL_SIZE l * LEVEL_SIZE l + LEVEL_SIZE l) mod 4096 = 0"
  using LEVEL_SIZE_page [of l] by (simp add: mod_eq_0_iff_dvd)

section \<open>Splitting a leaf\<close>

lemma slot_page:
  "b mod 4096 = 0 \<Longrightarrow> 1 \<le> l \<Longrightarrow> l \<le> 4 \<Longrightarrow> slot l b i mod 4096 = 0"
  using LEVEL_SIZE_page [of l] by (auto simp: slot_def mod_eq_0_iff_dvd)

lemma split_huge_ok:
  assumes "leaf_ok l a huge" "l = 2 \<or> l = 3" "a mod 4096 = 0" "a + LEVEL_SIZE l \<le> 2 ^ 52" "fst env \<noteq> 0"
  shows "\<exists>child. split_huge huge l env = Some (child, (fst env - 1, snd env)) \<and> table_ok (l - 1) a child
    \<and> count_tables (l - 1) child = 1 \<and> (\<forall>x. pbits (walk (l - 1) child x) = pbits huge)"
proof -
  let ?c = "\<lambda>i. Pte ((huge AND PTE_ADDR) + of_nat (i * LEVEL_SIZE (l - 1))
      OR ((huge AND NOT PTE_ADDR) AND NOT PTE_PS) OR (if l - 1 = 2 then PTE_PS else 0))"
  let ?child = "map ?c [0 ..< 512]"
  have l: "1 \<le> l - 1" "l - 1 \<le> 3" "1 < l" "l \<le> 4" using assms(2) by auto
  have leaf: "leaf_ok (l - 1) (slot (l - 1) a i) w \<and> pbits w = pbits huge" if "i < 512" "?c i = Pte w" for i w
  proof -
    have w: "w = of_nat (slot (l - 1) a i) OR pbits huge OR (if 2 \<le> l - 1 then PTE_PS else 0)"
      using that(2) assms(1,2) by (auto simp: leaf_ok_def pbits_def slot_def)
    have "i * LEVEL_SIZE (l - 1) < LEVEL_SIZE l"
      using that(1) l LEVEL_SIZE_step [of l] LEVEL_SIZE_pos [of "l - 1"] by simp
    then have a: "slot (l - 1) a i < 2 ^ 52" using assms(4) by (simp add: slot_def)
    note f = pbits_leaf [OF assms(1)]
    show ?thesis
      unfolding w using leaf_okI [OF _ a f refl] slot_page [of a "l - 1" i] assms(3) l by simp
  qed
  have "split_huge huge l env = Some (?child, (fst env - 1, snd env))"
    using assms by (auto simp: split_huge_def pt_alloc_def leaf_ok_def Let_def)
  moreover have "table_ok (l - 1) a ?child"
    using leaf l by (auto simp: table_ok_iff entry_ok_def)
  moreover have "count_tables (l - 1) ?child = 1"
    by (simp add: count_tables_eq entry_tables_def comp_def)
  moreover have "pbits (walk (l - 1) ?child x) = pbits huge" for x
  proof -
    have i: "level_idx x (l - 1) < 512" using l by (simp add: level_idx_less)
    show ?thesis using leaf [OF i refl] i by (auto simp: walk_eq)
  qed
  ultimately show ?thesis by blast
qed

section \<open>Installing a leaf\<close>

text \<open>
  What a mutation of a table of level \<open>l\<close> at \<open>b\<close> does: the table stays well-formed, the view of the
  addresses it translates becomes \<open>v\<close>, no frame is lost, at most \<open>n\<close> are used, and only the dirty range of
  the address space changes.
\<close>

definition becomes :: "nat \<Rightarrow> nat \<Rightarrow> nat \<Rightarrow> entry list \<Rightarrow> pt_env \<Rightarrow> entry list \<Rightarrow> pt_env \<Rightarrow> (nat \<Rightarrow> u64) \<Rightarrow> bool" where
  "becomes n l b ts env ts' env' v \<longleftrightarrow> table_ok l b ts' \<and>
     (\<forall>x. in_table l b x \<longrightarrow> pbits (walk l ts' x) = v x) \<and>
     fst env' + count_tables l ts' = fst env + count_tables l ts \<and>
     fst env \<le> fst env' + n \<and> dirtier (snd env) (snd env')"

lemma becomesI:
  assumes "table_ok l b ts'" "\<And>x. in_table l b x \<Longrightarrow> pbits (walk l ts' x) = v x"
    "fst env' + count_tables l ts' = fst env + count_tables l ts"
    "fst env \<le> fst env' + n" "dirtier (snd env) (snd env')"
  shows "becomes n l b ts env ts' env' v"
  using assms by (simp add: becomes_def)

lemma becomes_slot:
  assumes "becomes n (l - 1) (slot l b i) child env child' env' v" "table_ok l b ts"
    and l: "1 < l" "l \<le> 4" "i < 512"
    and frames: "fst env + count_tables (l - 1) child = fst env0 + entry_tables l (ts ! i)"
      "fst env0 \<le> fst env + m" "dirtier (snd env0) (snd env)"
    and v: "\<And>x. in_table l b x \<Longrightarrow> v' x = (if level_idx x l = i then v x else pbits (walk l ts x))"
  shows "becomes (n + m) l b ts env0 (ts[i := Table child']) env' v'"
proof (rule becomesI)
  have len: "length ts = 512" using assms(2) by (rule table_ok_length)
  show "table_ok l b (ts[i := Table child'])"
    using assms(1) l by (intro table_ok_update assms(2)) (simp_all add: entry_ok_def becomes_def)
  show "pbits (walk l (ts[i := Table child']) x) = v' x" if x: "in_table l b x" for x
  proof (cases "level_idx x l = i")
    case True
    then have "in_table (l - 1) (slot l b i) x" using in_table_child [OF x l(1,2)] by simp
    then show ?thesis
      using True assms(1) l x v by (simp add: walk_update len walk_entry_def becomes_def)
  next
    case False
    then show ?thesis using v [OF x] by (simp add: walk_update len l)
  qed
  show "fst env' + count_tables l (ts[i := Table child']) = fst env0 + count_tables l ts"
    using count_tables_update [of i ts l "Table child'"] frames(1) assms(1) l
    by (simp add: len entry_tables_def becomes_def)
  show "fst env0 \<le> fst env' + (n + m)" using frames(2) assms(1) by (simp add: becomes_def)
  show "dirtier (snd env0) (snd env')"
    using frames(3) assms(1) by (auto simp: becomes_def intro: dirtier_trans)
qed

definition installed :: "(nat \<Rightarrow> u64) \<Rightarrow> nat \<Rightarrow> nat \<Rightarrow> u64 \<Rightarrow> nat \<Rightarrow> u64" where
  "installed v addr level leaf x =
     (if addr \<le> x \<and> x < addr + LEVEL_SIZE level then pbits leaf else v x)"

lemma slot_in_table:
  "in_table l b x \<Longrightarrow> i < 512 \<Longrightarrow> slot l b i + LEVEL_SIZE l \<le> b + 512 * LEVEL_SIZE l"
  using mult_le_mono1 [of "i + 1" 512 "LEVEL_SIZE l"] by (simp add: slot_def)

lemma leaf_range_slot:
  assumes "in_table l b addr" "1 \<le> level" "level \<le> l" "l \<le> 4" "addr mod LEVEL_SIZE level = 0"
  shows "slot l b (level_idx addr l) \<le> addr"
    "addr + LEVEL_SIZE level \<le> slot l b (level_idx addr l) + LEVEL_SIZE l"
proof -
  let ?s = "slot l b (level_idx addr l)"
  have r: "?s \<le> addr" "addr < ?s + LEVEL_SIZE l" using in_table_idx [OF assms(1)] assms by auto
  have d: "LEVEL_SIZE level dvd LEVEL_SIZE l"
    using assms by (simp add: LEVEL_SIZE_eq le_imp_power_dvd)
  have "LEVEL_SIZE l dvd ?s"
    using assms(1) by (auto simp: slot_def in_table_def mod_eq_0_iff_dvd dest: dvd_mult_right)
  with d have "LEVEL_SIZE level dvd ?s" by (rule dvd_trans)
  then obtain q where q: "addr = LEVEL_SIZE level * q" "\<exists>p. ?s + LEVEL_SIZE l = LEVEL_SIZE level * p"
    using assms(5) d by (metis dvd_def dvd_add mod_0_imp_dvd)
  then obtain p where p: "?s + LEVEL_SIZE l = LEVEL_SIZE level * p" by blast
  have "q < p" using r(2) q(1) p by simp
  then have "LEVEL_SIZE level * (q + 1) \<le> LEVEL_SIZE level * p" by (intro mult_le_mono2) simp
  then show "addr + LEVEL_SIZE level \<le> ?s + LEVEL_SIZE l" using q(1) p by simp
  show "?s \<le> addr" by (rule r(1))
qed

lemma install_target:
  assumes "table_ok l b ts" "in_table l b addr" "1 \<le> l" "l \<le> 3" "addr mod LEVEL_SIZE l = 0"
    "leaf = 0 \<or> leaf_ok l addr leaf"
  shows "\<exists>ts' env'. install_from l ts addr l leaf env = Some (ts', env') \<and>
    becomes 0 l b ts env ts' env' (installed (\<lambda>x. pbits (walk l ts x)) addr l leaf)"
proof -
  let ?i = "level_idx addr l"
  have i: "?i < 512" using assms by (simp add: level_idx_less)
  have len: "length ts = 512" using assms(1) by (rule table_ok_length)
  have addr: "slot l b ?i = addr"
    using leaf_range_slot [OF assms(2), of l] assms by simp
  define env' where "env' = (case ts ! ?i of Pte _ \<Rightarrow> env
      | Table sub \<Rightarrow> if 1 < l then free_table (l - 1) sub env else env)"
  have run: "install_from l ts addr l leaf env = Some (ts[?i := Pte leaf], env')"
    by (simp add: install_from.simps [of l] env'_def Let_def)
  have e: "env' = (fst env + entry_tables l (ts ! ?i), snd env)"
    by (auto simp: env'_def entry_tables_def free_table_eq split: entry.splits)
  have "becomes 0 l b ts env (ts[?i := Pte leaf]) env' (installed (\<lambda>x. pbits (walk l ts x)) addr l leaf)"
  proof (rule becomesI)
    show "table_ok l b (ts[?i := Pte leaf])"
      using assms i by (intro table_ok_update) (auto simp: entry_ok_def addr)
    show "pbits (walk l (ts[?i := Pte leaf]) x) = installed (\<lambda>x. pbits (walk l ts x)) addr l leaf x"
      if x: "in_table l b x" for x
      using in_table_idx(3) [OF x _ _ i] assms(3,4,6) i
      by (auto simp: walk_update len installed_def addr)
    show "fst env' + count_tables l (ts[?i := Pte leaf]) = fst env + count_tables l ts"
      using count_tables_update [of ?i ts l "Pte leaf"] i by (simp add: e len entry_tables_def)
  qed (simp_all add: e)
  with run show ?thesis by blast
qed

lemma install_from_ok:
  assumes "table_ok l b ts" "in_table l b addr" "1 \<le> level" "level \<le> l" "l \<le> 4" "level \<le> 3"
    "b + 512 * LEVEL_SIZE l \<le> 2 ^ 52" "addr mod LEVEL_SIZE level = 0" "leaf = 0 \<or> leaf_ok level addr leaf"
    "l - level \<le> fst env"
  shows "\<exists>ts' env'. install_from l ts addr level leaf env = Some (ts', env') \<and>
    becomes (l - level) l b ts env ts' env' (installed (\<lambda>x. pbits (walk l ts x)) addr level leaf)"
  using assms
proof (induction l arbitrary: b ts env)
  case 0
  then show ?case by simp
next
  case (Suc m)
  let ?l = "Suc m" and ?i = "level_idx addr (Suc m)"
  show ?case
  proof (cases "level = ?l")
    case True
    then show ?thesis using install_target [OF Suc.prems(1,2)] Suc.prems by auto
  next
    case False
    then have m: "level \<le> m" "1 < ?l" "?l \<le> 4" using Suc.prems by simp_all
    have i: "?i < 512" using m by (simp add: level_idx_less)
    let ?s = "slot ?l b ?i"
    have child: "in_table m ?s addr" using in_table_child [OF Suc.prems(2) m(2,3)] by simp
    have step: "LEVEL_SIZE ?l = 512 * LEVEL_SIZE m" using LEVEL_SIZE_step [OF m(2,3)] by simp
    have s52: "?s + 512 * LEVEL_SIZE m \<le> 2 ^ 52"
      using slot_in_table [OF Suc.prems(2) i] Suc.prems(7) step by simp
    have len: "length ts = 512" using Suc.prems(1) by (rule table_ok_length)
    note range = leaf_range_slot [OF Suc.prems(2,3,4,5,8)]
    have v: "installed (\<lambda>x. pbits (walk ?l ts x)) addr level leaf x =
        (if level_idx x ?l = ?i then installed w addr level leaf x else pbits (walk ?l ts x))"
      if x: "in_table ?l b x" and w: "\<And>x. in_table ?l b x \<Longrightarrow> level_idx x ?l = ?i \<Longrightarrow> w x = pbits (walk ?l ts x)"
      for x w
      using in_table_idx(3) [OF x _ _ i] m range w [OF x] by (auto simp: installed_def)
    have up: "becomes (m - level + k) ?l b ts env (ts[?i := Table c']) e'
        (installed (\<lambda>x. pbits (walk ?l ts x)) addr level leaf)"
      if "becomes (m - level) m ?s c e c' e' (installed (\<lambda>x. pbits (walk m c x)) addr level leaf)"
        "fst e + count_tables m c = fst env + entry_tables ?l (ts ! ?i)" "fst env \<le> fst e + k"
        "dirtier (snd env) (snd e)"
        "\<And>x. level_idx x ?l = ?i \<Longrightarrow> pbits (walk m c x) = pbits (walk ?l ts x)"
      for k c e c' e'
      using becomes_slot [of "m - level" ?l b ?i c e c' e' _ ts env k, OF _ Suc.prems(1) m(2,3) i _ that(3,4) v]
        that by simp
    have frames: "m - level \<le> fst env - 1" using Suc.prems(10) m(1) by linarith
    note IH = Suc.IH [OF _ child Suc.prems(3) m(1) _ Suc.prems(6) s52 Suc.prems(8,9)]
    consider (absent) "ts ! ?i = Pte 0" | (huge) e where "ts ! ?i = Pte e" "?l \<le> 3" "leaf_ok ?l ?s e"
      | (tab) c where "ts ! ?i = Table c" "table_ok m ?s c"
      using table_okD [OF Suc.prems(1) i] by (auto simp: entry_ok_def split: entry.splits)
    then show ?thesis
    proof cases
      case absent
      show ?thesis
      proof (cases "leaf = 0")
        case True
        then have "install_from ?l ts addr level leaf env = Some (ts, env)"
          using absent m by (simp add: install_from.simps [of ?l] Let_def)
        moreover have "pbits (walk ?l ts x) = 0" if "in_table ?l b x" "level_idx x ?l = ?i" for x
          using that absent by (simp add: walk_eq)
        then have "becomes (?l - level) ?l b ts env ts env (installed (\<lambda>x. pbits (walk ?l ts x)) addr level leaf)"
          using v [of _ "\<lambda>_. 0"] True Suc.prems(1) by (intro becomesI) (auto simp: installed_def)
        ultimately show ?thesis by blast
      next
        case False
        let ?e = "(fst env - 1, snd env)" and ?c = "replicate 512 (Pte 0)"
        have pos: "fst env \<noteq> 0" using Suc.prems(10) m by simp
        obtain c e' where c: "install_from m ?c addr level leaf ?e = Some (c, e')"
          "becomes (m - level) m ?s ?c ?e c e' (installed (\<lambda>x. pbits (walk m ?c x)) addr level leaf)"
          using IH [of ?c ?e] frames m by auto
        have "becomes (m - level + 1) ?l b ts env (ts[?i := Table c]) e'
            (installed (\<lambda>x. pbits (walk ?l ts x)) addr level leaf)"
          by (rule up [OF c(2)]) (use m pos absent in \<open>simp_all add: entry_tables_def walk_empty walk_eq [of ?l]\<close>)
        then show ?thesis
          using c(1) absent m False pos by (simp add: install_from.simps [of ?l] Let_def pt_alloc_def Suc_diff_le)
      qed
    next
      case huge
      have l23: "?l = 2 \<or> ?l = 3" and pos: "fst env \<noteq> 0" using huge(2) m Suc.prems(10) by auto
      have "?s mod 4096 = 0"
        using child LEVEL_SIZE_page [of m] m by (auto simp: in_table_def mod_eq_0_iff_dvd intro: dvd_trans)
      then obtain d where d: "split_huge e ?l env = Some (d, (fst env - 1, snd env))" "table_ok m ?s d"
        "count_tables m d = 1" "\<And>x. pbits (walk m d x) = pbits e"
        using split_huge_ok [OF huge(3) l23 _ _ pos] s52 step by auto
      let ?h = "addr div LEVEL_SIZE ?l * LEVEL_SIZE ?l"
      let ?e = "env_dirty ?h (?h + LEVEL_SIZE ?l) (fst env - 1, snd env)"
      obtain c e' where c: "install_from m d addr level leaf ?e = Some (c, e')"
        "becomes (m - level) m ?s d ?e c e' (installed (\<lambda>x. pbits (walk m d x)) addr level leaf)"
        using IH [OF d(2), of ?e] frames m by auto
      have "becomes (m - level + 1) ?l b ts env (ts[?i := Table c]) e'
          (installed (\<lambda>x. pbits (walk ?l ts x)) addr level leaf)"
        by (rule up [OF c(2)]) (use m pos huge d span_page [of ?l addr] in \<open>simp_all add: entry_tables_def walk_eq [of ?l]\<close>)
      moreover have "e AND PTE_P \<noteq> 0" "e AND PTE_PS \<noteq> 0"
        using huge(3) m by (auto simp: leaf_ok_def)
      ultimately show ?thesis
        using c(1) huge m pos d(1) by (simp add: install_from.simps [of ?l] Let_def Suc_diff_le)
    next
      case tab
      obtain c' e' where c: "install_from m c addr level leaf env = Some (c', e')"
        "becomes (m - level) m ?s c env c' e' (installed (\<lambda>x. pbits (walk m c x)) addr level leaf)"
        using IH [OF tab(2), of env] le_trans [OF frames diff_le_self] m by auto
      have "becomes (m - level + 1) ?l b ts env (ts[?i := Table c']) e'
          (installed (\<lambda>x. pbits (walk ?l ts x)) addr level leaf)"
        by (rule up [OF c(2)]) (use m tab in \<open>simp_all add: entry_tables_def walk_eq [of ?l] walk_entry_def\<close>)
      then show ?thesis
        using c(1) tab m by (simp add: install_from.simps [of ?l] Let_def Suc_diff_le)
    qed
  qed
qed

section \<open>Merging\<close>

lemma merge_scan_stuck: "merge_scan cl first i es False False = (False, False)"
  by (cases es) simp_all

lemma merge_scan_absent: "fst (merge_scan cl first i es aa al) \<longleftrightarrow> aa \<and> (\<forall>t \<in> set es. entry_word t AND PTE_P = 0)"
  by (induction es arbitrary: i aa al) (auto simp: Let_def)

definition uniform :: "nat \<Rightarrow> u64 \<Rightarrow> u64 \<Rightarrow> bool" where
  "uniform cl first c \<longleftrightarrow> c AND PTE_P \<noteq> 0 \<and> (2 \<le> cl \<longrightarrow> c AND PTE_PS \<noteq> 0) \<and>
     c AND NOT PTE_ADDR = first AND NOT PTE_ADDR"

lemma merge_scan_leaf:
  "snd (merge_scan cl first i es aa al) \<Longrightarrow> al \<and> (\<forall>t \<in> set es. uniform cl first (entry_word t))"
proof (induction es arbitrary: i aa al)
  case Nil
  then show ?case by simp
next
  case (Cons t es)
  let ?al = "al \<and> \<not> (2 \<le> cl \<and> entry_word t AND PTE_PS = 0
             \<or> entry_word t AND NOT PTE_ADDR \<noteq> first AND NOT PTE_ADDR
             \<or> entry_word t AND PTE_ADDR \<noteq> (first AND PTE_ADDR) + of_nat (i * LEVEL_SIZE cl))"
  have go: "\<not> (\<not> aa \<and> \<not> al)"
  proof
    assume "\<not> aa \<and> \<not> al"
    with Cons.prems show False by (simp add: merge_scan_stuck del: merge_scan.simps)
  qed
  have present: "entry_word t AND PTE_P \<noteq> 0"
  proof
    assume "entry_word t AND PTE_P = 0"
    with Cons.prems go have "snd (merge_scan cl first (i + 1) es aa False)"
      by (simp only: merge_scan.simps Let_def if_False if_True simp_thms)
    from Cons.IH [OF this] show False by blast
  qed
  have "snd (merge_scan cl first (i + 1) es False ?al)"
    using Cons.prems go present by (simp only: merge_scan.simps Let_def if_False)
  then have rest: ?al "\<forall>t \<in> set es. uniform cl first (entry_word t)"
    using Cons.IH by blast+
  then have "uniform cl first (entry_word t)" using present unfolding uniform_def by blast
  with rest show ?case by simp
qed

lemma all_absent_view:
  assumes "table_ok l b ts" "1 \<le> l" "l \<le> 4" "\<forall>t \<in> set ts. entry_word t AND PTE_P = 0"
  shows "walk l ts x = 0" "count_tables l ts = 1"
proof -
  have "t = Pte 0" if t: "t \<in> set ts" for t
  proof -
    obtain i where "i < 512" "t = ts ! i" using t table_ok_length [OF assms(1)] by (auto simp: in_set_conv_nth)
    then have "entry_ok l (slot l b i) t" using table_okD [OF assms(1)] by simp
    moreover have "intermediate_flags AND PTE_P \<noteq> 0"
      by (simp add: intermediate_flags_def PTE_P_def PTE_RW_def PTE_US_def)
    ultimately show ?thesis
      using assms(4) t by (auto simp: entry_ok_def entry_word_def leaf_ok_def split: entry.splits)
  qed
  then have "ts = replicate 512 (Pte 0)"
    using table_ok_length [OF assms(1)] by (intro replicate_eqI)
  then show "walk l ts x = 0" "count_tables l ts = 1" using walk_empty assms by simp_all
qed

lemma all_leaf_view:
  assumes "table_ok l b ts" "1 \<le> l" "l \<le> 3" "\<forall>t \<in> set ts. uniform l (entry_word (ts ! 0)) (entry_word t)"
  shows "leaf_ok l b (entry_word (ts ! 0))" "count_tables l ts = 1"
    "pbits (walk l ts x) = pbits (entry_word (ts ! 0))"
proof -
  have leaf: "\<exists>w. ts ! i = Pte w \<and> leaf_ok l (slot l b i) w \<and> pbits w = pbits (entry_word (ts ! 0))"
    if "i < 512" for i
  proof -
    have "ts ! i \<in> set ts" using that table_ok_length [OF assms(1)] by simp
    then have u: "uniform l (entry_word (ts ! 0)) (entry_word (ts ! i))" using assms(4) by blast
    have "intermediate_flags AND PTE_PS = 0"
      by (simp add: intermediate_flags_def PTE_P_def PTE_RW_def PTE_US_def PTE_PS_def)
    then show ?thesis
      using u table_okD [OF assms(1) that]
      by (cases "ts ! i") (auto simp: uniform_def entry_word_def entry_ok_def pbits_def)
  qed
  have 0: "slot l b 0 = b" by (simp add: slot_def)
  show "leaf_ok l b (entry_word (ts ! 0))" using leaf [of 0] by (auto simp: entry_word_def 0)
  have "entry_tables l t = 0" if "t \<in> set ts" for t
    using that leaf table_ok_length [OF assms(1)] by (force simp: in_set_conv_nth entry_tables_def)
  then show "count_tables l ts = 1" by (simp add: count_tables_eq)
  show "pbits (walk l ts x) = pbits (entry_word (ts ! 0))"
    using leaf [of "level_idx x l"] assms(2,3) level_idx_less [of l x] by (auto simp: walk_eq)
qed

text \<open>A merge keeps the view of the whole table.\<close>

lemma becomes_same:
  "table_ok l b ts \<Longrightarrow> becomes 0 l b ts env ts env (\<lambda>x. pbits (walk l ts x))"
  by (simp add: becomes_def)

lemma merge_slot:
  assumes "table_ok l b ts" "1 < l" "l \<le> 4" "i < 512" "ts ! i = Table child" "count_tables (l - 1) child = 1"
    "entry_ok l (slot l b i) (Pte w)" "\<And>x. pbits (walk (l - 1) child x) = pbits (walk_entry l (Pte w) x)"
    "dirtier (snd env) as'"
  shows "becomes 0 l b ts env (ts[i := Pte w]) (fst env + 1, as') (\<lambda>x. pbits (walk l ts x))"
proof (rule becomesI)
  have len: "length ts = 512" using assms(1) by (rule table_ok_length)
  show "table_ok l b (ts[i := Pte w])" using assms by (intro table_ok_update) auto
  have "walk_entry l (Table child) x = walk (l - 1) child x" for x using assms(2) by (simp add: walk_entry_def)
  then show "pbits (walk l (ts[i := Pte w]) x) = pbits (walk l ts x)" for x
    using assms(4,5,8) len by (auto simp: walk_update walk_eq [of l ts])
  show "fst (fst env + 1, as') + count_tables l (ts[i := Pte w]) = fst env + count_tables l ts"
    using count_tables_update [of i ts l "Pte w"] assms by (simp add: len entry_tables_def)
qed (use assms in auto)

lemma try_merge_child_ok:
  assumes "table_ok l b ts" "in_table l b addr" "1 < l" "l \<le> 4" "b + 512 * LEVEL_SIZE l \<le> 2 ^ 52"
    and run: "try_merge_child ts l addr env = (go, ts', env')"
  shows "becomes 0 l b ts env ts' env' (\<lambda>x. pbits (walk l ts x))"
proof -
  let ?i = "level_idx addr l"
  have i: "?i < 512" using assms by (simp add: level_idx_less)
  show ?thesis
  proof (cases "ts ! ?i")
    case (Pte e)
    then show ?thesis using run assms(1) by (simp add: try_merge_child_def becomes_same)
  next
    case (Table child)
    let ?s = "slot l b ?i" and ?f = "entry_word (child ! 0)"
    have c: "table_ok (l - 1) ?s child" using table_okD [OF assms(1) i] Table by (simp add: entry_ok_def)
    obtain aa al where scan: "merge_scan (l - 1) ?f 0 child True True = (aa, al)" by fastforce
    have aa: "aa \<longleftrightarrow> (\<forall>t \<in> set child. entry_word t AND PTE_P = 0)"
      using merge_scan_absent [of "l - 1" ?f 0 child True True] scan by simp
    have al: "al \<Longrightarrow> \<forall>t \<in> set child. uniform (l - 1) ?f (entry_word t)"
      using merge_scan_leaf [of "l - 1" ?f 0 child True True] scan by simp
    have l1: "1 \<le> l - 1" "l - 1 \<le> 4" "l - 1 \<le> 3" using assms by auto
    define as' where "as' = mark_dirty (addr div LEVEL_SIZE l * LEVEL_SIZE l)
        (addr div LEVEL_SIZE l * LEVEL_SIZE l + LEVEL_SIZE l) (snd env)"
    have dirt: "dirtier (snd env) as'" using span_page [of l addr] assms(3,4) by (simp add: as'_def)
    have env: "env_dirty (addr div LEVEL_SIZE l * LEVEL_SIZE l)
        (addr div LEVEL_SIZE l * LEVEL_SIZE l + LEVEL_SIZE l) (pt_free env) = (fst env + 1, as')"
      by (simp add: env_dirty_def pt_free_def as'_def)
    note run' = run [unfolded try_merge_child_def Let_def Table entry.case scan prod.case env]
    consider "aa" "ts' = ts[?i := Pte 0]" "env' = (fst env + 1, as')"
      | "al" "l \<le> 3" "ts' = ts[?i := Pte ((?f AND PTE_ADDR) OR (?f AND NOT PTE_ADDR) OR PTE_PS)]" "env' = (fst env + 1, as')"
      | "ts' = ts" "env' = env"
      using run' by (auto split: if_splits)
    then show ?thesis
    proof cases
      case 1
      note v = all_absent_view [OF c l1(1,2)]
      show ?thesis
        unfolding 1(2,3) by (rule merge_slot [OF assms(1,3,4) i Table _ _ _ dirt]) (use v aa 1(1) in auto)
    next
      case 2
      note v = all_leaf_view [OF c l1(1,3) al [OF 2(1)]]
      let ?w = "(?f AND PTE_ADDR) OR (?f AND NOT PTE_ADDR) OR PTE_PS"
      have "0 < LEVEL_SIZE l" using assms(3,4) by simp
      then have s52: "?s < 2 ^ 52" using slot_in_table [OF assms(2) i] assms(5) by linarith
      have s: "?s mod 4096 = 0"
        using in_table_child [OF assms(2-4)] LEVEL_SIZE_page [of "l - 1"] l1
        by (auto simp: in_table_def mod_eq_0_iff_dvd intro: dvd_trans)
      have "(?f AND PTE_ADDR) OR (?f AND NOT PTE_ADDR) OR PTE_PS = of_nat ?s OR pbits ?f OR PTE_PS"
        using v(1) by (auto simp: leaf_ok_def u64_eq_iff bit_or_iff bit_and_iff bit_not_iff bit_pbits
            bit_PTE_PS bit_PTE_ADDR)
      then have w: "leaf_ok l ?s ?w" "pbits ?w = pbits ?f"
        using leaf_okI [OF s s52 pbits_leaf [OF v(1)], of PTE_PS l] assms(3) by auto
      show ?thesis
        unfolding 2(3,4)
        by (rule merge_slot [OF assms(1,3,4) i Table _ _ _ dirt]) (use v w 2(2) in \<open>auto simp: entry_ok_def\<close>)
    next
      case 3
      then show ?thesis using assms(1) by (simp add: becomes_same)
    qed
  qed
qed

lemma becomes_trans:
  assumes "becomes n l b ts env ts1 env1 v" "becomes m l b ts1 env1 ts2 env2 v'"
  shows "becomes (n + m) l b ts env ts2 env2 v'"
  using assms by (auto simp: becomes_def intro: dirtier_trans)

lemma becomes_cong: "becomes n l b ts env ts' env' v \<Longrightarrow> (\<And>x. in_table l b x \<Longrightarrow> v x = v' x) \<Longrightarrow>
    becomes n l b ts env ts' env' v'"
  by (simp add: becomes_def)

lemma merge_from_ok:
  assumes "table_ok l b ts" "in_table l b addr" "1 \<le> l" "l \<le> 4" "b + 512 * LEVEL_SIZE l \<le> 2 ^ 52"
    "merge_from l ts addr env = (go, ts', env')"
  shows "becomes 0 l b ts env ts' env' (\<lambda>x. pbits (walk l ts x))"
  using assms
proof (induction l arbitrary: b ts env go ts' env')
  case 0
  then show ?case by simp
next
  case (Suc m)
  let ?l = "Suc m" and ?i = "level_idx addr (Suc m)"
  show ?case
  proof (cases "1 < ?l \<and> (\<exists>child. ts ! ?i = Table child)")
    case False
    then have "ts' = ts \<and> env' = env"
      using Suc.prems(6) by (auto simp: merge_from.simps [of ?l] split: if_splits entry.splits)
    then show ?thesis using Suc.prems(1) by (simp add: becomes_same)
  next
    case True
    then obtain child where l: "1 < ?l" "?l \<le> 4" and t: "ts ! ?i = Table child" using Suc.prems(4) by auto
    have i: "?i < 512" using l by (simp add: level_idx_less)
    obtain go1 c1 env1 where r: "merge_from m child addr env = (go1, c1, env1)" by (metis prod_cases3)
    have s: "slot ?l b ?i + 512 * LEVEL_SIZE m \<le> 2 ^ 52"
      using slot_in_table [OF Suc.prems(2) i] Suc.prems(5) LEVEL_SIZE_step [OF l] by simp
    have "table_ok m (slot ?l b ?i) child" using table_okD [OF Suc.prems(1) i] t by (simp add: entry_ok_def)
    then have "becomes 0 m (slot ?l b ?i) child env c1 env1 (\<lambda>x. pbits (walk m child x))"
      using Suc.IH [OF _ _ _ _ s r] in_table_child [OF Suc.prems(2) l] l by simp
    then have b1: "becomes 0 ?l b ts env (ts[?i := Table c1]) env1 (\<lambda>x. pbits (walk ?l ts x))"
      using becomes_slot [of 0 ?l b ?i child env c1 env1 "\<lambda>x. pbits (walk m child x)" ts env 0
          "\<lambda>x. pbits (walk ?l ts x)", OF _ Suc.prems(1) l i] t l
      by (simp add: entry_tables_def walk_eq [of ?l] walk_entry_def)
    show ?thesis
    proof (cases go1)
      case False
      then show ?thesis using b1 Suc.prems(6) r t l by (simp add: merge_from.simps [of ?l])
    next
      case True
      then have r2: "try_merge_child (ts[?i := Table c1]) ?l addr env1 = (go, ts', env')"
        using Suc.prems(6) r t l by (simp add: merge_from.simps [of ?l])
      have "table_ok ?l b (ts[?i := Table c1])" using b1 by (simp add: becomes_def)
      from becomes_trans [OF b1 try_merge_child_ok [OF this Suc.prems(2) l Suc.prems(5) r2]] b1
      show ?thesis by (auto simp: becomes_def)
    qed
  qed
qed

section \<open>Address spaces\<close>

definition as_ok :: "address_space \<Rightarrow> bool" where
  "as_ok as \<longleftrightarrow> table_ok 4 0 (as_root as)"

text \<open>What an address space grants on the page of an address below \<open>2 ^ 48\<close>; 0 is absent.\<close>

definition page_bits :: "address_space \<Rightarrow> nat \<Rightarrow> u64" where
  "page_bits as x = pbits (walk 4 (as_root as) x)"

definition as_becomes :: "nat \<Rightarrow> pt_env \<Rightarrow> pt_env \<Rightarrow> (nat \<Rightarrow> u64) \<Rightarrow> bool" where
  "as_becomes n env env' v \<longleftrightarrow> as_ok (snd env') \<and> (\<forall>x < 2 ^ 48. page_bits (snd env') x = v x) \<and>
     fst env' + as_table_count (snd env') = fst env + as_table_count (snd env) \<and>
     fst env \<le> fst env' + n \<and> min_dirty (snd env') \<le> min_dirty (snd env) \<and>
     max_dirty (snd env) \<le> max_dirty (snd env') \<and> as_pins (snd env') = as_pins (snd env) \<and>
     (max_dirty (snd env) mod 4096 = 0 \<longrightarrow> max_dirty (snd env') mod 4096 = 0)"

lemma in_table_4: "in_table 4 0 x \<longleftrightarrow> x < 2 ^ 48"
  by (simp add: in_table_def LEVEL_SIZE_eq)

lemma becomes_root:
  "becomes n 4 0 (as_root (snd env)) env ts' env' v \<Longrightarrow>
     as_becomes n env (fst env', (snd env')\<lparr>as_root := ts'\<rparr>) v"
  by (simp add: becomes_def as_becomes_def as_ok_def page_bits_def as_table_count_def in_table_4 dirtier_def)

lemma as_becomes_trans:
  "as_becomes n env env1 v \<Longrightarrow> as_becomes m env1 env2 v' \<Longrightarrow> as_becomes (n + m) env env2 v'"
  by (simp add: as_becomes_def)

lemma as_becomes_cong:
  "as_becomes n env env' v \<Longrightarrow> (\<And>x. x < 2 ^ 48 \<Longrightarrow> v x = v' x) \<Longrightarrow> as_becomes n env env' v'"
  by (simp add: as_becomes_def)

lemma as_becomes_mono: "as_becomes n env env' v \<Longrightarrow> n \<le> m \<Longrightarrow> as_becomes m env env' v"
  by (auto simp: as_becomes_def)

lemma as_becomes_ok: "as_becomes n env env' v \<Longrightarrow> as_ok (snd env')"
  by (simp add: as_becomes_def)

lemma try_merge_path_ok:
  assumes "as_ok (snd env)" "addr < 2 ^ 48"
  shows "as_becomes 0 env (try_merge_path addr env) (page_bits (snd env))"
proof -
  obtain go ts' env' where r: "merge_from 4 (as_root (snd env)) addr env = (go, ts', env')" by (metis prod_cases3)
  have "becomes 0 4 0 (as_root (snd env)) env ts' env' (\<lambda>x. pbits (walk 4 (as_root (snd env)) x))"
    using merge_from_ok [OF _ _ _ _ _ r, of 0] assms by (simp add: as_ok_def in_table_4 LEVEL_SIZE_eq)
  from becomes_root [OF this] show ?thesis by (simp add: try_merge_path_def r page_bits_def [abs_def])
qed

lemma install_leaf_ok:
  assumes "as_ok (snd env)" "addr < 2 ^ 48" "1 \<le> level" "level \<le> 3" "addr mod LEVEL_SIZE level = 0"
    "leaf = 0 \<or> leaf_ok level addr leaf" "3 \<le> fst env"
  shows "\<exists>env'. install_leaf addr level leaf env = Some env' \<and>
    as_becomes 3 env env' (installed (page_bits (snd env)) addr level leaf)"
proof -
  have "4 - level \<le> fst env" using assms(3,7) by linarith
  then obtain ts' env' where r: "install_from 4 (as_root (snd env)) addr level leaf env = Some (ts', env')"
    "becomes (4 - level) 4 0 (as_root (snd env)) env ts' env'
       (installed (\<lambda>x. pbits (walk 4 (as_root (snd env)) x)) addr level leaf)"
    using install_from_ok [of 4 0 "as_root (snd env)" addr level leaf env] assms
    by (auto simp: as_ok_def in_table_4 LEVEL_SIZE_eq)
  have "as_becomes 3 env (fst env', (snd env')\<lparr>as_root := ts'\<rparr>) (installed (page_bits (snd env)) addr level leaf)"
    using as_becomes_mono [OF becomes_root [OF r(2)], of 3] assms(3)
    by (simp add: page_bits_def [abs_def])
  then show ?thesis using r(1) assms(3-5) by (simp add: install_leaf_def)
qed

section \<open>Flagging a range\<close>

text \<open>The leaf bits \<open>leaf_flags_to_pte\<close> produces: 0 or present, with no address and no size bit.\<close>

definition leaf_bits :: "u64 \<Rightarrow> bool" where
  "leaf_bits f \<longleftrightarrow> f = 0 \<or> bit f 0 \<and> f AND PTE_ADDR = 0 \<and> \<not> bit f 7"

definition flagged :: "(nat \<Rightarrow> u64) \<Rightarrow> nat \<Rightarrow> nat \<Rightarrow> u64 \<Rightarrow> nat \<Rightarrow> u64" where
  "flagged v a end f x = (if a \<le> x \<and> x < end then f else v x)"

lemma leaf_bits_word:
  assumes "leaf_bits f" "a mod 4096 = 0" "a < 2 ^ 52" "ps = (if 2 \<le> l then PTE_PS else 0)"
  defines "w \<equiv> if f AND PTE_P \<noteq> 0 then of_nat a OR f OR ps else 0"
  shows "w = 0 \<or> leaf_ok l a w" "pbits w = f"
proof -
  consider "f = 0" | "bit f 0" "f AND PTE_ADDR = 0" "\<not> bit f 7" using assms(1) by (auto simp: leaf_bits_def)
  then have "(w = 0 \<or> leaf_ok l a w) \<and> pbits w = f"
  proof cases
    case 1
    then show ?thesis by (simp add: w_def)
  next
    case 2
    then have "w = of_nat a OR f OR ps" by (simp add: w_def and_PTE_P)
    then show ?thesis using leaf_okI [OF assms(2,3) 2 assms(4)] by simp
  qed
  then show "w = 0 \<or> leaf_ok l a w" "pbits w = f" by auto
qed

lemma flag_step:
  assumes ok: "as_ok (snd env)" and f: "leaf_bits f" and level: "1 \<le> level" "level \<le> 3"
    and a: "a mod 4096 = 0" "a mod LEVEL_SIZE level = 0" "a + LEVEL_SIZE level \<le> end" "end \<le> 2 ^ 48"
    and frames: "3 * ((end - a) div 4096) \<le> fst env"
    and ps: "ps = (if 2 \<le> level then PTE_PS else 0)"
    and rest: "\<And>env. as_ok (snd env) \<Longrightarrow> 3 * ((end - (a + LEVEL_SIZE level)) div 4096) \<le> fst env \<Longrightarrow>
      \<exists>env'. loop env = Some env' \<and> as_becomes (3 * ((end - (a + LEVEL_SIZE level)) div 4096)) env env'
        (flagged (page_bits (snd env)) (a + LEVEL_SIZE level) end f)"
  shows "\<exists>env'. Option.bind (install_leaf a level (if f AND PTE_P \<noteq> 0 then of_nat a OR f OR ps else 0) env) loop = Some env'
    \<and> as_becomes (3 * ((end - a) div 4096)) env env' (flagged (page_bits (snd env)) a end f)"
proof -
  let ?s = "LEVEL_SIZE level" and ?w = "if f AND PTE_P \<noteq> 0 then of_nat a OR f OR ps else 0"
  obtain k where k: "?s = 4096 * k" using LEVEL_SIZE_page [of level] level by (auto simp: mod_eq_0_iff_dvd)
  have "0 < ?s" using level by simp
  with k have "0 < k" by simp
  have "(end - a) div 4096 = (end - (a + ?s)) div 4096 + k"
  proof -
    have "end - a = (end - (a + ?s)) + k * 4096" using a(3) k by simp
    then show ?thesis by (metis div_mult_self3 zero_neq_numeral add.commute)
  qed
  with \<open>0 < k\<close> have n: "3 * ((end - (a + ?s)) div 4096) + 3 \<le> 3 * ((end - a) div 4096)" by simp
  have a48: "a < 2 ^ 48" using a \<open>0 < ?s\<close> by linarith
  note w = leaf_bits_word [OF f a(1) _ ps]
  obtain env1 where e1: "install_leaf a level ?w env = Some env1"
    "as_becomes 3 env env1 (installed (page_bits (snd env)) a level ?w)"
    using install_leaf_ok [OF ok a48 level a(2) w(1)] n frames a48 by auto
  have "3 * ((end - (a + ?s)) div 4096) \<le> fst env1" using e1(2) n frames by (simp add: as_becomes_def)
  then obtain env2 where e2: "loop env1 = Some env2"
    "as_becomes (3 * ((end - (a + ?s)) div 4096)) env1 env2 (flagged (page_bits (snd env1)) (a + ?s) end f)"
    using rest [OF as_becomes_ok [OF e1(2)]] by blast
  have "flagged (page_bits (snd env1)) (a + ?s) end f x = flagged (page_bits (snd env)) a end f x" if "x < 2 ^ 48" for x
    using that e1(2) w(2) a(3) a48 by (auto simp: as_becomes_def flagged_def installed_def)
  then have "as_becomes (3 * ((end - a) div 4096)) env env2 (flagged (page_bits (snd env)) a end f)"
    using as_becomes_mono [OF as_becomes_cong [OF as_becomes_trans [OF e1(2) e2(2)]], of _ "3 * ((end - a) div 4096)"] n
    by simp
  with e1(1) e2(1) show ?thesis by simp
qed

lemma flag_loop_ok:
  assumes "as_ok (snd env)" "leaf_bits f" "a mod 4096 = 0" "end mod 4096 = 0" "a \<le> end" "end \<le> 2 ^ 48"
    "3 * ((end - a) div 4096) \<le> fst env"
  shows "\<exists>env'. flag_loop f a end env = Some env' \<and>
    as_becomes (3 * ((end - a) div 4096)) env env' (flagged (page_bits (snd env)) a end f)"
  using assms
proof (induction "end - a" arbitrary: a env rule: less_induct)
  case less
  show ?case
  proof (cases "a < end")
    case False
    then have "flag_loop f a end env = Some env" by (simp add: flag_loop.simps [of f a])
    moreover have "as_becomes (3 * ((end - a) div 4096)) env env (flagged (page_bits (snd env)) a end f)"
      using False less.prems(1) by (auto simp: as_becomes_def flagged_def)
    ultimately show ?thesis by blast
  next
    case True
    have page: "a + 4096 \<le> end" using True less.prems(3,4) by (auto elim!: mod_eq_0_iff_dvd [THEN iffD1, elim_format] dvdE)
    have IH: "\<exists>env'. flag_loop f (a + LEVEL_SIZE level) end env = Some env' \<and>
        as_becomes (3 * ((end - (a + LEVEL_SIZE level)) div 4096)) env env'
          (flagged (page_bits (snd env)) (a + LEVEL_SIZE level) end f)"
      if "1 \<le> level" "level \<le> 3" "a + LEVEL_SIZE level \<le> end" "as_ok (snd env)"
        "3 * ((end - (a + LEVEL_SIZE level)) div 4096) \<le> fst env" for level env
    proof -
      have aligned: "(a + LEVEL_SIZE level) mod 4096 = 0"
        using less.prems(3) LEVEL_SIZE_page [of level] that by (simp add: mod_eq_0_iff_dvd)
      have "end - (a + LEVEL_SIZE level) < end - a"
        using True LEVEL_SIZE_pos [of level] that(1,2) by linarith
      then show ?thesis
        by (rule less.hyps [OF _ that(4) less.prems(2) aligned less.prems(4) that(3) less.prems(6) that(5)])
    qed
    note step = flag_step [OF less.prems(1,2) _ _ less.prems(3) _ _ less.prems(6,7) _ IH]
    have fits: "a + n \<le> end" if "n \<le> end - a" for n using that True by linarith
    have sizes: "LEVEL_SIZE 3 = GIB" "LEVEL_SIZE 2 = 2 * MIB" "LEVEL_SIZE 1 = 4096" "PAGE_SIZE = 4096"
      by (simp_all add: LEVEL_SIZE_def PAGE_SIZE_def)
    consider "a mod GIB = 0 \<and> GIB \<le> end - a" | "\<not> (a mod GIB = 0 \<and> GIB \<le> end - a)"
        "a mod (2 * MIB) = 0 \<and> 2 * MIB \<le> end - a"
      | "\<not> (a mod GIB = 0 \<and> GIB \<le> end - a)" "\<not> (a mod (2 * MIB) = 0 \<and> 2 * MIB \<le> end - a)" by blast
    then show ?thesis
    proof cases
      case 1
      then have "flag_loop f a end env =
          Option.bind (install_leaf a 3 (if f AND PTE_P \<noteq> 0 then of_nat a OR f OR PTE_PS else 0) env) (flag_loop f (a + GIB) end)"
        using True by (subst flag_loop.simps) (simp only: if_True Let_def simp_thms)
      then show ?thesis using step [of 3 PTE_PS] fits 1 by (simp add: sizes split del: if_split)
    next
      case 2
      then have "flag_loop f a end env =
          Option.bind (install_leaf a 2 (if f AND PTE_P \<noteq> 0 then of_nat a OR f OR PTE_PS else 0) env) (flag_loop f (a + 2 * MIB) end)"
        using True by (subst flag_loop.simps) (simp only: if_True if_False Let_def simp_thms)
      then show ?thesis using step [of 2 PTE_PS] fits 2 by (simp add: sizes split del: if_split)
    next
      case 3
      then have "flag_loop f a end env =
          Option.bind (install_leaf a 1 (if f AND PTE_P \<noteq> 0 then of_nat a OR f OR 0 else 0) env) (flag_loop f (a + PAGE_SIZE) end)"
        using True by (subst flag_loop.simps) (simp only: if_True if_False Let_def simp_thms)
      then show ?thesis using step [of 1 0] page less.prems(3) by (simp add: sizes del: One_nat_def split del: if_split)
    qed
  qed
qed

lemma leaf_flags_to_pte_bits: "leaf_flags_to_pte f = Some b \<Longrightarrow> leaf_bits b"
  by (auto simp: leaf_flags_to_pte_def leaf_bits_def Let_def PTE_P_def PTE_RW_def PTE_US_def PTE_NX_def
      PTE_PCD_def PTE_PWT_def PTE_ADDR_def split: if_splits)

lemma as_flag_ok:
  assumes "as_ok (snd env)" "addr mod PAGE_SIZE = 0" "end mod PAGE_SIZE = 0" "addr \<le> end" "end \<le> 2 ^ 48"
    "leaf_flags_to_pte flags = Some f" "3 * ((end - addr) div PAGE_SIZE) \<le> fst env"
  shows "\<exists>env'. as_flag addr end flags env = Some env' \<and>
    as_becomes (3 * ((end - addr) div PAGE_SIZE)) env env' (flagged (page_bits (snd env)) addr end f) \<and>
    (addr < end \<longrightarrow> min_dirty (snd env') \<le> addr \<and> end \<le> max_dirty (snd env'))"
proof (cases "addr = end")
  case True
  then show ?thesis using assms by (auto simp: as_flag_def as_becomes_def flagged_def)
next
  case False
  note a = assms(2,3,7) [unfolded PAGE_SIZE_def]
  obtain env1 where e1: "flag_loop f addr end env = Some env1"
    "as_becomes (3 * ((end - addr) div 4096)) env env1 (flagged (page_bits (snd env)) addr end f)"
    using flag_loop_ok [OF assms(1) leaf_flags_to_pte_bits [OF assms(6)] a(1,2) assms(4,5) a(3)] by blast
  define env2 where "env2 = env_dirty addr end env1"
  have e2: "as_becomes 0 env1 env2 (page_bits (snd env1))"
    "min_dirty (snd env2) \<le> addr" "end \<le> max_dirty (snd env2)"
    using as_becomes_ok [OF e1(2)] a(2)
    by (auto simp: env2_def as_becomes_def as_ok_def page_bits_def as_table_count_def mark_dirty_def Let_def)
  define env3 where "env3 = try_merge_path addr env2"
  have e3: "as_becomes 0 env2 env3 (page_bits (snd env2))"
    using try_merge_path_ok [OF as_becomes_ok [OF e2(1)], of addr] False assms(4,5) by (simp add: env3_def)
  define env4 where "env4 = try_merge_path (end - PAGE_SIZE) env3"
  have e4: "as_becomes 0 env3 env4 (page_bits (snd env3))"
    using try_merge_path_ok [OF as_becomes_ok [OF e3], of "end - PAGE_SIZE"] False assms(4,5)
    by (simp add: env4_def PAGE_SIZE_def)
  have run: "as_flag addr end flags env = Some env4"
    using assms False e1(1) by (simp add: as_flag_def env2_def env3_def env4_def)
  have "as_becomes (3 * ((end - addr) div PAGE_SIZE)) env env4 (flagged (page_bits (snd env)) addr end f)"
    using e1(2) e2(1) e3 e4 by (simp add: as_becomes_def PAGE_SIZE_def)
  moreover have "min_dirty (snd env4) \<le> addr" "end \<le> max_dirty (snd env4)"
    using e2 e3 e4 by (auto simp: as_becomes_def)
  ultimately show ?thesis using run by blast
qed

section \<open>Query\<close>

lemma walk_cases:
  assumes "table_ok l b ts" "in_table l b x" "1 \<le> l" "l \<le> 4"
  shows "walk l ts x = 0 \<or> (\<exists>k. 1 \<le> k \<and> k \<le> 3 \<and> k \<le> l \<and> leaf_ok k (x div LEVEL_SIZE k * LEVEL_SIZE k) (walk l ts x))"
  using assms
proof (induction l arbitrary: b ts)
  case 0
  then show ?case by simp
next
  case (Suc m)
  let ?i = "level_idx x (Suc m)"
  have i: "?i < 512" using Suc.prems by (simp add: level_idx_less)
  note e = table_okD [OF Suc.prems(1) i]
  show ?case
  proof (cases "ts ! ?i")
    case (Pte w)
    have s: "slot (Suc m) b ?i = x div LEVEL_SIZE (Suc m) * LEVEL_SIZE (Suc m)"
    proof -
      have d: "LEVEL_SIZE (Suc m) dvd slot (Suc m) b ?i"
        using Suc.prems(2) by (auto simp: slot_def in_table_def mod_eq_0_iff_dvd dest: dvd_mult_right)
      then obtain q where q: "slot (Suc m) b ?i = LEVEL_SIZE (Suc m) * q" by (auto elim: dvdE)
      then have "x div LEVEL_SIZE (Suc m) = q"
        using in_table_idx(1,2) [OF Suc.prems(2-4)] by (intro div_nat_eqI) auto
      then show ?thesis using q by simp
    qed
    show ?thesis using e Pte Suc.prems(3) by (auto simp: entry_ok_def walk_eq s intro!: exI [of _ "Suc m"])
  next
    case (Table c)
    then have m: "1 < Suc m" "table_ok m (slot (Suc m) b ?i) c" using e by (auto simp: entry_ok_def)
    have "walk (Suc m) ts x = walk m c x" using Table m(1) by (simp add: walk_eq [of "Suc m"] walk_entry_def)
    then show ?thesis
      using Suc.IH [OF m(2)] in_table_child [OF Suc.prems(2) m(1) Suc.prems(4)] m(1) Suc.prems(4) by fastforce
  qed
qed

lemma pte_to_flags_pbits: "pte_to_flags (pbits e) = pte_to_flags e"
proof -
  have "pbits e AND m = e AND m" if "m AND PTE_ADDR = 0" "m AND PTE_PS = 0" for m
  proof (rule bit_eqI)
    fix n assume "possible_bit TYPE(u64) n"
    have "\<not> (bit m n \<and> 12 \<le> n \<and> n < 52)" "\<not> (bit m n \<and> n = 7)"
      using that by (metis bit_0_eq bit_and_iff bit_PTE_ADDR bit_PTE_PS bot_apply bot_bool_def)+
    then show "bit (pbits e AND m) n \<longleftrightarrow> bit (e AND m) n" by (auto simp: bit_and_iff bit_pbits)
  qed
  from this [of PTE_P] this [of PTE_RW] this [of PTE_US] this [of PTE_NX] this [of PTE_PCD] this [of PTE_PWT]
  show ?thesis
    by (simp add: pte_to_flags_def PTE_P_def PTE_RW_def PTE_US_def PTE_NX_def PTE_PCD_def PTE_PWT_def
        PTE_ADDR_def PTE_PS_def)
qed

lemma as_getinfo_eq:
  assumes "as_ok as" "x < 2 ^ 48"
  shows "as_getinfo as x = (pte_to_flags (page_bits as x), page_bits as x \<noteq> 0)"
proof -
  have "walk 4 (as_root as) x = 0 \<or> (\<exists>k a. leaf_ok k a (walk 4 (as_root as) x))"
    using walk_cases [of 4 0 "as_root as" x] assms by (auto simp: as_ok_def in_table_4)
  then show ?thesis
    by (auto simp: as_getinfo_def page_bits_def pte_to_flags_pbits pbits_eq_0 leaf_ok_def Let_def)
      (simp_all add: pte_to_flags_def)
qed

text \<open>What the processor makes of an address: the frame of the leaf plus the offset within it.\<close>

fun translate :: "nat \<Rightarrow> entry list \<Rightarrow> nat \<Rightarrow> nat option" where
  "translate l table x = (case table ! level_idx x l of
       Pte e \<Rightarrow> if e AND PTE_P = 0 then None else Some (unat (e AND PTE_ADDR) + x mod LEVEL_SIZE l)
     | Table child \<Rightarrow> if l \<le> 1 then None else translate (l - 1) child x)"

declare translate.simps [simp del]

end
