(* ===== verification/Address_Space.thy ===== *)
theory Address_Space
  imports Paging_Correct
begin

text \<open>
  The properties of the paging interface: what \<open>as_flag\<close>, \<open>as_getinfo\<close>, \<open>as_clone\<close>, \<open>as_free\<close> and the
  boot identity map promise their callers, and the abstract view of an address space, a flag word per
  address, that the memory manager is built on.
\<close>

section \<open>Identity translation\<close>

lemma translate_identity:
  assumes "table_ok l b ts" "in_table l b x" "1 \<le> l" "l \<le> 4" "b + 512 * LEVEL_SIZE l \<le> 2 ^ 52"
  shows "translate l ts x = (if pbits (walk l ts x) = 0 then None else Some x)"
  using assms
proof (induction l arbitrary: b ts)
  case 0
  then show ?case by simp
next
  case (Suc m)
  let ?i = "level_idx x (Suc m)"
  have i: "?i < 512" using Suc.prems by (simp add: level_idx_less)
  note e = table_okD [OF Suc.prems(1) i]
  show ?case
  proof (cases "ts ! ?i")
    case (Pte w)
    have w: "w = 0 \<or> leaf_ok (Suc m) (slot (Suc m) b ?i) w" using e Pte by (auto simp: entry_ok_def)
    have d: "LEVEL_SIZE (Suc m) dvd slot (Suc m) b ?i"
      using Suc.prems(2) by (auto simp: slot_def in_table_def mod_eq_0_iff_dvd dest: dvd_mult_right)
    note r = in_table_idx(1,2) [OF Suc.prems(2-4)]
    have "x mod LEVEL_SIZE (Suc m) = x - slot (Suc m) b ?i"
    proof -
      obtain q where q: "slot (Suc m) b ?i = LEVEL_SIZE (Suc m) * q" using d by (auto elim: dvdE)
      define y where "y = x - slot (Suc m) b ?i"
      have "x = LEVEL_SIZE (Suc m) * q + y" "y < LEVEL_SIZE (Suc m)" using r q by (simp_all add: y_def)
      then have "x mod LEVEL_SIZE (Suc m) = y" by simp
      then show ?thesis by (simp add: y_def)
    qed
    moreover have "slot (Suc m) b ?i < 2 ^ 52" using r(1) Suc.prems(2,5) by (auto simp: in_table_def)
    then have "unat (of_nat (slot (Suc m) b ?i) :: u64) = slot (Suc m) b ?i" by (simp add: unat_of_nat)
    ultimately have "translate (Suc m) ts x = Some x" if "leaf_ok (Suc m) (slot (Suc m) b ?i) w"
      using that Pte r(1) by (simp add: translate.simps [of "Suc m"] leaf_ok_def)
    then show ?thesis
      using w Pte pbits_eq_0 by (auto simp: walk_eq) (simp add: translate.simps [of "Suc m"])
  next
    case (Table c)
    then have m: "1 < Suc m" "table_ok m (slot (Suc m) b ?i) c" using e by (auto simp: entry_ok_def)
    have "slot (Suc m) b ?i + 512 * LEVEL_SIZE m \<le> 2 ^ 52"
      using slot_in_table [OF Suc.prems(2) i] Suc.prems(5) LEVEL_SIZE_step [OF m(1) Suc.prems(4)] by simp
    moreover have "walk (Suc m) ts x = walk m c x" "translate (Suc m) ts x = translate m c x"
      using Table m(1) by (simp_all add: walk_eq [of "Suc m"] walk_entry_def translate.simps [of "Suc m"])
    ultimately show ?thesis
      using Suc.IH [OF m(2)] in_table_child [OF Suc.prems(2) m(1) Suc.prems(4)] m(1) Suc.prems(4) by simp
  qed
qed

lemma as_translate:
  "as_ok as \<Longrightarrow> x < 2 ^ 48 \<Longrightarrow> translate 4 (as_root as) x = (if snd (as_getinfo as x) then Some x else None)"
  using translate_identity [of 4 0 "as_root as" x]
  by (simp add: as_ok_def in_table_4 LEVEL_SIZE_eq as_getinfo_eq page_bits_def)

section \<open>Clone and free\<close>

lemma clone_ok:
  "table_ok l b ts \<Longrightarrow> 1 \<le> l \<Longrightarrow>
     clone_table l ts frames = (if count_tables l ts \<le> frames then Some (ts, frames - count_tables l ts) else None)"
proof (induction l arbitrary: b ts frames)
  case 0
  then show ?case by simp
next
  case (Suc m)
  let ?n = "\<lambda>es. sum_list (map (entry_tables (Suc m)) es)"
  have entries: "clone_entries (Suc m) es fr = (if ?n es \<le> fr then Some (es, fr - ?n es) else None)"
    if "\<forall>t \<in> set es. \<exists>a. entry_ok (Suc m) a t" for es fr
    using that
  proof (induction es arbitrary: fr)
    case Nil
    then show ?case by simp
  next
    case (Cons t es)
    then obtain a where a: "entry_ok (Suc m) a t" by auto
    show ?case
    proof (cases t)
      case (Pte w)
      then have "(if w AND PTE_P = 0 then 0 else w) = w" using a by (auto simp: entry_ok_def leaf_ok_def)
      then show ?thesis using Cons Pte by simp
    next
      case (Table c)
      then have c: "1 \<le> m" "table_ok m a c" using a by (auto simp: entry_ok_def)
      then show ?thesis using Cons Table Suc.IH [OF c(2,1)] by auto
    qed
  qed
  have "\<forall>t \<in> set ts. \<exists>a. entry_ok (Suc m) a t"
    using Suc.prems(1) by (fastforce simp: in_set_conv_nth table_ok_iff)
  from entries [OF this, of "frames - 1"] show ?case
    by (cases frames) (simp_all add: count_tables_eq)
qed

lemma as_free_eq: "as_free as frames = (if as_has_pins as then None else Some (frames + as_table_count as + 1))"
  by (simp add: as_free_def free_table_eq as_table_count_def asserts_def)

section \<open>The boot map\<close>

lemma pristine_bits: "leaf_flags_to_pte (PAGE_R OR PAGE_W OR PAGE_X) = Some (PTE_P OR PTE_RW)"
  by (simp add: leaf_flags_to_pte_def PAGE_R_def PAGE_W_def PAGE_X_def PAGE_U_def PAGE_CACHE_MASK_def PAGE_WB_def
      PTE_P_def PTE_RW_def Let_def)

lemma identity_ok:
  assumes "as_identity_mapping frames = Some (as, frames')"
  shows "as_ok as" "x < 2 ^ 48 \<Longrightarrow> page_bits as x = (if x < 2 ^ 39 then PTE_P OR PTE_RW else 0)"
    "frames = frames' + as_table_count as + 1"
proof -
  let ?f = "PTE_P OR PTE_RW"
  let ?t = "map (\<lambda>i. Pte (of_nat (i * GIB) OR ?f OR PTE_PS)) [0 ..< 512]"
  have as: "as_root as = (replicate 512 (Pte 0))[0 := Table ?t]" "frames' = frames - 3" "3 \<le> frames"
    using assms by (auto simp: as_identity_mapping_def pristine_bits asserts_def split: if_splits)
  have f: "bit ?f 0" "?f AND PTE_ADDR = 0" "\<not> bit ?f 7"
    by (simp_all add: PTE_P_def PTE_RW_def PTE_ADDR_def)
  have leaf: "leaf_ok 3 (slot 3 0 i) (of_nat (i * GIB) OR ?f OR PTE_PS) \<and> pbits (of_nat (i * GIB) OR ?f OR PTE_PS) = ?f"
    if "i < 512" for i
  proof -
    have "slot 3 0 i = i * GIB" by (simp add: slot_def LEVEL_SIZE_def)
    moreover have "i * GIB mod 4096 = 0" "i * GIB < 2 ^ 52" using that by (auto simp: GIB_def mod_eq_0_iff_dvd)
    ultimately show ?thesis using leaf_okI [OF _ _ f, of "i * GIB" PTE_PS 3] by simp
  qed
  have t: "table_ok 3 0 ?t" using leaf by (auto simp: table_ok_iff entry_ok_def)
  have s: "slot 4 0 0 = 0" by (simp add: slot_def)
  show "as_ok as" unfolding as_ok_def as(1) using t by (intro table_ok_update) (simp_all add: entry_ok_def s)
  show "page_bits as x = (if x < 2 ^ 39 then ?f else 0)" if "x < 2 ^ 48"
  proof -
    have idx: "level_idx x 4 = 0 \<longleftrightarrow> x < 2 ^ 39"
      using in_table_idx(3) [of 4 0 x 0] that by (simp add: in_table_4 s LEVEL_SIZE_eq)
    have i3: "level_idx x 3 < 512" by (simp add: level_idx_less)
    have "pbits (walk 3 ?t x) = ?f"
      using leaf [OF i3] i3 by (simp add: walk_eq del: of_nat_mult) (metis walk_entry_leaf(1))
    then show ?thesis using idx by (simp add: page_bits_def as(1) walk_update walk_empty walk_entry_def)
  qed
  have "entry_tables 4 (Table ?t) = 1" by (simp add: count_tables_eq comp_def)
  then show "frames = frames' + as_table_count as + 1"
    using count_tables_update [of 0 "replicate 512 (Pte 0)" 4 "Table ?t"] as(2,3)
    by (simp add: as_table_count_def as(1))
qed

section \<open>Properties\<close>

text \<open>
  C15: \<open>as_flag\<close> on a page-aligned range of a well-formed address space, given enough free frames, always
  returns.  Afterwards \<open>as_getinfo\<close> reports the new flags at exactly the addresses of the range and the
  old ones everywhere else; every present page still translates to its own address; no page-table frame is
  lost or used twice; and the dirty range covers the change.
\<close>

theorem as_flag_correct:
  assumes "as_ok as" "addr mod PAGE_SIZE = 0" "end mod PAGE_SIZE = 0" "addr \<le> end" "end \<le> 2 ^ 48"
    "leaf_flags_to_pte flags = Some f" "3 * ((end - addr) div PAGE_SIZE) \<le> frames"
  shows "\<exists>as' frames'. as_flag addr end flags (frames, as) = Some (frames', as') \<and> as_ok as' \<and>
    (\<forall>x < 2 ^ 48. as_getinfo as' x =
       (if addr \<le> x \<and> x < end then (pte_to_flags f, f \<noteq> 0) else as_getinfo as x)) \<and>
    (\<forall>x < 2 ^ 48. translate 4 (as_root as') x = (if snd (as_getinfo as' x) then Some x else None)) \<and>
    frames' + as_table_count as' = frames + as_table_count as \<and>
    min_dirty as' \<le> min_dirty as \<and> max_dirty as \<le> max_dirty as' \<and>
    (addr < end \<longrightarrow> min_dirty as' \<le> addr \<and> end \<le> max_dirty as')"
proof -
  obtain as' frames' where run: "as_flag addr end flags (frames, as) = Some (frames', as')"
    and b: "as_becomes (3 * ((end - addr) div PAGE_SIZE)) (frames, as) (frames', as')
        (flagged (page_bits as) addr end f)"
    and d: "addr < end \<longrightarrow> min_dirty as' \<le> addr \<and> end \<le> max_dirty as'"
    using as_flag_ok [of "(frames, as)", OF _ assms(2-6)] assms(1,7) by auto
  have ok: "as_ok as'" using b by (simp add: as_becomes_def)
  have "as_getinfo as' x = (if addr \<le> x \<and> x < end then (pte_to_flags f, f \<noteq> 0) else as_getinfo as x)"
    if "x < 2 ^ 48" for x
    using that b assms(1) ok by (simp add: as_getinfo_eq as_becomes_def flagged_def)
  then show ?thesis using run ok b d as_translate [OF ok] by (simp add: as_becomes_def)
qed

theorem as_flag_correct_witness:
  "\<exists>as frames as' frames'. as_identity_mapping 10 = Some (as, frames)
    \<and> as_flag 4096 8192 (PAGE_R OR PAGE_U) (frames, as) = Some (frames', as')
    \<and> as_getinfo as' 4096 = (PAGE_R OR PAGE_U, True) \<and> as_getinfo as' 8192 = (PAGE_R OR PAGE_W OR PAGE_X, True)"
proof -
  obtain as where i: "as_identity_mapping 10 = Some (as, 7)"
    by (simp add: as_identity_mapping_def pristine_bits)
  note ok = identity_ok [OF i]
  have f: "leaf_flags_to_pte (PAGE_R OR PAGE_U) = Some (PTE_P OR PTE_US OR PTE_NX)"
    "pte_to_flags (PTE_P OR PTE_US OR PTE_NX) = PAGE_R OR PAGE_U" "PTE_P OR PTE_US OR PTE_NX \<noteq> 0"
    "pte_to_flags (PTE_P OR PTE_RW) = PAGE_R OR PAGE_W OR PAGE_X" "PTE_P OR PTE_RW \<noteq> 0"
    by code_simp+
  have prem: "4096 mod PAGE_SIZE = 0" "8192 mod PAGE_SIZE = 0" "(4096::nat) \<le> 8192" "(8192::nat) \<le> 2 ^ 48"
    "3 * ((8192 - 4096) div PAGE_SIZE) \<le> 7"
    by (simp_all add: PAGE_SIZE_def)
  obtain as' frames' where r: "as_flag 4096 8192 (PAGE_R OR PAGE_U) (7, as) = Some (frames', as')"
    "\<forall>x < 2 ^ 48. as_getinfo as' x = (if 4096 \<le> x \<and> x < 8192
       then (pte_to_flags (PTE_P OR PTE_US OR PTE_NX), PTE_P OR PTE_US OR PTE_NX \<noteq> 0) else as_getinfo as x)"
    using as_flag_correct [OF ok(1) prem(1-4) f(1) prem(5)] by (elim exE conjE) rule
  have "as_getinfo as 8192 = (PAGE_R OR PAGE_W OR PAGE_X, True)"
    using as_getinfo_eq [OF ok(1)] ok(2) f by simp
  then have "as_getinfo as' 4096 = (PAGE_R OR PAGE_U, True)" "as_getinfo as' 8192 = (PAGE_R OR PAGE_W OR PAGE_X, True)"
    using r(2) f by simp_all
  with i r(1) show ?thesis by blast
qed

text \<open>
  C23: \<open>as_clone\<close> of a well-formed address space succeeds exactly when there is one free frame for each table of
  the source and one for the object itself, gives a tree equal to the source's, and \<open>as_free\<close> of the clone gives
  every frame back.
\<close>

theorem as_clone_free:
  assumes "as_ok src"
  shows "case as_clone src frames of
      None \<Rightarrow> frames < as_table_count src + 1
    | Some (as, frames') \<Rightarrow> frames = frames' + as_table_count src + 1 \<and> as_ok as \<and> as_root as = as_root src
        \<and> as_table_count as = as_table_count src \<and> \<not> has_dirty as \<and> as_free as frames' = Some frames"
  using clone_ok [of 4 0 "as_root src" "frames - 1"] assms
  by (auto simp: as_clone_def as_ok_def as_table_count_def as_free_eq as_has_pins_def has_dirty_def DIRTY_EMPTY_MAX_def asserts_def)

theorem as_clone_free_witness:
  "\<exists>src fr. as_identity_mapping 10 = Some (src, fr) \<and> as_clone src 2 = None
    \<and> (\<exists>as. as_clone src 5 = Some (as, 2) \<and> as_free as 2 = Some 5)"
proof -
  obtain src where i: "as_identity_mapping 10 = Some (src, 7)"
    by (simp add: as_identity_mapping_def pristine_bits)
  have n: "as_table_count src = 2" using identity_ok(3) [OF i] by simp
  have a: "as_clone src 2 = None"
    using as_clone_free [OF identity_ok(1) [OF i], of 2] n by (auto split: option.splits)
  obtain as f where b: "as_clone src 5 = Some (as, f)" "as_free as f = Some 5" "f = 2"
    using as_clone_free [OF identity_ok(1) [OF i], of 5] n by (auto split: option.splits)
  with i a show ?thesis by blast
qed

lemma and_exp_word: "(f :: u32) AND 2 ^ n = (if bit f n then 2 ^ n else 0)"
  by (rule bit_eqI) (auto simp: bit_and_iff bit_exp_iff)

text \<open>
  C26: encoding flags into a leaf and reading them back with \<open>as_getinfo\<close> returns the same rights and cache
  type, except that write-combining reads back as write-through.
\<close>

theorem flags_round_trip:
  assumes "f AND PAGE_R \<noteq> 0"
  shows "\<exists>p. leaf_flags_to_pte f = Some p \<and> pte_to_flags p =
    (if f AND PAGE_CACHE_MASK = PAGE_WC then f AND 0x0F OR PAGE_WT else f AND 0x3F)"
proof -
  have b: "f AND 1 = (if bit f 0 then 1 else 0)" "f AND 2 = (if bit f 1 then 2 else 0)"
    "f AND 4 = (if bit f 2 then 4 else 0)" "f AND 8 = (if bit f 3 then 8 else 0)"
    "f AND 0x10 = (if bit f 4 then 0x10 else 0)" "f AND 0x20 = (if bit f 5 then 0x20 else 0)"
    using and_exp_word [of f 0] and_exp_word [of f 1] and_exp_word [of f 2] and_exp_word [of f 3]
      and_exp_word [of f 4] and_exp_word [of f 5] by simp_all
  have c: "f AND 0x30 = (f AND 0x10) OR (f AND 0x20)"
    "f AND 0x0F = (f AND 1) OR (f AND 2) OR (f AND 4) OR (f AND 8)"
    "f AND 0x3F = (f AND 1) OR (f AND 2) OR (f AND 4) OR (f AND 8) OR (f AND 0x10) OR (f AND 0x20)"
    by (simp_all add: bit.conj_disj_distrib [symmetric])
  have "bit f 0" using assms by (simp add: PAGE_R_def b split: if_splits)
  then show ?thesis
    by (simp add: leaf_flags_to_pte_def pte_to_flags_def Let_def PAGE_R_def PAGE_W_def PAGE_X_def PAGE_U_def
        PAGE_CACHE_MASK_def PAGE_WB_def PAGE_UC_def PAGE_WC_def PAGE_WT_def PTE_P_def PTE_RW_def PTE_US_def
        PTE_NX_def PTE_PCD_def PTE_PWT_def c b)
qed

theorem flags_round_trip_witness:
  "\<exists>p. leaf_flags_to_pte (PAGE_R OR PAGE_W OR PAGE_WC) = Some p \<and> pte_to_flags p = PAGE_R OR PAGE_W OR PAGE_WT"
  using flags_round_trip [of "PAGE_R OR PAGE_W OR PAGE_WC"]
  by (simp add: PAGE_R_def PAGE_W_def PAGE_WC_def PAGE_WT_def PAGE_CACHE_MASK_def)

end
