(* ===== verification/Tlb.thy ===== *)
theory Tlb
  imports Address_Space
begin

text \<open>
  TLB shootdown, the second half of \<^verbatim>\<open>kernel/archsrc/x86_64/paging.c\<close>: \<open>as_switch\<close>,
  \<open>as_flush_multi\<close> and \<open>tlb_service_local\<close> on a machine of several processors.  Each processor caches the
  entries of the pages it touched; a step of the machine is a cache fill, a page-table change under the
  lock of the address space, an address space switch, one stage of a flush, one turn of a spin loop, or an
  interrupt, in any interleaving.  A processor with interrupts off takes no interrupt: it acknowledges a
  request only where a loop of the code polls for it.
\<close>

section \<open>Invalidation\<close>

type_synonym tlb = "nat \<Rightarrow> u64 option"

function invlpg_loop :: "nat \<Rightarrow> nat \<Rightarrow> tlb \<Rightarrow> tlb" where
  "invlpg_loop a hi t = (if a < hi then invlpg_loop (a + PAGE_SIZE) hi (t(a div PAGE_SIZE := None)) else t)"
  by pat_completeness auto

termination
  by (relation "measure (\<lambda>(a, hi, _). hi - a)") (auto simp: PAGE_SIZE_def)

definition INVLPG_THRESHOLD_PAGES :: nat where "INVLPG_THRESHOLD_PAGES = 8"

definition tlb_invalidate_local :: "nat \<Rightarrow> nat \<Rightarrow> tlb \<Rightarrow> tlb" where
  "tlb_invalidate_local lo hi t =
     (let span_pages = (hi - lo) div PAGE_SIZE in
      if span_pages < INVLPG_THRESHOLD_PAGES then invlpg_loop lo hi t else (\<lambda>_. None))"

section \<open>The machine\<close>

text \<open>
  \<open>flush_pc\<close> is where a processor is: outside this file (\<open>Idle\<close>), spinning in \<open>as_lock\<close> on behalf of \<open>as_flag\<close>
  or holding that lock, or how far it is through \<open>as_flush_multi\<close>: snapshotting the dirty ranges (\<open>Snap\<close>, with
  the address spaces left to visit, and \<open>SnapWait\<close> while it spins for the lock of the first), spinning for the
  slot, doing its local flush, waiting for acknowledgements.
\<close>

datatype flush_pc =
    Idle
  | LockWait nat
  | Holding nat
  | Snap "nat list" "nat list" nat nat
  | SnapWait "nat list" "nat list" nat nat
  | Spin "nat list" nat nat
  | LocalFlush
  | WaitAcks

record machine =
  spaces :: "nat \<Rightarrow> address_space"
  mut_lock :: "nat \<Rightarrow> bool"
  pt_frames :: nat
  ncpus :: nat
  current_as :: "nat \<Rightarrow> nat"
  irq_depth :: "nat \<Rightarrow> nat"
  ipi :: "nat \<Rightarrow> bool"
  tlbs :: "nat \<Rightarrow> tlb"
  pcs :: "nat \<Rightarrow> flush_pc"
  tlb_busy :: bool
  req_ases :: "nat list"
  req_min :: nat
  req_max :: nat
  need_mask :: u64

definition tlb_req_matches :: "machine \<Rightarrow> nat \<Rightarrow> bool" where
  "tlb_req_matches m as = (as \<in> set (req_ases m))"

definition cpu_bit :: "nat \<Rightarrow> u64" where "cpu_bit i = push_bit i 1"

definition set_tlb :: "nat \<Rightarrow> tlb \<Rightarrow> machine \<Rightarrow> machine" where
  "set_tlb c t m = m\<lparr>tlbs := (tlbs m)(c := t)\<rparr>"

definition set_pc :: "nat \<Rightarrow> flush_pc \<Rightarrow> machine \<Rightarrow> machine" where
  "set_pc c p m = m\<lparr>pcs := (pcs m)(c := p)\<rparr>"

definition irq_disable :: "nat \<Rightarrow> machine \<Rightarrow> machine" where
  "irq_disable me m = m\<lparr>irq_depth := (irq_depth m)(me := irq_depth m me + 1)\<rparr>"

definition irq_enable :: "nat \<Rightarrow> machine \<Rightarrow> machine" where
  "irq_enable me m = m\<lparr>irq_depth := (irq_depth m)(me := irq_depth m me - 1)\<rparr>"

definition tlb_service_local :: "nat \<Rightarrow> machine \<Rightarrow> machine" where
  "tlb_service_local me m =
     (if need_mask m AND cpu_bit me = 0 then m
      else
        let m = (if tlb_req_matches m (current_as m me)
                 then set_tlb me (tlb_invalidate_local (req_min m) (req_max m) (tlbs m me)) m else m)
        in m\<lparr>need_mask := need_mask m AND NOT (cpu_bit me)\<rparr>)"

definition paging_handle_tlb_shootdown :: "nat \<Rightarrow> machine \<Rightarrow> machine" where
  "paging_handle_tlb_shootdown me m = (tlb_service_local me m)\<lparr>ipi := (ipi m)(me := False)\<rparr>"

definition as_switch :: "nat \<Rightarrow> nat \<Rightarrow> machine \<Rightarrow> machine" where
  "as_switch me as m = set_tlb me (\<lambda>_. None) (m\<lparr>current_as := (current_as m)(me := as)\<rparr>)"

text \<open>\<open>as_lock\<close>: interrupts off, then one exchange per turn of the loop, polling after each failed one.\<close>

definition lock_enter :: "nat \<Rightarrow> nat \<Rightarrow> machine \<Rightarrow> machine" where
  "lock_enter me a m = set_pc me (LockWait a) (irq_disable me m)"

definition lock_turn :: "nat \<Rightarrow> nat \<Rightarrow> machine \<Rightarrow> machine" where
  "lock_turn me a m =
     (if mut_lock m a then tlb_service_local me m
      else set_pc me (Holding a) (m\<lparr>mut_lock := (mut_lock m)(a := True)\<rparr>))"

definition as_unlock :: "nat \<Rightarrow> nat \<Rightarrow> machine \<Rightarrow> machine" where
  "as_unlock me a m = set_pc me Idle (irq_enable me (m\<lparr>mut_lock := (mut_lock m)(a := False)\<rparr>))"

text \<open>
  The stages of \<open>as_flush_multi\<close>.  Taking the lock of an address space, reading and clearing its dirty range and
  releasing the lock again is one step: nothing else reads the range or the lock's holder.
\<close>

definition flush_begin :: "nat \<Rightarrow> nat list \<Rightarrow> machine \<Rightarrow> machine" where
  "flush_begin me ases m = set_pc me (Snap ases ases DIRTY_EMPTY_MIN DIRTY_EMPTY_MAX) m"

definition flush_snap :: "nat \<Rightarrow> nat list \<Rightarrow> nat list \<Rightarrow> nat \<Rightarrow> nat \<Rightarrow> machine \<Rightarrow> machine" where
  "flush_snap me ases todo mn mx m = (case todo of
       [] \<Rightarrow> if mx \<le> mn then set_pc me Idle m else set_pc me (Spin ases mn mx) (irq_disable me m)
     | a # rest \<Rightarrow> set_pc me (SnapWait ases todo mn mx) (irq_disable me m))"

definition take_snapshot :: "nat \<Rightarrow> nat list \<Rightarrow> nat \<Rightarrow> nat list \<Rightarrow> nat \<Rightarrow> nat \<Rightarrow> machine \<Rightarrow> machine" where
  "take_snapshot me ases a rest mn mx m =
     (let as = spaces m a in
      if has_dirty as then
        set_pc me (Snap ases rest (min mn (min_dirty as)) (max mx (max_dirty as)))
          (m\<lparr>spaces := (spaces m)(a := clear_dirty as)\<rparr>)
      else set_pc me (Snap ases rest mn mx) m)"

definition snap_turn :: "nat \<Rightarrow> nat list \<Rightarrow> nat \<Rightarrow> nat list \<Rightarrow> nat \<Rightarrow> nat \<Rightarrow> machine \<Rightarrow> machine" where
  "snap_turn me ases a rest mn mx m =
     (if mut_lock m a then tlb_service_local me m
      else irq_enable me (take_snapshot me ases a rest mn mx m))"

definition flush_targets :: "nat \<Rightarrow> machine \<Rightarrow> u64" where
  "flush_targets me m = fold (\<lambda>i t. if i \<noteq> me \<and> tlb_req_matches m (current_as m i) then t OR cpu_bit i else t)
     [0 ..< ncpus m] 0"

definition flush_publish :: "nat \<Rightarrow> nat list \<Rightarrow> nat \<Rightarrow> nat \<Rightarrow> machine \<Rightarrow> machine" where
  "flush_publish me ases mn mx m =
     (let m = m\<lparr>tlb_busy := True, req_ases := ases, req_min := mn, req_max := mx\<rparr>;
          targets = flush_targets me m
      in set_pc me LocalFlush (m\<lparr>need_mask := targets,
           ipi := \<lambda>i. ipi m i \<or> i < ncpus m \<and> targets AND cpu_bit i \<noteq> 0\<rparr>))"

definition spin_turn :: "nat \<Rightarrow> nat list \<Rightarrow> nat \<Rightarrow> nat \<Rightarrow> machine \<Rightarrow> machine" where
  "spin_turn me ases mn mx m =
     (if tlb_busy m then tlb_service_local me m else flush_publish me ases mn mx m)"

definition flush_local :: "nat \<Rightarrow> machine \<Rightarrow> machine" where
  "flush_local me m = set_pc me WaitAcks
     (if tlb_req_matches m (current_as m me)
      then set_tlb me (tlb_invalidate_local (req_min m) (req_max m) (tlbs m me)) m else m)"

definition flush_finish :: "nat \<Rightarrow> machine \<Rightarrow> machine" where
  "flush_finish me m = set_pc me Idle (irq_enable me (m\<lparr>tlb_busy := False\<rparr>))"

definition tlb_fill :: "nat \<Rightarrow> nat \<Rightarrow> machine \<Rightarrow> machine" where
  "tlb_fill c p m = set_tlb c ((tlbs m c)(p \<mapsto> page_bits (spaces m (current_as m c)) (p * PAGE_SIZE))) m"

text \<open>
  The steps of one processor.  Outside the loops of this file interrupts go off and on (\<open>mask\<close>, \<open>unmask\<close>), and a
  wait for one of the kernel's service locks polls through \<open>paging_service_shootdown\<close> (\<open>poll\<close>).
\<close>

inductive cpu_step :: "nat \<Rightarrow> machine \<Rightarrow> machine \<Rightarrow> bool" for c m where
  fill: "p * PAGE_SIZE < 2 ^ 48 \<Longrightarrow> cpu_step c m (tlb_fill c p m)"
| switch: "cpu_step c m (as_switch c a m)"
| mask: "pcs m c = Idle \<Longrightarrow> cpu_step c m (irq_disable c m)"
| unmask: "pcs m c = Idle \<Longrightarrow> 0 < irq_depth m c \<Longrightarrow> cpu_step c m (irq_enable c m)"
| poll: "pcs m c = Idle \<Longrightarrow> 0 < irq_depth m c \<Longrightarrow> cpu_step c m (tlb_service_local c m)"
| interrupt: "irq_depth m c = 0 \<Longrightarrow> ipi m c \<Longrightarrow> cpu_step c m (paging_handle_tlb_shootdown c m)"
| lock: "pcs m c = Idle \<Longrightarrow> cpu_step c m (lock_enter c a m)"
| lock_spin: "pcs m c = LockWait a \<Longrightarrow> cpu_step c m (lock_turn c a m)"
| flag: "pcs m c = Holding a \<Longrightarrow> as_flag addr end flags (pt_frames m, spaces m a) = Some (frames', as') \<Longrightarrow>
    end \<le> 2 ^ 48 \<Longrightarrow> 3 * ((end - addr) div PAGE_SIZE) \<le> pt_frames m \<Longrightarrow>
    cpu_step c m (m\<lparr>pt_frames := frames', spaces := (spaces m)(a := as')\<rparr>)"
| unlock: "pcs m c = Holding a \<Longrightarrow> cpu_step c m (as_unlock c a m)"
| enter: "pcs m c = Idle \<Longrightarrow> cpu_step c m (flush_begin c ases m)"
| snap: "pcs m c = Snap ases todo mn mx \<Longrightarrow> cpu_step c m (flush_snap c ases todo mn mx m)"
| snap_spin: "pcs m c = SnapWait ases (a # rest) mn mx \<Longrightarrow> cpu_step c m (snap_turn c ases a rest mn mx m)"
| spin: "pcs m c = Spin ases mn mx \<Longrightarrow> cpu_step c m (spin_turn c ases mn mx m)"
| flush: "pcs m c = LocalFlush \<Longrightarrow> cpu_step c m (flush_local c m)"
| finish: "pcs m c = WaitAcks \<Longrightarrow> need_mask m = 0 \<Longrightarrow> cpu_step c m (flush_finish c m)"

inductive_cases cpu_stepE: "cpu_step c m m'"

definition tlb_step :: "machine \<Rightarrow> machine \<Rightarrow> bool" where
  "tlb_step m m' \<longleftrightarrow> (\<exists>c < ncpus m. cpu_step c m m')"

section \<open>What an invalidation leaves\<close>

declare invlpg_loop.simps [simp del]

lemma invlpg_loop_Some:
  assumes "hi mod PAGE_SIZE = 0" "invlpg_loop a hi t p = Some b"
  shows "t p = Some b \<and> \<not> (a div PAGE_SIZE \<le> p \<and> p * PAGE_SIZE < hi)"
  using assms
proof (induction a hi t rule: invlpg_loop.induct)
  case (1 a hi t)
  show ?case
  proof (cases "a < hi")
    case False
    then have "hi div PAGE_SIZE \<le> a div PAGE_SIZE" by (simp add: div_le_mono)
    then have "p * PAGE_SIZE < hi \<Longrightarrow> \<not> a div PAGE_SIZE \<le> p"
      using "1.prems"(1) by (auto simp: PAGE_SIZE_def)
    then show ?thesis using "1.prems" False by (auto simp: invlpg_loop.simps [of a])
  next
    case True
    let ?t = "t(a div PAGE_SIZE := None)"
    have "invlpg_loop (a + PAGE_SIZE) hi ?t p = Some b"
      using "1.prems"(2) True by (simp add: invlpg_loop.simps [of a])
    note r = "1.IH" [OF True "1.prems"(1) this]
    then have "p \<noteq> a div PAGE_SIZE" by auto
    moreover have "(a + PAGE_SIZE) div PAGE_SIZE = a div PAGE_SIZE + 1" by (simp add: PAGE_SIZE_def)
    ultimately show ?thesis using r by auto
  qed
qed

lemma tlb_invalidate_Some:
  assumes "hi mod PAGE_SIZE = 0" "tlb_invalidate_local lo hi t p = Some b"
  shows "t p = Some b \<and> \<not> (lo \<le> p * PAGE_SIZE \<and> p * PAGE_SIZE < hi)"
proof -
  have "invlpg_loop lo hi t p = Some b"
    using assms(2) by (auto simp: tlb_invalidate_local_def Let_def split: if_splits)
  note r = invlpg_loop_Some [OF assms(1) this]
  have "lo div PAGE_SIZE \<le> p" if "lo \<le> p * PAGE_SIZE"
    using div_le_mono [OF that, of PAGE_SIZE] by (simp add: PAGE_SIZE_def)
  with r show ?thesis by blast
qed

lemma invlpg_loop_mono: "invlpg_loop a hi t p = Some b \<Longrightarrow> t p = Some b"
proof (induction a hi t rule: invlpg_loop.induct)
  case (1 a hi t)
  show ?case
  proof (cases "a < hi")
    case True
    then have "(t(a div PAGE_SIZE := None)) p = Some b" using 1 by (simp only: invlpg_loop.simps [of a] if_True)
    then show ?thesis by (auto split: if_splits)
  next
    case False
    then show ?thesis using 1 by (simp add: invlpg_loop.simps [of a])
  qed
qed

lemma tlb_invalidate_mono: "tlb_invalidate_local lo hi t p = Some b \<Longrightarrow> t p = Some b"
  by (auto simp: tlb_invalidate_local_def Let_def split: if_splits dest: invlpg_loop_mono)

section \<open>Coherence\<close>

definition in_dirty :: "address_space \<Rightarrow> nat \<Rightarrow> bool" where
  "in_dirty as x \<longleftrightarrow> min_dirty as \<le> x \<and> x < max_dirty as"

text \<open>Processor \<open>i\<close> is on its way to evicting address \<open>x\<close> of processor \<open>c\<close>.\<close>

definition evicting :: "machine \<Rightarrow> nat \<Rightarrow> nat \<Rightarrow> nat \<Rightarrow> bool" where
  "evicting m i c x = (case pcs m i of
       Snap ases todo mn mx \<Rightarrow> current_as m c \<in> set ases \<and> mn \<le> x \<and> x < mx
     | SnapWait ases todo mn mx \<Rightarrow> current_as m c \<in> set ases \<and> mn \<le> x \<and> x < mx
     | Spin ases mn mx \<Rightarrow> current_as m c \<in> set ases \<and> mn \<le> x \<and> x < mx
     | LocalFlush \<Rightarrow> tlb_req_matches m (current_as m c) \<and> req_min m \<le> x \<and> x < req_max m \<and> (c = i \<or> bit (need_mask m) c)
     | WaitAcks \<Rightarrow> tlb_req_matches m (current_as m c) \<and> req_min m \<le> x \<and> x < req_max m \<and> bit (need_mask m) c
     | _ \<Rightarrow> False)"

definition cached_ok :: "machine \<Rightarrow> nat \<Rightarrow> nat \<Rightarrow> u64 \<Rightarrow> bool" where
  "cached_ok m c x b \<longleftrightarrow> x < 2 ^ 48 \<and>
     (b = page_bits (spaces m (current_as m c)) x \<or> in_dirty (spaces m (current_as m c)) x \<or>
      (\<exists>i < ncpus m. evicting m i c x))"

definition coherent :: "machine \<Rightarrow> bool" where
  "coherent m \<longleftrightarrow> (\<forall>c < ncpus m. \<forall>p b. tlbs m c p = Some b \<longrightarrow> cached_ok m c (p * PAGE_SIZE) b)"

definition flushing :: "flush_pc \<Rightarrow> bool" where
  "flushing p \<longleftrightarrow> p = LocalFlush \<or> p = WaitAcks"

definition pc_ok :: "flush_pc \<Rightarrow> bool" where
  "pc_ok p = (case p of Snap ases todo mn mx \<Rightarrow> set todo \<subseteq> set ases \<and> mx mod PAGE_SIZE = 0
     | SnapWait ases todo mn mx \<Rightarrow> todo \<noteq> [] \<and> set todo \<subseteq> set ases \<and> mx mod PAGE_SIZE = 0
     | Spin ases mn mx \<Rightarrow> mx mod PAGE_SIZE = 0 | _ \<Rightarrow> True)"

definition one_flusher :: "nat \<Rightarrow> (nat \<Rightarrow> flush_pc) \<Rightarrow> bool" where
  "one_flusher n ps \<longleftrightarrow> (\<forall>i < n. \<forall>j < n. flushing (ps i) \<longrightarrow> flushing (ps j) \<longrightarrow> i = j)"

definition mask_within :: "nat \<Rightarrow> u64 \<Rightarrow> bool" where
  "mask_within n w \<longleftrightarrow> (\<forall>i. bit w i \<longrightarrow> i < n)"

definition shootdown_ok :: "machine \<Rightarrow> bool" where
  "shootdown_ok m \<longleftrightarrow> ncpus m \<le> 64 \<and> (\<forall>a. as_ok (spaces m a) \<and> max_dirty (spaces m a) mod PAGE_SIZE = 0) \<and>
     mask_within (ncpus m) (need_mask m) \<and>
     (\<forall>i < ncpus m. pc_ok (pcs m i)) \<and> (tlb_busy m \<longrightarrow> req_max m mod PAGE_SIZE = 0) \<and>
     (\<forall>i < ncpus m. flushing (pcs m i) \<longrightarrow> tlb_busy m) \<and> one_flusher (ncpus m) (pcs m)"

lemma bit_cpu_bit: "bit (cpu_bit i) n \<longleftrightarrow> n = i \<and> n < 64"
  by (auto simp: cpu_bit_def bit_exp_iff)

lemma and_cpu_bit: "i < 64 \<Longrightarrow> w AND cpu_bit i = 0 \<longleftrightarrow> \<not> bit w i"
  by (auto simp: u64_eq_iff bit_and_iff bit_cpu_bit dest: spec [of _ i])

lemma bit_flush_targets:
  assumes "ncpus m \<le> 64" "c < ncpus m"
  shows "bit (flush_targets me m) c \<longleftrightarrow> c \<noteq> me \<and> tlb_req_matches m (current_as m c)"
proof -
  have "bit (fold (\<lambda>i t. if i \<noteq> me \<and> tlb_req_matches m (current_as m i) then t OR cpu_bit i else t) is t) c
      \<longleftrightarrow> bit t c \<or> c \<in> set is \<and> c \<noteq> me \<and> tlb_req_matches m (current_as m c)" for t and "is" :: "nat list"
    using assms by (induction "is" arbitrary: t) (auto simp: bit_or_iff bit_cpu_bit)
  then show ?thesis using assms by (simp add: flush_targets_def)
qed

lemma flush_targets_bound: "mask_within (ncpus m) (flush_targets me m)"
  unfolding mask_within_def
proof (intro allI impI)
  fix n assume b: "bit (flush_targets me m) n"
  have "bit (fold (\<lambda>i t. if i \<noteq> me \<and> tlb_req_matches m (current_as m i) then t OR cpu_bit i else t) is t) n
      \<Longrightarrow> bit t n \<or> n \<in> set is" for t and "is" :: "nat list"
  proof (induction "is" arbitrary: t)
    case Nil
    then show ?case by simp
  next
    case (Cons i js)
    from Cons.IH [OF Cons.prems [unfolded fold_simps]] show ?case
      by (auto simp: bit_or_iff bit_cpu_bit split: if_splits)
  qed
  from this [of "[0 ..< ncpus m]" 0] b show "n < ncpus m"
    by (simp add: flush_targets_def)
qed

section \<open>Every step keeps the machine coherent\<close>

lemma as_flag_Some:
  assumes "as_flag addr end flags (frames, as) = Some (frames', as')" "as_ok as" "end \<le> 2 ^ 48"
    "3 * ((end - addr) div PAGE_SIZE) \<le> frames" "max_dirty as mod PAGE_SIZE = 0"
  shows "as_ok as'" "max_dirty as' mod PAGE_SIZE = 0" "in_dirty as x \<Longrightarrow> in_dirty as' x"
    "x < 2 ^ 48 \<Longrightarrow> page_bits as' x = page_bits as x \<or> in_dirty as' x"
proof -
  have a: "addr mod PAGE_SIZE = 0" "end mod PAGE_SIZE = 0" "addr \<le> end"
    using assms(1) by (auto simp: as_flag_def)
  have "as_ok as' \<and> max_dirty as' mod PAGE_SIZE = 0 \<and> (in_dirty as x \<longrightarrow> in_dirty as' x) \<and>
      (x < 2 ^ 48 \<longrightarrow> page_bits as' x = page_bits as x \<or> in_dirty as' x)"
  proof (cases "addr = end")
    case True
    then show ?thesis using assms a by (simp add: as_flag_def)
  next
    case False
    then obtain f where f: "leaf_flags_to_pte flags = Some f"
      using assms(1) a by (auto simp: as_flag_def split: bind_splits)
    show ?thesis
      using as_flag_ok [of "(frames, as)", OF _ a assms(3) f] assms False a(3)
      by (auto simp: as_becomes_def flagged_def in_dirty_def PAGE_SIZE_def)
  qed
  then show "as_ok as'" "max_dirty as' mod PAGE_SIZE = 0" "in_dirty as x \<Longrightarrow> in_dirty as' x"
    "x < 2 ^ 48 \<Longrightarrow> page_bits as' x = page_bits as x \<or> in_dirty as' x" by auto
qed

lemma coherentD: "coherent m \<Longrightarrow> c < ncpus m \<Longrightarrow> tlbs m c p = Some b \<Longrightarrow> cached_ok m c (p * PAGE_SIZE) b"
  by (simp add: coherent_def)

lemma cached_ok_mono:
  assumes "cached_ok m c x b" "ncpus m' = ncpus m"
    "b = page_bits (spaces m (current_as m c)) x \<Longrightarrow> x < 2 ^ 48 \<Longrightarrow>
       b = page_bits (spaces m' (current_as m' c)) x \<or> in_dirty (spaces m' (current_as m' c)) x"
    "in_dirty (spaces m (current_as m c)) x \<Longrightarrow>
       in_dirty (spaces m' (current_as m' c)) x \<or> (\<exists>i < ncpus m. evicting m' i c x)"
    "\<And>i. i < ncpus m \<Longrightarrow> evicting m i c x \<Longrightarrow> evicting m' i c x"
  shows "cached_ok m' c x b"
  using assms unfolding cached_ok_def by metis

lemma evicting_cong:
  "pcs m' i = pcs m i \<Longrightarrow> current_as m' c = current_as m c \<Longrightarrow> req_ases m' = req_ases m \<Longrightarrow>
   req_min m' = req_min m \<Longrightarrow> req_max m' = req_max m \<Longrightarrow> need_mask m' = need_mask m \<Longrightarrow>
   evicting m' i c x = evicting m i c x"
  by (simp add: evicting_def tlb_req_matches_def split: flush_pc.splits)

lemma set_tlb_simps [simp]:
  "spaces (set_tlb c t m) = spaces m" "ncpus (set_tlb c t m) = ncpus m" "current_as (set_tlb c t m) = current_as m"
  "pcs (set_tlb c t m) = pcs m" "req_ases (set_tlb c t m) = req_ases m" "req_min (set_tlb c t m) = req_min m"
  "req_max (set_tlb c t m) = req_max m" "need_mask (set_tlb c t m) = need_mask m" "tlb_busy (set_tlb c t m) = tlb_busy m"
  "mut_lock (set_tlb c t m) = mut_lock m" "irq_depth (set_tlb c t m) = irq_depth m" "ipi (set_tlb c t m) = ipi m"
  "tlbs (set_tlb c t m) = (tlbs m)(c := t)" "evicting (set_tlb c t m) = evicting m"
  by (simp_all add: set_tlb_def fun_eq_iff evicting_def tlb_req_matches_def split: flush_pc.splits)

lemma set_pc_simps [simp]:
  "spaces (set_pc c q m) = spaces m" "ncpus (set_pc c q m) = ncpus m" "current_as (set_pc c q m) = current_as m"
  "tlbs (set_pc c q m) = tlbs m" "req_ases (set_pc c q m) = req_ases m" "req_min (set_pc c q m) = req_min m"
  "req_max (set_pc c q m) = req_max m" "need_mask (set_pc c q m) = need_mask m" "tlb_busy (set_pc c q m) = tlb_busy m"
  "mut_lock (set_pc c q m) = mut_lock m" "irq_depth (set_pc c q m) = irq_depth m" "ipi (set_pc c q m) = ipi m"
  "pcs (set_pc c q m) = (pcs m)(c := q)"
  by (simp_all add: set_pc_def)

text \<open>Coherence does not depend on the interrupt state and the locks.\<close>

definition same_view :: "machine \<Rightarrow> machine \<Rightarrow> bool" where
  "same_view m m' \<longleftrightarrow> spaces m' = spaces m \<and> ncpus m' = ncpus m \<and> current_as m' = current_as m \<and> tlbs m' = tlbs m \<and>
     pcs m' = pcs m \<and> req_ases m' = req_ases m \<and> req_min m' = req_min m \<and> req_max m' = req_max m \<and>
     need_mask m' = need_mask m \<and> tlb_busy m' = tlb_busy m"

lemma same_view_irq [simp]:
  "same_view m (irq_disable c m)" "same_view m (irq_enable c m)" "same_view m (m\<lparr>ipi := i\<rparr>)" "same_view m (m\<lparr>mut_lock := l\<rparr>)"
  by (simp_all add: same_view_def irq_disable_def irq_enable_def)

lemma irq_simps [simp]:
  "spaces (irq_disable c m) = spaces m" "ncpus (irq_disable c m) = ncpus m" "current_as (irq_disable c m) = current_as m"
  "tlbs (irq_disable c m) = tlbs m" "pcs (irq_disable c m) = pcs m" "need_mask (irq_disable c m) = need_mask m"
  "tlb_busy (irq_disable c m) = tlb_busy m" "mut_lock (irq_disable c m) = mut_lock m" "ipi (irq_disable c m) = ipi m"
  "irq_depth (irq_disable c m) = (irq_depth m)(c := irq_depth m c + 1)"
  "spaces (irq_enable c m) = spaces m" "ncpus (irq_enable c m) = ncpus m" "current_as (irq_enable c m) = current_as m"
  "tlbs (irq_enable c m) = tlbs m" "pcs (irq_enable c m) = pcs m" "need_mask (irq_enable c m) = need_mask m"
  "tlb_busy (irq_enable c m) = tlb_busy m" "mut_lock (irq_enable c m) = mut_lock m" "ipi (irq_enable c m) = ipi m"
  "irq_depth (irq_enable c m) = (irq_depth m)(c := irq_depth m c - 1)"
  by (simp_all add: irq_disable_def irq_enable_def)

lemma coherent_same_view: "same_view m m' \<Longrightarrow> coherent m' = coherent m"
  by (simp add: same_view_def coherent_def cached_ok_def evicting_def tlb_req_matches_def cong: flush_pc.case_cong)

lemma shootdown_ok_same_view: "same_view m m' \<Longrightarrow> shootdown_ok m' = shootdown_ok m"
  by (simp add: same_view_def shootdown_ok_def)

lemmas coherent_irq [simp] = coherent_same_view [OF same_view_irq(1)] coherent_same_view [OF same_view_irq(2)]
  coherent_same_view [OF same_view_irq(3)] coherent_same_view [OF same_view_irq(4)]

lemmas shootdown_ok_irq [simp] = shootdown_ok_same_view [OF same_view_irq(1)] shootdown_ok_same_view [OF same_view_irq(2)]
  shootdown_ok_same_view [OF same_view_irq(3)] shootdown_ok_same_view [OF same_view_irq(4)]

lemma cached_ok_set_tlb [simp]: "cached_ok (set_tlb c t m) = cached_ok m"
  by (simp add: cached_ok_def fun_eq_iff)

lemma coherent_fill: "coherent m \<Longrightarrow> c < ncpus m \<Longrightarrow> p * PAGE_SIZE < 2 ^ 48 \<Longrightarrow> coherent (tlb_fill c p m)"
  by (auto simp: coherent_def tlb_fill_def split: if_splits) (simp add: cached_ok_def)

lemma coherent_switch:
  assumes "coherent m" shows "coherent (as_switch c a m)"
  unfolding coherent_def
proof (intro allI impI)
  fix c' p b assume c': "c' < ncpus (as_switch c a m)" and t: "tlbs (as_switch c a m) c' p = Some b"
  then have "c' \<noteq> c" "tlbs m c' p = Some b" "c' < ncpus m" by (auto simp: as_switch_def set_tlb_def split: if_splits)
  moreover have "evicting (m\<lparr>current_as := (current_as m)(c := a)\<rparr>) i c' x = evicting m i c' x" for i x
    using \<open>c' \<noteq> c\<close> by (intro evicting_cong) auto
  ultimately show "cached_ok (as_switch c a m) c' (p * PAGE_SIZE) b"
    using coherentD [OF assms, of c' p b] by (simp add: cached_ok_def as_switch_def)
qed

lemma coherent_flag:
  assumes "coherent m" "shootdown_ok m" "as_flag addr end flags (pt_frames m, spaces m a) = Some (frames', as')"
    "end \<le> 2 ^ 48" "3 * ((end - addr) div PAGE_SIZE) \<le> pt_frames m"
  shows "coherent (m\<lparr>pt_frames := frames', spaces := (spaces m)(a := as')\<rparr>)"
  unfolding coherent_def
proof (intro allI impI)
  let ?m = "m\<lparr>pt_frames := frames', spaces := (spaces m)(a := as')\<rparr>"
  fix c p b assume c: "c < ncpus ?m" and t: "tlbs ?m c p = Some b"
  note f = as_flag_Some [OF assms(3) _ assms(4,5)]
  have ok: "as_ok (spaces m a)" "max_dirty (spaces m a) mod PAGE_SIZE = 0" using assms(2) by (auto simp: shootdown_ok_def)
  have "cached_ok m c (p * PAGE_SIZE) b" using coherentD [OF assms(1)] c t by simp
  then show "cached_ok ?m c (p * PAGE_SIZE) b"
  proof (rule cached_ok_mono)
    fix i assume "evicting m i c (p * PAGE_SIZE)"
    then show "evicting ?m i c (p * PAGE_SIZE)" using evicting_cong [of ?m i m c] by simp
  qed (use f(3,4) [OF ok] in \<open>auto, metis\<close>)
qed

lemma coherent_goto:
  assumes "coherent m" "\<And>c' x. evicting m c c' x \<Longrightarrow> evicting (set_pc c q m) c c' x"
  shows "coherent (set_pc c q m)"
  unfolding coherent_def
proof (intro allI impI)
  let ?m = "set_pc c q m"
  fix c' p b assume c': "c' < ncpus ?m" "tlbs ?m c' p = Some b"
  then have "cached_ok m c' (p * PAGE_SIZE) b" using coherentD [OF assms(1)] by simp
  then show "cached_ok ?m c' (p * PAGE_SIZE) b"
  proof (rule cached_ok_mono)
    fix i assume e: "evicting m i c' (p * PAGE_SIZE)"
    then show "evicting ?m i c' (p * PAGE_SIZE)"
      using assms(2) evicting_cong [of ?m i m c'] by (cases "i = c") simp_all
  qed simp_all
qed

lemma coherent_leave: "coherent m \<Longrightarrow> pcs m c \<in> {Idle} \<union> range LockWait \<union> range Holding \<Longrightarrow> coherent (set_pc c q m)"
  by (rule coherent_goto) (auto simp: evicting_def)

lemma coherent_snap:
  assumes "coherent m" "pcs m c = Snap ases todo mn mx"
  shows "coherent (flush_snap c ases todo mn mx m)"
proof -
  have "coherent (set_pc c q (irq_disable c m))" if "q = SnapWait ases todo mn mx \<or> q = Spin ases mn mx" for q
    using assms that by (intro coherent_goto) (auto simp: evicting_def)
  moreover have "coherent (set_pc c Idle m)" if "mx \<le> mn"
    using assms that by (intro coherent_goto) (auto simp: evicting_def)
  ultimately show ?thesis by (auto simp: flush_snap_def split: list.split)
qed

lemma coherent_snapshot:
  assumes "coherent m" "shootdown_ok m" "c < ncpus m" "pcs m c = SnapWait ases (a # rest) mn mx"
  shows "coherent (take_snapshot c ases a rest mn mx m)"
  unfolding coherent_def
proof (intro allI impI)
  let ?m = "take_snapshot c ases a rest mn mx m"
  have same: "ncpus ?m = ncpus m" "tlbs ?m = tlbs m" "current_as ?m = current_as m" "req_ases ?m = req_ases m"
    "req_min ?m = req_min m" "req_max ?m = req_max m" "need_mask ?m = need_mask m"
    "\<And>i. i \<noteq> c \<Longrightarrow> pcs ?m i = pcs m i"
    by (auto simp: take_snapshot_def Let_def)
  fix c' p b assume "c' < ncpus ?m" "tlbs ?m c' p = Some b"
  then have c': "c' < ncpus m" "tlbs m c' p = Some b" by (simp_all add: same)
  have todo: "a \<in> set ases" using assms by (auto simp: shootdown_ok_def pc_ok_def split: flush_pc.splits)
  show "cached_ok ?m c' (p * PAGE_SIZE) b"
    using coherentD [OF assms(1) c'] same(1)
  proof (rule cached_ok_mono)
    assume "b = page_bits (spaces m (current_as m c')) (p * PAGE_SIZE)"
    moreover have "page_bits (spaces ?m d) x = page_bits (spaces m d) x" for d x
      by (auto simp: take_snapshot_def Let_def clear_dirty_def page_bits_def)
    ultimately show "b = page_bits (spaces ?m (current_as ?m c')) (p * PAGE_SIZE)
        \<or> in_dirty (spaces ?m (current_as ?m c')) (p * PAGE_SIZE)" by (simp add: same)
  next
    assume d: "in_dirty (spaces m (current_as m c')) (p * PAGE_SIZE)"
    show "in_dirty (spaces ?m (current_as ?m c')) (p * PAGE_SIZE) \<or> (\<exists>i < ncpus m. evicting ?m i c' (p * PAGE_SIZE))"
    proof (cases "a = current_as m c'")
      case True
      have "has_dirty (spaces m (current_as m c'))" using d by (simp add: in_dirty_def has_dirty_def)
      then have "evicting ?m c c' (p * PAGE_SIZE)"
        using True d todo by (auto simp: take_snapshot_def evicting_def in_dirty_def Let_def)
      with assms(3) show ?thesis by blast
    next
      case False
      then have "spaces ?m (current_as m c') = spaces m (current_as m c')"
        by (auto simp: take_snapshot_def Let_def)
      with d show ?thesis by (simp add: same)
    qed
  next
    fix i assume e: "evicting m i c' (p * PAGE_SIZE)"
    show "evicting ?m i c' (p * PAGE_SIZE)"
    proof (cases "i = c")
      case True
      then show ?thesis using e assms(4) by (auto simp: evicting_def take_snapshot_def Let_def)
    next
      case False
      with e show ?thesis by (simp add: evicting_def same tlb_req_matches_def split: flush_pc.splits)
    qed
  qed
qed

lemma coherent_publish:
  assumes "coherent m" "shootdown_ok m" "c < ncpus m" "pcs m c = Spin ases mn mx" "\<not> tlb_busy m"
  shows "coherent (flush_publish c ases mn mx m)"
  unfolding coherent_def
proof (intro allI impI)
  let ?m = "flush_publish c ases mn mx m"
  have same: "ncpus ?m = ncpus m" "tlbs ?m = tlbs m" "current_as ?m = current_as m" "spaces ?m = spaces m"
    "req_ases ?m = ases" "req_min ?m = mn" "req_max ?m = mx" "pcs ?m = (pcs m)(c := LocalFlush)"
    by (simp_all add: flush_publish_def Let_def)
  fix c' p b assume "c' < ncpus ?m" "tlbs ?m c' p = Some b"
  then have c': "c' < ncpus m" "tlbs m c' p = Some b" by (simp_all add: same)
  have mask: "bit (need_mask ?m) c' \<longleftrightarrow> c' \<noteq> c \<and> current_as m c' \<in> set ases"
    using assms(2) c'(1) by (simp add: flush_publish_def Let_def bit_flush_targets shootdown_ok_def tlb_req_matches_def)
  show "cached_ok ?m c' (p * PAGE_SIZE) b"
    using coherentD [OF assms(1) c'] same(1)
  proof (rule cached_ok_mono)
    fix i assume i: "i < ncpus m" and e: "evicting m i c' (p * PAGE_SIZE)"
    have "\<not> flushing (pcs m i)" using assms(2,5) i by (auto simp: shootdown_ok_def)
    then show "evicting ?m i c' (p * PAGE_SIZE)"
      using e assms(4) mask
      by (cases "i = c") (auto simp: evicting_def same tlb_req_matches_def flushing_def split: flush_pc.splits)
  qed (simp_all add: same)
qed

lemma coherent_flush:
  assumes "coherent m" "shootdown_ok m" "c < ncpus m" "pcs m c = LocalFlush"
  shows "coherent (flush_local c m)"
  unfolding coherent_def
proof (intro allI impI)
  let ?m = "flush_local c m"
  have same: "ncpus ?m = ncpus m" "current_as ?m = current_as m" "spaces ?m = spaces m"
    "req_ases ?m = req_ases m" "req_min ?m = req_min m" "req_max ?m = req_max m" "need_mask ?m = need_mask m"
    "pcs ?m = (pcs m)(c := WaitAcks)"
    by (simp_all add: flush_local_def)
  fix c' p b assume c': "c' < ncpus ?m" and t: "tlbs ?m c' p = Some b"
  have al: "req_max m mod PAGE_SIZE = 0" using assms(2-4) by (auto simp: shootdown_ok_def flushing_def)
  have old: "tlbs m c' p = Some b"
    and new: "c' = c \<Longrightarrow> tlb_req_matches m (current_as m c) \<Longrightarrow>
        \<not> (req_min m \<le> p * PAGE_SIZE \<and> p * PAGE_SIZE < req_max m)"
    using t tlb_invalidate_Some [OF al, of "req_min m" "tlbs m c" p b]
    by (auto simp: flush_local_def split: if_splits)
  have "cached_ok m c' (p * PAGE_SIZE) b" using coherentD [OF assms(1) _ old] c' by (simp add: same)
  then show "cached_ok ?m c' (p * PAGE_SIZE) b" using same(1)
  proof (rule cached_ok_mono)
    fix i assume i: "i < ncpus m" and e: "evicting m i c' (p * PAGE_SIZE)"
    show "evicting ?m i c' (p * PAGE_SIZE)"
      using e assms(4) new
      by (cases "i = c") (auto simp: evicting_def same tlb_req_matches_def split: flush_pc.splits)
  qed (simp_all add: same)
qed

lemma coherent_service:
  assumes "coherent m" "shootdown_ok m" "c < ncpus m"
  shows "coherent (tlb_service_local c m)"
  unfolding coherent_def
proof (intro allI impI)
  let ?m = "tlb_service_local c m"
  have c64: "c < 64" using assms(2,3) by (simp add: shootdown_ok_def)
  have same: "ncpus ?m = ncpus m" "current_as ?m = current_as m" "spaces ?m = spaces m"
    "req_ases ?m = req_ases m" "req_min ?m = req_min m" "req_max ?m = req_max m" "pcs ?m = pcs m"
    by (simp_all add: tlb_service_local_def Let_def)
  have mask: "bit (need_mask ?m) n \<longleftrightarrow> bit (need_mask m) n \<and> n \<noteq> c" for n
    using c64 bit_imp_le_length [of "need_mask m" n]
    by (auto simp: tlb_service_local_def Let_def and_cpu_bit bit_and_iff bit_not_iff bit_cpu_bit)
  fix c' p b assume c': "c' < ncpus ?m" and t: "tlbs ?m c' p = Some b"
  have old: "tlbs m c' p = Some b"
    and new: "c' = c \<Longrightarrow> tlb_req_matches m (current_as m c) \<Longrightarrow> bit (need_mask m) c \<Longrightarrow>
        req_max m mod PAGE_SIZE = 0 \<Longrightarrow> \<not> (req_min m \<le> p * PAGE_SIZE \<and> p * PAGE_SIZE < req_max m)"
    using t tlb_invalidate_mono [of "req_min m" "req_max m" "tlbs m c" p b]
      tlb_invalidate_Some [of "req_max m" "req_min m" "tlbs m c" p b] c64
    by (auto simp: tlb_service_local_def Let_def and_cpu_bit split: if_splits)
  have "cached_ok m c' (p * PAGE_SIZE) b" using coherentD [OF assms(1) _ old] c' by (simp add: same)
  then show "cached_ok ?m c' (p * PAGE_SIZE) b" using same(1)
  proof (rule cached_ok_mono)
    fix i assume i: "i < ncpus m" and e: "evicting m i c' (p * PAGE_SIZE)"
    have "flushing (pcs m i) \<Longrightarrow> req_max m mod PAGE_SIZE = 0" using assms(2) i by (auto simp: shootdown_ok_def)
    then show "evicting ?m i c' (p * PAGE_SIZE)"
      using e new mask
      by (auto simp: evicting_def same tlb_req_matches_def flushing_def split: flush_pc.splits)
  qed (simp_all add: same)
qed

lemma coherent_finish:
  assumes "coherent m" "pcs m c = WaitAcks" "need_mask m = 0"
  shows "coherent (flush_finish c m)"
proof -
  have "coherent (m\<lparr>tlb_busy := False\<rparr>)"
    using assms(1) by (simp add: coherent_def cached_ok_def evicting_def tlb_req_matches_def cong: flush_pc.case_cong)
  then show ?thesis using assms(2,3) unfolding flush_finish_def by (intro coherent_goto) (auto simp: evicting_def)
qed

lemma cpu_step_coherent:
  assumes "cpu_step c m m'" "c < ncpus m" "coherent m" "shootdown_ok m"
  shows "coherent m'"
  using assms(1)
proof cases
  case (flag a addr hi flags frames' as')
  then show ?thesis using coherent_flag [OF assms(3,4)] by simp
next
  case (interrupt)
  then show ?thesis using coherent_service [OF assms(3,4,2)] by (simp add: paging_handle_tlb_shootdown_def)
next
  case (lock a)
  then show ?thesis using assms(3) by (simp add: lock_enter_def coherent_leave)
next
  case (lock_spin a)
  then show ?thesis using coherent_service [OF assms(3,4,2)] assms(3) by (simp add: lock_turn_def coherent_leave)
next
  case (unlock a)
  then show ?thesis using assms(3) by (simp add: as_unlock_def coherent_leave)
next
  case (enter ases)
  then show ?thesis using assms(3) by (simp add: flush_begin_def coherent_leave)
next
  case (snap_spin ases a rest mn mx)
  then show ?thesis using coherent_service [OF assms(3,4,2)] coherent_snapshot [OF assms(3,4,2)] by (simp add: snap_turn_def)
next
  case (spin ases mn mx)
  then show ?thesis using coherent_service [OF assms(3,4,2)] coherent_publish [OF assms(3,4,2)] by (simp add: spin_turn_def)
qed (use assms(2-4) in \<open>simp_all add: coherent_fill coherent_switch coherent_service coherent_snap coherent_flush coherent_finish\<close>)

lemma shootdown_okD:
  "shootdown_ok m \<Longrightarrow> i < ncpus m \<Longrightarrow> pc_ok (pcs m i)"
  "shootdown_ok m \<Longrightarrow> as_ok (spaces m a)"
  "shootdown_ok m \<Longrightarrow> max_dirty (spaces m a) mod PAGE_SIZE = 0"
  by (simp_all only: shootdown_ok_def)

lemma pc_ok_simps [simp]:
  "pc_ok Idle" "pc_ok LocalFlush" "pc_ok WaitAcks" "pc_ok (LockWait a)" "pc_ok (Holding a)"
  "pc_ok (SnapWait ases todo mn mx) \<longleftrightarrow> todo \<noteq> [] \<and> set todo \<subseteq> set ases \<and> mx mod PAGE_SIZE = 0"
  "pc_ok (Snap ases todo mn mx) \<longleftrightarrow> set todo \<subseteq> set ases \<and> mx mod PAGE_SIZE = 0"
  "pc_ok (Spin ases mn mx) \<longleftrightarrow> mx mod PAGE_SIZE = 0"
  by (simp_all add: pc_ok_def)

lemma flushing_simps [simp]:
  "\<not> flushing Idle" "flushing LocalFlush" "flushing WaitAcks" "\<not> flushing (Snap ases todo mn mx)"
  "\<not> flushing (Spin ases mn mx)" "\<not> flushing (SnapWait ases todo mn mx)" "\<not> flushing (LockWait a)" "\<not> flushing (Holding a)"
  by (simp_all add: flushing_def)

lemma one_flusher_update:
  assumes "one_flusher n ps" "flushing q \<Longrightarrow> c < n \<and> flushing (ps c) \<or> (\<forall>i < n. \<not> flushing (ps i))"
  shows "one_flusher n (ps(c := q))"
  unfolding one_flusher_def
proof (intro allI impI)
  fix i j assume ij: "i < n" "j < n" "flushing ((ps(c := q)) i)" "flushing ((ps(c := q)) j)"
  show "i = j"
  proof (cases "flushing q")
    case False
    then have "flushing (ps i)" "flushing (ps j)" using ij by (auto split: if_splits)
    then show ?thesis using assms(1) ij unfolding one_flusher_def by blast
  next
    case True
    then consider "c < n" "flushing (ps c)" | "\<forall>i < n. \<not> flushing (ps i)" using assms(2) by blast
    then show ?thesis
    proof cases
      case 1
      then have "flushing (ps i)" "flushing (ps j)" using ij by (auto split: if_splits)
      then show ?thesis using assms(1) ij unfolding one_flusher_def by blast
    next
      case 2
      then show ?thesis using ij by (auto split: if_splits)
    qed
  qed
qed

lemma shootdown_ok_set_tlb [simp]: "shootdown_ok (set_tlb c t m) = shootdown_ok m"
  by (simp add: shootdown_ok_def)

lemma shootdown_ok_cong:
  "shootdown_ok m \<Longrightarrow> ncpus m' = ncpus m \<Longrightarrow> spaces m' = spaces m \<Longrightarrow> pcs m' = pcs m \<Longrightarrow>
   tlb_busy m' = tlb_busy m \<Longrightarrow> req_max m' = req_max m \<Longrightarrow>
   mask_within (ncpus m) (need_mask m') \<Longrightarrow> shootdown_ok m'"
  by (simp add: shootdown_ok_def)

lemma shootdown_ok_set_pc:
  "shootdown_ok m \<Longrightarrow> pc_ok q \<Longrightarrow> \<not> flushing q \<Longrightarrow> shootdown_ok (set_pc c q m)"
  by (simp add: shootdown_ok_def) (rule one_flusher_update, simp_all)

lemma shootdown_ok_flushing:
  "shootdown_ok m \<Longrightarrow> c < ncpus m \<Longrightarrow> flushing (pcs m c) \<Longrightarrow> pc_ok q \<Longrightarrow> flushing q \<Longrightarrow> shootdown_ok (set_pc c q m)"
  by (simp add: shootdown_ok_def) (rule one_flusher_update, simp_all)

lemma shootdown_ok_space:
  "shootdown_ok m \<Longrightarrow> as_ok as \<Longrightarrow> max_dirty as mod PAGE_SIZE = 0 \<Longrightarrow>
   shootdown_ok (m\<lparr>spaces := (spaces m)(a := as)\<rparr>)"
  by (simp add: shootdown_ok_def)

lemma shootdown_ok_snapshot:
  assumes "shootdown_ok m" "c < ncpus m" "pcs m c = SnapWait ases (a # rest) mn mx"
  shows "shootdown_ok (take_snapshot c ases a rest mn mx m)"
proof -
  have pc: "set rest \<subseteq> set ases" "mx mod PAGE_SIZE = 0"
    using shootdown_okD(1) [OF assms(1,2)] assms(3) by simp_all
  note d = shootdown_okD(3,2) [OF assms(1)]
  have "max mx (max_dirty (spaces m a)) mod PAGE_SIZE = 0" using pc(2) d(1) [of a] unfolding max_def by presburger
  moreover have "as_ok (clear_dirty (spaces m a))" "max_dirty (clear_dirty (spaces m a)) mod PAGE_SIZE = 0"
    using d(2) [of a] by (simp_all add: as_ok_def clear_dirty_def DIRTY_EMPTY_MAX_def)
  ultimately show ?thesis
    using assms(1) pc by (simp add: take_snapshot_def Let_def shootdown_ok_set_pc shootdown_ok_space)
qed

lemma shootdown_ok_publish:
  assumes "shootdown_ok m" "c < ncpus m" "pcs m c = Spin ases mn mx" "\<not> tlb_busy m"
  shows "shootdown_ok (flush_publish c ases mn mx m)"
proof -
  have "pc_ok (pcs m c)" using assms(1,2) by (rule shootdown_okD)
  then have "mx mod PAGE_SIZE = 0" using assms(3) by simp
  moreover have "\<forall>i < ncpus m. \<not> flushing (pcs m i)" using assms(1,4) unfolding shootdown_ok_def by blast
  moreover from this have "one_flusher (ncpus m) ((pcs m)(c := LocalFlush))"
    using assms(1) by (intro one_flusher_update) (simp_all add: shootdown_ok_def)
  ultimately show ?thesis
    using assms(1) flush_targets_bound [of "m\<lparr>tlb_busy := True, req_ases := ases, req_min := mn, req_max := mx\<rparr>" c]
    by (simp add: shootdown_ok_def flush_publish_def Let_def)
qed

lemma shootdown_ok_service:
  assumes "shootdown_ok m" shows "shootdown_ok (tlb_service_local c m)"
proof -
  have "mask_within (ncpus m) (need_mask m)" using assms by (simp add: shootdown_ok_def)
  then have "mask_within (ncpus m) (need_mask (tlb_service_local c m))"
    by (auto simp: tlb_service_local_def Let_def mask_within_def bit_and_iff)
  then show ?thesis by (intro shootdown_ok_cong [OF assms]) (simp_all add: tlb_service_local_def Let_def)
qed

lemma shootdown_ok_finish:
  assumes "shootdown_ok m" "c < ncpus m" "pcs m c = WaitAcks"
  shows "shootdown_ok (flush_finish c m)"
proof -
  have "\<forall>i < ncpus m. i \<noteq> c \<longrightarrow> \<not> flushing (pcs m i)"
    using assms unfolding shootdown_ok_def one_flusher_def by (metis flushing_simps(3))
  moreover have "one_flusher (ncpus m) ((pcs m)(c := Idle))"
    using assms(1) by (intro one_flusher_update) (simp_all add: shootdown_ok_def)
  ultimately have "shootdown_ok (set_pc c Idle (m\<lparr>tlb_busy := False\<rparr>))" using assms(1) by (simp add: shootdown_ok_def)
  moreover have "same_view (set_pc c Idle (m\<lparr>tlb_busy := False\<rparr>)) (flush_finish c m)"
    by (simp add: flush_finish_def same_view_def set_pc_def irq_enable_def)
  ultimately show ?thesis using shootdown_ok_same_view by blast
qed

lemma cpu_step_ok:
  assumes "cpu_step c m m'" "c < ncpus m" "shootdown_ok m"
  shows "shootdown_ok m'"
  using assms(1)
proof cases
  case (fill p)
  then show ?thesis using assms(3) by (simp add: tlb_fill_def)
next
  case (switch a)
  have "shootdown_ok (m\<lparr>current_as := (current_as m)(c := a)\<rparr>)" using assms(3) by (simp add: shootdown_ok_def)
  then show ?thesis using switch by (simp add: as_switch_def)
next
  case (flag a addr hi flags frames' as')
  then show ?thesis using assms(3) as_flag_Some(1,2) [OF flag(3) _ flag(4,5)] by (simp add: shootdown_ok_def)
next
  case (interrupt)
  then show ?thesis using shootdown_ok_service [OF assms(3)] by (simp add: paging_handle_tlb_shootdown_def)
next
  case (lock a)
  then show ?thesis using assms(3) by (simp add: lock_enter_def shootdown_ok_set_pc)
next
  case (lock_spin a)
  then show ?thesis using assms(3) shootdown_ok_service by (simp add: lock_turn_def shootdown_ok_set_pc)
next
  case (unlock a)
  then show ?thesis using assms(3) by (simp add: as_unlock_def shootdown_ok_set_pc)
next
  case (enter ases)
  then show ?thesis using assms(3) by (simp add: flush_begin_def shootdown_ok_set_pc DIRTY_EMPTY_MAX_def)
next
  case (snap ases todo mn mx)
  have "pc_ok (Snap ases todo mn mx)" using shootdown_okD(1) [OF assms(3,2)] snap by simp
  then show ?thesis using assms(3) snap by (auto simp: flush_snap_def shootdown_ok_set_pc split: list.split)
next
  case (snap_spin ases a rest mn mx)
  then show ?thesis using shootdown_ok_snapshot [OF assms(3,2)] shootdown_ok_service [OF assms(3)] by (simp add: snap_turn_def)
next
  case (spin ases mn mx)
  then show ?thesis using shootdown_ok_publish [OF assms(3,2)] shootdown_ok_service [OF assms(3)] by (simp add: spin_turn_def)
next
  case (flush)
  then show ?thesis using assms(2,3) by (auto simp: flush_local_def intro!: shootdown_ok_flushing)
qed (use assms(2,3) in \<open>simp_all add: shootdown_ok_service shootdown_ok_finish\<close>)

section \<open>Reachable machines\<close>

lemma steps_ok:
  assumes "tlb_step\<^sup>*\<^sup>* m m'" "coherent m" "shootdown_ok m"
  shows "coherent m' \<and> shootdown_ok m'"
  using assms(1)
proof (induction rule: rtranclp_induct)
  case base
  then show ?case using assms(2,3) by simp
next
  case (step y z)
  then show ?case using cpu_step_coherent cpu_step_ok by (auto simp: tlb_step_def)
qed

text \<open>A machine that has cached nothing yet and flushes nothing.\<close>

definition cold :: "machine \<Rightarrow> bool" where
  "cold m \<longleftrightarrow> ncpus m \<le> 64 \<and> (\<forall>a. as_ok (spaces m a) \<and> max_dirty (spaces m a) mod PAGE_SIZE = 0) \<and>
     tlbs m = (\<lambda>_ _. None) \<and> pcs m = (\<lambda>_. Idle) \<and> \<not> tlb_busy m \<and> need_mask m = 0"

lemma cold_ok: "cold m \<Longrightarrow> coherent m \<and> shootdown_ok m"
  by (simp add: cold_def coherent_def shootdown_ok_def one_flusher_def mask_within_def)

text \<open>
  C7: in every state reachable from a cold machine, under any interleaving of cache fills, page-table
  changes, address-space switches and flushes of up to 64 processors, once no flush is under way and the
  address space a processor runs has no dirty range left, everything that processor has cached is what the
  page tables say now: a completed \<open>as_flush\<close> leaves no stale translation anywhere.
\<close>

theorem shootdown_coherent:
  assumes "cold m" "tlb_step\<^sup>*\<^sup>* m m'" "\<forall>i < ncpus m'. pcs m' i = Idle" "c < ncpus m'"
    "\<not> has_dirty (spaces m' (current_as m' c))" "tlbs m' c p = Some b"
  shows "b = page_bits (spaces m' (current_as m' c)) (p * PAGE_SIZE)"
proof -
  have "coherent m'" using steps_ok [OF assms(2)] cold_ok [OF assms(1)] by blast
  from coherentD [OF this assms(4,6)] show ?thesis
    using assms(3,5) by (auto simp: cached_ok_def evicting_def in_dirty_def has_dirty_def)
qed

definition sample_machine :: "address_space \<Rightarrow> machine" where
  "sample_machine as = \<lparr>spaces = (\<lambda>_. as), mut_lock = (\<lambda>_. False), pt_frames = 7, ncpus = 2, current_as = (\<lambda>_. 0), irq_depth = (\<lambda>_. 0),
     ipi = (\<lambda>_. False), tlbs = (\<lambda>_ _. None), pcs = (\<lambda>_. Idle), tlb_busy = False, req_ases = [], req_min = 0, req_max = 0, need_mask = 0\<rparr>"

theorem shootdown_coherent_witness:
  "\<exists>as m'. as_identity_mapping 10 = Some (as, 7) \<and> tlb_step\<^sup>*\<^sup>* (sample_machine as) m'
    \<and> tlbs m' 1 3 = Some (PTE_P OR PTE_RW)"
proof -
  obtain as where i: "as_identity_mapping 10 = Some (as, 7)"
    by (simp add: as_identity_mapping_def pristine_bits)
  note ok = identity_ok [OF i]
  let ?m = "sample_machine as" and ?m' = "tlb_fill 1 3 (sample_machine as)"
  have empty: "min_dirty as = DIRTY_EMPTY_MIN" "max_dirty as = DIRTY_EMPTY_MAX"
    using i by (auto simp: as_identity_mapping_def pristine_bits asserts_def split: if_splits)
  have cold: "cold ?m" using ok(1) empty by (simp add: cold_def sample_machine_def DIRTY_EMPTY_MAX_def)
  have step: "tlb_step\<^sup>*\<^sup>* ?m ?m'"
    using cpu_step.fill [of 3 1 ?m] by (intro r_into_rtranclp) (auto simp: tlb_step_def sample_machine_def PAGE_SIZE_def intro!: exI [of _ 1])
  have f: "tlbs ?m' 1 3 = Some (page_bits as (3 * PAGE_SIZE))" by (simp add: tlb_fill_def sample_machine_def)
  have "page_bits as (3 * PAGE_SIZE) = page_bits (spaces ?m' (current_as ?m' 1)) (3 * PAGE_SIZE)"
    using shootdown_coherent [OF cold step _ _ _ f] empty
    by (simp add: tlb_fill_def sample_machine_def has_dirty_def DIRTY_EMPTY_MAX_def)
  moreover have "page_bits as (3 * PAGE_SIZE) = PTE_P OR PTE_RW"
    using ok(2) [of "3 * PAGE_SIZE"] by (simp add: PAGE_SIZE_def)
  ultimately show ?thesis using i step f by auto
qed

section \<open>Progress\<close>

lemma service_simps [simp]:
  "pcs (tlb_service_local c m) = pcs m" "ncpus (tlb_service_local c m) = ncpus m"
  "irq_depth (tlb_service_local c m) = irq_depth m" "mut_lock (tlb_service_local c m) = mut_lock m"
  "ipi (tlb_service_local c m) = ipi m" "tlb_busy (tlb_service_local c m) = tlb_busy m"
  by (simp_all add: tlb_service_local_def Let_def)

lemma service_mask:
  "c < 64 \<Longrightarrow> bit (need_mask (tlb_service_local c m)) n \<longleftrightarrow> bit (need_mask m) n \<and> n \<noteq> c"
  using bit_imp_le_length [of "need_mask m" n]
  by (auto simp: tlb_service_local_def Let_def and_cpu_bit bit_and_iff bit_not_iff bit_cpu_bit)

lemma service_mask_sub: "bit (need_mask (tlb_service_local c m)) n \<Longrightarrow> bit (need_mask m) n"
  by (auto simp: tlb_service_local_def Let_def bit_and_iff split: if_splits)

text \<open>
  What the waiting loops rely on: interrupts are off in every loop, a held lock has exactly one holder, every
  processor that still has to acknowledge was sent an interrupt, the one flusher never waits for itself, and a
  busy slot has a flusher.
\<close>

definition spinning :: "flush_pc \<Rightarrow> bool" where
  "spinning p = (case p of Idle \<Rightarrow> False | Snap ases todo mn mx \<Rightarrow> False | _ \<Rightarrow> True)"

definition irqs_ok :: "machine \<Rightarrow> bool" where
  "irqs_ok m \<longleftrightarrow> (\<forall>i < ncpus m. spinning (pcs m i) \<longrightarrow> 0 < irq_depth m i)"

definition locks_ok :: "machine \<Rightarrow> bool" where
  "locks_ok m \<longleftrightarrow> (\<forall>a. mut_lock m a \<longleftrightarrow> (\<exists>i < ncpus m. pcs m i = Holding a)) \<and>
     (\<forall>i < ncpus m. \<forall>j < ncpus m. \<forall>a. pcs m i = Holding a \<longrightarrow> pcs m j = Holding a \<longrightarrow> i = j)"

definition acks_ok :: "machine \<Rightarrow> bool" where
  "acks_ok m \<longleftrightarrow> (\<forall>i. bit (need_mask m) i \<longrightarrow> ipi m i) \<and>
     (\<forall>i < ncpus m. flushing (pcs m i) \<longrightarrow> \<not> bit (need_mask m) i) \<and>
     (tlb_busy m \<longrightarrow> (\<exists>i < ncpus m. flushing (pcs m i)))"

lemma spinning_simps [simp]:
  "\<not> spinning Idle" "\<not> spinning (Snap ases todo mn mx)" "spinning (LockWait a)" "spinning (Holding a)"
  "spinning (SnapWait ases todo mn mx)" "spinning (Spin ases mn mx)" "spinning LocalFlush" "spinning WaitAcks"
  by (simp_all add: spinning_def)

lemmas stage_defs = tlb_fill_def as_switch_def paging_handle_tlb_shootdown_def lock_enter_def lock_turn_def
  as_unlock_def flush_begin_def flush_snap_def take_snapshot_def snap_turn_def flush_local_def flush_finish_def

lemma cpu_step_irqs:
  assumes "cpu_step c m m'" "irqs_ok m"
  shows "irqs_ok m'"
  using assms(1)
proof cases
  case (spin ases mn mx)
  then show ?thesis using assms(2) by (auto simp: irqs_ok_def spin_turn_def flush_publish_def Let_def)
qed (use assms(2) in \<open>auto simp: irqs_ok_def stage_defs Let_def split: list.splits if_splits\<close>)

lemma locks_frame:
  assumes "locks_ok m" "ncpus m' = ncpus m" "mut_lock m' = mut_lock m"
    "\<And>i a. i < ncpus m \<Longrightarrow> pcs m' i = Holding a \<longleftrightarrow> pcs m i = Holding a"
  shows "locks_ok m'"
  using assms unfolding locks_ok_def by (metis (no_types, lifting))

lemma acks_frame:
  assumes "acks_ok m" "ncpus m' = ncpus m" "ipi m' = ipi m" "tlb_busy m' = tlb_busy m"
    "\<And>i. i < ncpus m \<Longrightarrow> flushing (pcs m' i) \<longleftrightarrow> flushing (pcs m i)" "\<And>i. bit (need_mask m') i \<Longrightarrow> bit (need_mask m) i"
  shows "acks_ok m'"
  using assms unfolding acks_ok_def by metis

lemma locks_okD:
  assumes "locks_ok m"
  shows "mut_lock m a \<longleftrightarrow> (\<exists>i < ncpus m. pcs m i = Holding a)"
    "pcs m i = Holding a \<Longrightarrow> pcs m j = Holding a \<Longrightarrow> i < ncpus m \<Longrightarrow> j < ncpus m \<Longrightarrow> i = j"
  using assms unfolding locks_ok_def by blast+

lemma cpu_step_locks:
  assumes "cpu_step c m m'" "c < ncpus m" "locks_ok m"
  shows "locks_ok m'"
  using assms(1)
proof cases
  case (lock_spin a)
  show ?thesis
  proof (cases "mut_lock m a")
    case True
    then show ?thesis using lock_spin by (intro locks_frame [OF assms(3)]) (simp_all add: lock_turn_def)
  next
    case False
    have free: "pcs m i \<noteq> Holding a" if "i < ncpus m" for i using False locks_okD(1) [OF assms(3)] that by blast
    have m': "pcs m' = (pcs m)(c := Holding a)" "ncpus m' = ncpus m" "mut_lock m' = (mut_lock m)(a := True)"
      using lock_spin False by (simp_all add: lock_turn_def)
    have at: "pcs m' i = Holding b \<longleftrightarrow> (if b = a then i = c else pcs m i = Holding b)" if "i < ncpus m" for i b
      using free [OF that] lock_spin(2) by (auto simp: m')
    have "mut_lock m' b \<longleftrightarrow> (\<exists>i < ncpus m'. pcs m' i = Holding b)" for b
      using at assms(2) locks_okD(1) [OF assms(3), of b] by (cases "b = a") (auto simp: m'(2,3))
    moreover have "i = j" if "i < ncpus m'" "j < ncpus m'" "pcs m' i = Holding b" "pcs m' j = Holding b" for i j b
      using that at locks_okD(2) [OF assms(3), of i b j] by (cases "b = a") (simp_all add: m'(2))
    ultimately show ?thesis unfolding locks_ok_def by blast
  qed
next
  case (unlock a)
  have m': "pcs m' = (pcs m)(c := Idle)" "ncpus m' = ncpus m" "mut_lock m' = (mut_lock m)(a := False)"
    using unlock by (simp_all add: as_unlock_def)
  have "pcs m i = Holding a \<Longrightarrow> i < ncpus m \<Longrightarrow> i = c" for i using locks_okD(2) [OF assms(3)] assms(2) unlock(2) by blast
  then have "i = c \<or> pcs m i \<noteq> Holding a" if "i < ncpus m" for i using that by blast
  then have at: "pcs m' i = Holding b \<longleftrightarrow> b \<noteq> a \<and> pcs m i = Holding b" if "i < ncpus m" for i b
    using that unlock(2) by (cases "i = c") (simp_all add: m', blast+)
  have "mut_lock m' b \<longleftrightarrow> (\<exists>i < ncpus m'. pcs m' i = Holding b)" for b
    using at locks_okD(1) [OF assms(3), of b] by (cases "b = a") (auto simp: m'(2,3))
  moreover have "i = j" if "i < ncpus m'" "j < ncpus m'" "pcs m' i = Holding b" "pcs m' j = Holding b" for i j b
    using that at locks_okD(2) [OF assms(3), of i b j] by (simp add: m'(2))
  ultimately show ?thesis unfolding locks_ok_def by blast
next
  case (spin ases mn mx)
  then show ?thesis by (intro locks_frame [OF assms(3)]) (auto simp: spin_turn_def flush_publish_def Let_def)
qed (intro locks_frame [OF assms(3)]; auto simp: stage_defs Let_def split: list.splits if_splits)+

lemma cpu_step_acks:
  assumes "cpu_step c m m'" "c < ncpus m" "acks_ok m" "shootdown_ok m"
  shows "acks_ok m'"
  using assms(1)
proof cases
  case (interrupt)
  have "c < 64" using assms(2,4) by (simp add: shootdown_ok_def)
  then show ?thesis using assms(3) interrupt by (auto simp: acks_ok_def paging_handle_tlb_shootdown_def service_mask)
next
  case (spin ases mn mx)
  show ?thesis
  proof (cases "tlb_busy m")
    case True
    then show ?thesis using assms(3) spin by (auto simp: acks_ok_def spin_turn_def dest: service_mask_sub)
  next
    case False
    let ?r = "m\<lparr>tlb_busy := True, req_ases := ases, req_min := mn, req_max := mx\<rparr>"
    have n: "ncpus ?r \<le> 64" using assms(4) by (simp add: shootdown_ok_def)
    have t: "bit (flush_targets c ?r) i \<Longrightarrow> i < ncpus m" for i using flush_targets_bound [of ?r c] by (simp add: mask_within_def)
    have self: "\<not> bit (flush_targets c ?r) c" using bit_flush_targets [OF n, of c c] assms(2) by simp
    have quiet: "\<not> flushing (pcs m i)" if "i < ncpus m" for i using assms(4) False that by (auto simp: shootdown_ok_def)
    have ack: "bit (flush_targets c ?r) i \<Longrightarrow> flush_targets c ?r AND cpu_bit i \<noteq> 0" for i
      using t [of i] n and_cpu_bit [of i "flush_targets c ?r"] by auto
    have "m' = flush_publish c ases mn mx m" using spin False by (simp add: spin_turn_def)
    then have m': "pcs m' = (pcs m)(c := LocalFlush)" "ncpus m' = ncpus m" "need_mask m' = flush_targets c ?r"
      "ipi m' = (\<lambda>i. ipi m i \<or> i < ncpus m \<and> flush_targets c ?r AND cpu_bit i \<noteq> 0)"
      by (simp_all add: flush_publish_def Let_def)
    show ?thesis unfolding acks_ok_def m' using t ack self quiet assms(2) by auto
  qed
next
  case (finish)
  then show ?thesis using assms(2,3) by (auto simp: acks_ok_def flush_finish_def)
qed (intro acks_frame [OF assms(3)]; auto simp: stage_defs Let_def dest: service_mask_sub split: list.splits if_splits)+

definition machine_ok :: "machine \<Rightarrow> bool" where
  "machine_ok m \<longleftrightarrow> shootdown_ok m \<and> irqs_ok m \<and> locks_ok m \<and> acks_ok m"

lemma cpu_step_ncpus: "cpu_step c m m' \<Longrightarrow> ncpus m' = ncpus m"
  by (erule cpu_step.cases) (auto simp: stage_defs spin_turn_def flush_publish_def Let_def split: list.splits)

lemma cpu_step_machine_ok: "cpu_step c m m' \<Longrightarrow> c < ncpus m \<Longrightarrow> machine_ok m \<Longrightarrow> machine_ok m'"
  unfolding machine_ok_def using cpu_step_ok cpu_step_irqs cpu_step_locks cpu_step_acks by blast

lemma tlb_step_machine_ok: "tlb_step m m' \<Longrightarrow> machine_ok m \<Longrightarrow> machine_ok m'"
  unfolding tlb_step_def using cpu_step_machine_ok by blast

lemma steps_machine_ok: "tlb_step\<^sup>*\<^sup>* m m' \<Longrightarrow> machine_ok m \<Longrightarrow> machine_ok m'"
  by (induction rule: rtranclp_induct) (auto intro: tlb_step_machine_ok)

lemma cold_machine_ok: "cold m \<Longrightarrow> \<forall>a. \<not> mut_lock m a \<Longrightarrow> machine_ok m"
  using cold_ok [of m] by (simp add: machine_ok_def irqs_ok_def locks_ok_def acks_ok_def cold_def)

text \<open>How far a processor is from a place where it looks at the request.\<close>

definition stage_rank :: "flush_pc \<Rightarrow> nat" where
  "stage_rank p = (case p of Holding a \<Rightarrow> 1 | LockWait a \<Rightarrow> 2 | Snap ases todo mn mx \<Rightarrow> 2 * length todo + 1
     | SnapWait ases todo mn mx \<Rightarrow> 2 * length todo | _ \<Rightarrow> 0)"

definition ack_distance :: "machine \<Rightarrow> nat \<Rightarrow> nat" where
  "ack_distance m i = 3 * stage_rank (pcs m i) + irq_depth m i"

text \<open>
  A step of processor \<open>i\<close> that acknowledges, or brings it closer to doing so: nobody else moves, and no new
  acknowledgement is owed.
\<close>

definition ack_step :: "nat \<Rightarrow> machine \<Rightarrow> machine \<Rightarrow> bool" where
  "ack_step i m m' \<longleftrightarrow> cpu_step i m m' \<and> (\<not> bit (need_mask m') i \<or> ack_distance m' i < ack_distance m i) \<and>
     (\<forall>n. bit (need_mask m') n \<longrightarrow> bit (need_mask m) n) \<and>
     (\<forall>j. j \<noteq> i \<longrightarrow> pcs m' j = pcs m j \<and> irq_depth m' j = irq_depth m j) \<and> tlb_busy m' = tlb_busy m \<and>
     (\<forall>ases mn mx. pcs m i = Spin ases mn mx \<longrightarrow> pcs m' i = pcs m i)"

lemma ack_stepI_service:
  "i < 64 \<Longrightarrow> cpu_step i m (tlb_service_local i m) \<Longrightarrow> ack_step i m (tlb_service_local i m)"
  by (simp add: ack_step_def service_mask)

lemma target_moves:
  assumes "machine_ok m" "tlb_busy m" "bit (need_mask m) i"
  shows "\<exists>m'. ack_step i m m'"
proof -
  have i: "i < ncpus m" "i < 64" using assms(1,3) by (auto simp: machine_ok_def shootdown_ok_def mask_within_def)
  have nf: "\<not> flushing (pcs m i)" using assms(1,3) i(1) by (auto simp: machine_ok_def acks_ok_def)
  have off: "spinning (pcs m i) \<Longrightarrow> 0 < irq_depth m i" using assms(1) i(1) by (simp add: machine_ok_def irqs_ok_def)
  note svc = ack_stepI_service [OF i(2)]
  show ?thesis
  proof (cases "pcs m i")
    case Idle
    show ?thesis
    proof (cases "irq_depth m i = 0")
      case True
      have "ipi m i" using assms(1,3) by (simp add: machine_ok_def acks_ok_def)
      then have "ack_step i m (paging_handle_tlb_shootdown i m)"
        using cpu_step.interrupt [OF True] Idle i(2) by (simp add: ack_step_def paging_handle_tlb_shootdown_def service_mask)
      then show ?thesis ..
    next
      case False
      then have "ack_step i m (irq_enable i m)"
        using cpu_step.unmask [OF Idle] Idle by (simp add: ack_step_def ack_distance_def)
      then show ?thesis ..
    qed
  next
    case (LockWait a)
    note step = cpu_step.lock_spin [OF LockWait]
    show ?thesis
    proof (cases "mut_lock m a")
      case True
      then show ?thesis using svc step by (auto simp: lock_turn_def)
    next
      case False
      then have "ack_step i m (lock_turn i a m)" using step LockWait
        by (simp add: ack_step_def lock_turn_def ack_distance_def stage_rank_def)
      then show ?thesis ..
    qed
  next
    case (Holding a)
    then have "ack_step i m (as_unlock i a m)" using cpu_step.unlock [OF Holding]
      by (simp add: ack_step_def as_unlock_def ack_distance_def stage_rank_def) arith
    then show ?thesis ..
  next
    case (Snap ases todo mn mx)
    then have "ack_step i m (flush_snap i ases todo mn mx m)" using cpu_step.snap [OF Snap]
      by (auto simp: ack_step_def flush_snap_def ack_distance_def stage_rank_def split: list.split)
    then show ?thesis ..
  next
    case (SnapWait ases todo mn mx)
    have "todo \<noteq> []" using shootdown_okD(1) [of m i] assms(1) i(1) SnapWait by (simp add: machine_ok_def)
    then obtain a rest where todo: "todo = a # rest" by (cases todo) auto
    note step = cpu_step.snap_spin [OF SnapWait [unfolded todo]]
    show ?thesis
    proof (cases "mut_lock m a")
      case True
      then show ?thesis using svc step by (auto simp: snap_turn_def)
    next
      case False
      then have "ack_step i m (snap_turn i ases a rest mn mx m)" using step SnapWait off
        by (simp add: ack_step_def snap_turn_def take_snapshot_def Let_def ack_distance_def stage_rank_def todo)
      then show ?thesis ..
    qed
  next
    case (Spin ases mn mx)
    then show ?thesis using svc cpu_step.spin [OF Spin] assms(2) by (auto simp: spin_turn_def)
  qed (use nf in simp_all)
qed

definition owed :: "machine \<Rightarrow> nat" where
  "owed m = (\<Sum>i < ncpus m. if bit (need_mask m) i then ack_distance m i + 1 else 0)"

lemma ack_step_owed:
  assumes "ack_step i m m'" "i < ncpus m" "bit (need_mask m) i"
  shows "owed m' < owed m"
proof -
  let ?f = "\<lambda>m i. if bit (need_mask m) i then ack_distance m i + 1 else (0 :: nat)"
  have n: "ncpus m' = ncpus m" using assms(1) cpu_step_ncpus by (auto simp: ack_step_def)
  have "?f m' j \<le> ?f m j" for j using assms(1) by (cases "j = i") (auto simp: ack_step_def ack_distance_def)
  moreover have "?f m' i < ?f m i" using assms(1,3) by (auto simp: ack_step_def)
  ultimately show ?thesis unfolding owed_def n using assms(2) by (intro sum_strict_mono_ex1 bexI [of _ i]) simp_all
qed

text \<open>Everybody acknowledges while the flusher and the processors that spin for the slot stay where they are.\<close>

lemma all_ack:
  assumes "machine_ok m" "c < ncpus m" "pcs m c = WaitAcks"
  shows "\<exists>m'. tlb_step\<^sup>*\<^sup>* m m' \<and> need_mask m' = 0 \<and> pcs m' c = WaitAcks \<and>
    (\<forall>j ases mn mx. pcs m j = Spin ases mn mx \<longrightarrow> pcs m' j = pcs m j)"
  using assms
proof (induction "owed m" arbitrary: m rule: less_induct)
  case less
  show ?case
  proof (cases "need_mask m = 0")
    case True
    then show ?thesis using less.prems by blast
  next
    case False
    then obtain i where b: "bit (need_mask m) i" using bit_eqI [of "need_mask m" 0] by auto
    have i: "i < ncpus m" using b less.prems(1) by (auto simp: machine_ok_def shootdown_ok_def mask_within_def)
    have ic: "i \<noteq> c" using b less.prems by (auto simp: machine_ok_def acks_ok_def)
    have "tlb_busy m" using less.prems by (auto simp: machine_ok_def shootdown_ok_def)
    then obtain m1 where m1: "ack_step i m m1" using target_moves [OF less.prems(1) _ b] by blast
    then have st: "cpu_step i m m1" "pcs m1 c = WaitAcks" using ic less.prems(3) by (auto simp: ack_step_def)
    have ok: "machine_ok m1" "c < ncpus m1" using cpu_step_machine_ok [OF st(1) i less.prems(1)] cpu_step_ncpus [OF st(1)] less.prems(2) by simp_all
    obtain m' where m': "tlb_step\<^sup>*\<^sup>* m1 m'" "need_mask m' = 0" "pcs m' c = WaitAcks"
      "\<forall>j ases mn mx. pcs m1 j = Spin ases mn mx \<longrightarrow> pcs m' j = pcs m1 j"
      using less.hyps [OF ack_step_owed [OF m1 i b] ok st(2)] by blast
    have "pcs m' j = pcs m j" if "pcs m j = Spin ases mn mx" for j ases mn mx
    proof -
      have "pcs m1 j = pcs m j" using m1 that by (cases "j = i") (auto simp: ack_step_def)
      then show ?thesis using m'(4) that by metis
    qed
    moreover have "tlb_step m m1" using st(1) i by (auto simp: tlb_step_def)
    then have "tlb_step\<^sup>*\<^sup>* m m'" using m'(1) by (rule converse_rtranclp_into_rtranclp)
    ultimately show ?thesis using m'(2,3) by blast
  qed
qed

lemma flusher_finishes:
  assumes "machine_ok m" "c < ncpus m" "flushing (pcs m c)"
  shows "\<exists>m'. tlb_step\<^sup>*\<^sup>* m m' \<and> pcs m' c = Idle \<and> \<not> tlb_busy m' \<and> need_mask m' = 0 \<and>
    (\<forall>j ases mn mx. pcs m j = Spin ases mn mx \<longrightarrow> pcs m' j = pcs m j)"
proof -
  define m1 where "m1 = (if pcs m c = LocalFlush then flush_local c m else m)"
  have "tlb_step\<^sup>*\<^sup>* m m1" using cpu_step.flush [of m c] assms(2) unfolding m1_def by (auto simp: tlb_step_def intro!: r_into_rtranclp)
  moreover have m1: "pcs m1 c = WaitAcks" "ncpus m1 = ncpus m" "\<forall>j. j \<noteq> c \<longrightarrow> pcs m1 j = pcs m j"
    using assms(3) by (auto simp: m1_def flush_local_def flushing_def)
  ultimately obtain m2 where m2: "tlb_step\<^sup>*\<^sup>* m m2" "need_mask m2 = 0" "pcs m2 c = WaitAcks"
    "\<forall>j ases mn mx. pcs m1 j = Spin ases mn mx \<longrightarrow> pcs m2 j = pcs m1 j"
    using all_ack [of m1 c] steps_machine_ok assms(1,2) by (metis (no_types, lifting) rtranclp_trans)
  have n: "ncpus m2 = ncpus m" using m2(1)
    by (induction rule: rtranclp_induct) (auto simp: tlb_step_def dest: cpu_step_ncpus)
  have "tlb_step m2 (flush_finish c m2)" using cpu_step.finish [OF m2(3,2)] assms(2) n by (auto simp: tlb_step_def)
  then have "tlb_step\<^sup>*\<^sup>* m (flush_finish c m2)" using m2(1) by simp
  moreover have "pcs (flush_finish c m2) j = pcs m j" if "pcs m j = Spin ases mn mx" for j ases mn mx
  proof -
    have "j \<noteq> c" using that assms(3) by auto
    then show ?thesis using m1(3) m2(4) that by (simp add: flush_finish_def)
  qed
  ultimately show ?thesis using m2(2) by (intro exI [of _ "flush_finish c m2"]) (auto simp: flush_finish_def irq_enable_def set_pc_def)
qed

text \<open>A held lock is released by its holder, and nobody else moves.\<close>

lemma lock_freed:
  assumes "machine_ok m"
  shows "\<exists>m'. tlb_step\<^sup>*\<^sup>* m m' \<and> \<not> mut_lock m' a \<and> (\<forall>j. pcs m j \<noteq> Holding a \<longrightarrow> pcs m' j = pcs m j)"
proof (cases "mut_lock m a")
  case True
  then obtain i where i: "i < ncpus m" "pcs m i = Holding a" using assms by (auto simp: machine_ok_def locks_ok_def)
  have "tlb_step m (as_unlock i a m)" using cpu_step.unlock [OF i(2)] i(1) by (auto simp: tlb_step_def)
  then have "tlb_step\<^sup>*\<^sup>* m (as_unlock i a m)" by (rule r_into_rtranclp)
  then show ?thesis using i(2) by (intro exI [of _ "as_unlock i a m"]) (auto simp: as_unlock_def)
qed blast

lemma steps_ncpus: "tlb_step\<^sup>*\<^sup>* m m' \<Longrightarrow> ncpus m' = ncpus m"
  by (induction rule: rtranclp_induct) (auto simp: tlb_step_def dest: cpu_step_ncpus)

lemma spinner_finishes:
  assumes "machine_ok m" "c < ncpus m" "pcs m c = Spin ases mn mx"
  shows "\<exists>m'. tlb_step\<^sup>*\<^sup>* m m' \<and> pcs m' c = Idle"
proof -
  obtain m1 where m1: "tlb_step\<^sup>*\<^sup>* m m1" "\<not> tlb_busy m1" "pcs m1 c = Spin ases mn mx"
  proof (cases "tlb_busy m")
    case True
    then obtain h where "h < ncpus m" "flushing (pcs m h)" using assms(1) by (auto simp: machine_ok_def acks_ok_def)
    then show ?thesis using flusher_finishes [OF assms(1)] assms(3) that by metis
  qed (use assms(3) in blast)
  have n: "c < ncpus m1" using steps_ncpus [OF m1(1)] assms(2) by simp
  have "tlb_step m1 (flush_publish c ases mn mx m1)"
    using cpu_step.spin [OF m1(3)] m1(2) n by (auto simp: tlb_step_def spin_turn_def)
  then have st: "tlb_step\<^sup>*\<^sup>* m (flush_publish c ases mn mx m1)" using m1(1) by simp
  moreover have "flushing (pcs (flush_publish c ases mn mx m1) c)" by (simp add: flush_publish_def Let_def)
  ultimately obtain m' where "tlb_step\<^sup>*\<^sup>* (flush_publish c ases mn mx m1) m'" "pcs m' c = Idle"
    using flusher_finishes [OF steps_machine_ok [OF st assms(1)]] steps_ncpus [OF st] assms(2) by metis
  then show ?thesis using st by (metis rtranclp_trans)
qed

lemma everyone_finishes:
  "machine_ok m \<Longrightarrow> c < ncpus m \<Longrightarrow> \<exists>m'. tlb_step\<^sup>*\<^sup>* m m' \<and> pcs m' c = Idle"
proof (induction "stage_rank (pcs m c)" arbitrary: m rule: less_induct)
  case less
  have go: ?case if to: "tlb_step\<^sup>*\<^sup>* m m1" "cpu_step c m1 m2" "stage_rank (pcs m2 c) < stage_rank (pcs m c)" for m1 m2
  proof -
    have n: "c < ncpus m1" using steps_ncpus [OF to(1)] less.prems(2) by simp
    have st: "tlb_step\<^sup>*\<^sup>* m m2" using to(1,2) n by (metis rtranclp.rtrancl_into_rtrancl tlb_step_def)
    obtain m' where "tlb_step\<^sup>*\<^sup>* m2 m'" "pcs m' c = Idle"
      using less.hyps [OF to(3) steps_machine_ok [OF st less.prems(1)]] steps_ncpus [OF st] less.prems(2) by auto
    then show ?thesis using st by (metis rtranclp_trans)
  qed
  show ?case
  proof (cases "pcs m c")
    case Idle
    then show ?thesis by blast
  next
    case (LockWait a)
    have "pcs m c \<noteq> Holding a" using LockWait by simp
    then obtain m1 where m1: "tlb_step\<^sup>*\<^sup>* m m1" "\<not> mut_lock m1 a" "pcs m1 c = LockWait a"
      using lock_freed [OF less.prems(1), of a] LockWait by auto
    show ?thesis using m1(2) LockWait
      by (intro go [OF m1(1) cpu_step.lock_spin [OF m1(3)]]) (simp add: lock_turn_def stage_rank_def)
  next
    case (Holding a)
    have "tlb_step m (as_unlock c a m)" using cpu_step.unlock [OF Holding] less.prems(2) by (auto simp: tlb_step_def)
    then show ?thesis by (intro exI [of _ "as_unlock c a m"]) (auto simp: as_unlock_def)
  next
    case (Snap ases todo mn mx)
    then show ?thesis by (intro go [OF _ cpu_step.snap [OF Snap]]) (auto simp: flush_snap_def stage_rank_def split: list.split)
  next
    case (SnapWait ases todo mn mx)
    have "todo \<noteq> []" using shootdown_okD(1) [of m c] less.prems SnapWait by (simp add: machine_ok_def)
    then obtain a rest where todo: "todo = a # rest" by (cases todo) auto
    have "pcs m c \<noteq> Holding a" using SnapWait by simp
    then obtain m1 where m1: "tlb_step\<^sup>*\<^sup>* m m1" "\<not> mut_lock m1 a" "pcs m1 c = SnapWait ases (a # rest) mn mx"
      using lock_freed [OF less.prems(1), of a] SnapWait todo by auto
    show ?thesis using m1(2) SnapWait
      by (intro go [OF m1(1) cpu_step.snap_spin [OF m1(3)]]) (simp add: snap_turn_def take_snapshot_def Let_def stage_rank_def todo)
  next
    case (Spin ases mn mx)
    then show ?thesis using spinner_finishes [OF less.prems] by blast
  qed (use flusher_finishes [OF less.prems] in auto)
qed

text \<open>
  C14: no wait of the shootdown protocol deadlocks, although processors wait with interrupts off.  In every
  reachable state every processor that is inside \<open>as_flush_multi\<close> or waits for or holds the lock of an address
  space can still get out.  And while a processor waits for acknowledgements it is not itself among those it
  waits for, and each of them has a step of its own, by interrupt or by polling in the loop it spins in, that
  acknowledges or brings it closer to doing so.
\<close>

theorem flush_completes:
  assumes "cold m" "\<forall>a. \<not> mut_lock m a" "tlb_step\<^sup>*\<^sup>* m m'" "c < ncpus m'"
  shows "(\<exists>m''. tlb_step\<^sup>*\<^sup>* m' m'' \<and> pcs m'' c = Idle) \<and>
    (pcs m' c = WaitAcks \<longrightarrow> \<not> bit (need_mask m') c \<and> (\<forall>i. bit (need_mask m') i \<longrightarrow> (\<exists>m''. ack_step i m' m'')) \<and>
       (\<exists>m''. tlb_step\<^sup>*\<^sup>* m' m'' \<and> pcs m'' c = Idle \<and> \<not> tlb_busy m'' \<and> need_mask m'' = 0))"
proof -
  have ok: "machine_ok m'" using steps_machine_ok [OF assms(3)] cold_machine_ok assms(1,2) by blast
  have "tlb_busy m'" "\<not> bit (need_mask m') c" if "flushing (pcs m' c)"
    using ok assms(4) that by (auto simp: machine_ok_def shootdown_ok_def acks_ok_def)
  then show ?thesis using everyone_finishes [OF ok assms(4)] target_moves [OF ok] flusher_finishes [OF ok assms(4)] by fastforce
qed

text \<open>Processor 0 flushes page 0 of the address space that both processors run.\<close>

lemma sample_wait:
  assumes "as_ok as" "min_dirty as = DIRTY_EMPTY_MIN" "max_dirty as = DIRTY_EMPTY_MAX"
  shows "\<exists>m. tlb_step\<^sup>*\<^sup>* (sample_machine (mark_dirty 0 4096 as)) m \<and> ncpus m = 2 \<and> pcs m 0 = WaitAcks \<and> bit (need_mask m) 1"
proof -
  define as' where "as' = mark_dirty 0 4096 as"
  have as': "min_dirty as' = 0" "max_dirty as' = 4096"
    using assms by (simp_all add: as'_def mark_dirty_def DIRTY_EMPTY_MIN_def DIRTY_EMPTY_MAX_def UINT64_MAX_def)
  let ?m = "sample_machine as'"
  define m1 where "m1 = flush_begin 0 [0] ?m"
  have m1: "pcs m1 0 = Snap [0] [0] DIRTY_EMPTY_MIN DIRTY_EMPTY_MAX" "ncpus m1 = 2" "spaces m1 0 = as'"
    "current_as m1 = (\<lambda>_. 0)" "\<not> tlb_busy m1" "\<not> mut_lock m1 0"
    by (simp_all add: m1_def flush_begin_def sample_machine_def)
  define m2 where "m2 = flush_snap 0 [0] [0] DIRTY_EMPTY_MIN DIRTY_EMPTY_MAX m1"
  have m2: "pcs m2 0 = SnapWait [0] [0] DIRTY_EMPTY_MIN DIRTY_EMPTY_MAX" "ncpus m2 = 2" "spaces m2 0 = as'"
    "current_as m2 = (\<lambda>_. 0)" "\<not> tlb_busy m2" "\<not> mut_lock m2 0"
    using m1 by (simp_all add: m2_def flush_snap_def)
  define m3 where "m3 = snap_turn 0 [0] 0 [] DIRTY_EMPTY_MIN DIRTY_EMPTY_MAX m2"
  have m3: "pcs m3 0 = Snap [0] [] 0 4096" "ncpus m3 = 2" "current_as m3 = (\<lambda>_. 0)" "\<not> tlb_busy m3"
    using m2 as' by (simp_all add: m3_def snap_turn_def take_snapshot_def has_dirty_def DIRTY_EMPTY_MAX_def)
  define m4 where "m4 = flush_snap 0 [0] [] 0 4096 m3"
  have m4: "pcs m4 0 = Spin [0] 0 4096" "ncpus m4 = 2" "current_as m4 = (\<lambda>_. 0)" "\<not> tlb_busy m4"
    using m3 by (simp_all add: m4_def flush_snap_def)
  define m5 where "m5 = spin_turn 0 [0] 0 4096 m4"
  have m5: "pcs m5 0 = LocalFlush" "ncpus m5 = 2" "bit (need_mask m5) 1"
    using m4 by (simp_all add: m5_def spin_turn_def flush_publish_def Let_def bit_flush_targets tlb_req_matches_def)
  define m6 where "m6 = flush_local 0 m5"
  have m6: "pcs m6 0 = WaitAcks" "ncpus m6 = 2" "bit (need_mask m6) 1" using m5 by (simp_all add: m6_def flush_local_def)
  have "cpu_step 0 ?m m1" unfolding m1_def by (rule cpu_step.enter) (simp add: sample_machine_def)
  moreover have "cpu_step 0 m1 m2" unfolding m2_def by (rule cpu_step.snap) (simp add: m1)
  moreover have "cpu_step 0 m2 m3" unfolding m3_def by (rule cpu_step.snap_spin) (simp add: m2)
  moreover have "cpu_step 0 m3 m4" unfolding m4_def by (rule cpu_step.snap) (simp add: m3)
  moreover have "cpu_step 0 m4 m5" unfolding m5_def by (rule cpu_step.spin) (simp add: m4)
  moreover have "cpu_step 0 m5 m6" unfolding m6_def by (rule cpu_step.flush) (simp add: m5)
  moreover have "ncpus ?m = 2" by (simp add: sample_machine_def)
  ultimately have "tlb_step ?m m1" "tlb_step m1 m2" "tlb_step m2 m3" "tlb_step m3 m4" "tlb_step m4 m5" "tlb_step m5 m6"
    using m1(2) m2(2) m3(2) m4(2) m5(2) by (auto simp: tlb_step_def intro: exI [of _ 0])
  then have "tlb_step\<^sup>*\<^sup>* ?m m6" by (meson converse_rtranclp_into_rtranclp r_into_rtranclp)
  then show ?thesis using m6 by (auto simp: as'_def)
qed

theorem flush_completes_witness:
  "\<exists>as m'. as_identity_mapping 10 = Some (as, 7) \<and> pcs (m' :: machine) 0 = WaitAcks \<and> bit (need_mask m') 1
    \<and> (\<exists>m''. ack_step 1 m' m'') \<and> (\<exists>m''. tlb_step\<^sup>*\<^sup>* m' m'' \<and> pcs m'' 0 = Idle \<and> \<not> tlb_busy m'' \<and> need_mask m'' = 0)"
proof -
  obtain as where i: "as_identity_mapping 10 = Some (as, 7)"
    by (simp add: as_identity_mapping_def pristine_bits)
  note ok = identity_ok(1) [OF i]
  have empty: "min_dirty as = DIRTY_EMPTY_MIN" "max_dirty as = DIRTY_EMPTY_MAX"
    using i by (auto simp: as_identity_mapping_def pristine_bits asserts_def split: if_splits)
  let ?m = "sample_machine (mark_dirty 0 4096 as)"
  have cold: "cold ?m" "\<forall>a. \<not> mut_lock ?m a"
    using ok empty by (auto simp: cold_def sample_machine_def PAGE_SIZE_def mark_dirty_def as_ok_def DIRTY_EMPTY_MIN_def
        DIRTY_EMPTY_MAX_def UINT64_MAX_def Let_def)
  obtain m where m: "tlb_step\<^sup>*\<^sup>* ?m m" "ncpus m = 2" "pcs m 0 = WaitAcks" "bit (need_mask m) 1"
    using sample_wait [OF ok empty] by blast
  show ?thesis using flush_completes [OF cold m(1), of 0] m i by auto
qed

end
