(* ===== verification/Vtd.thy ===== *)
theory Vtd
  imports Paging
begin

text \<open>
  The DMA remapping unit, \<^verbatim>\<open>kernel/archsrc/x86_64/vtd.c\<close>: protection-domain numbers, the context
  entries that bind a PCI requester to a domain, and each domain's second-level page table with 4 KiB and
  2 MiB leaves.

  A table entry is the raw word of an absent entry or a leaf, or a pointer entry together with the table
  it points at.  \<open>None\<close> is a \<open>fatal\<close> or a walk through a leaf as if it were a table.  The two oracles
  answer the frame allocations (\<open>True\<close> = \<open>malloc\<close> failed) and the register handshakes of
  \<open>invalidate_all\<close> (\<open>True\<close> = timed out); a used-up oracle answers with success.
\<close>

section \<open>State\<close>

definition VTD_SL_READ :: u64 where "VTD_SL_READ = 1"
definition VTD_SL_WRITE :: u64 where "VTD_SL_WRITE = 2"
definition VTD_SL_PS :: u64 where "VTD_SL_PS = 0x80"
definition VTD_ADDR_MASK :: u64 where "VTD_ADDR_MASK = 0x000FFFFFFFFFF000"

definition sl_present :: "u64 \<Rightarrow> bool" where
  "sl_present w \<longleftrightarrow> w AND (VTD_SL_READ OR VTD_SL_WRITE) \<noteq> 0"

datatype slpt = Slpte u64 | Slpt "slpt list"

definition entry_present :: "slpt \<Rightarrow> bool" where
  "entry_present e = (case e of Slpte w \<Rightarrow> sl_present w | Slpt _ \<Rightarrow> True)"

record iommu_device_id =
  dev_segment :: u16
  dev_bus :: u8
  dev_devfn :: u8

record iommu_hw_domain =
  hw_id :: u16
  hw_root :: "slpt list"

text \<open>A present context entry names the domain whose root and number were written into it.\<close>

record vtd =
  g_regs :: bool
  g_superpage_2m :: bool
  g_next_domain :: u16
  g_domain_used :: "u16 \<Rightarrow> bool"
  g_contexts :: "u8 \<Rightarrow> (u8 \<Rightarrow> u16 option) option"
  sl_oom :: "bool list"
  sl_timeout :: "bool list"

definition sl_malloc :: "vtd \<Rightarrow> bool \<times> vtd" where
  "sl_malloc v = (case sl_oom v of [] \<Rightarrow> (True, v) | b # bs \<Rightarrow> (\<not> b, v\<lparr>sl_oom := bs\<rparr>))"

definition invalidate_all :: "vtd \<Rightarrow> bool \<times> vtd" where
  "invalidate_all v = (case sl_timeout v of [] \<Rightarrow> (True, v) | b # bs \<Rightarrow> (\<not> b, v\<lparr>sl_timeout := bs\<rparr>))"

section \<open>Second-level tables\<close>

definition sl_index :: "u64 \<Rightarrow> nat \<Rightarrow> nat" where
  "sl_index iova level = unat (drop_bit (12 + 9 * (level - 1)) iova AND 0x1ff)"

text \<open>
  \<open>slpt_entry\<close> in three parts: \<open>slpt_alloc\<close> makes the tables on the path (those made before a failed
  allocation stay), \<open>slpt_get\<close> reads the entry reached and \<open>slpt_set\<close> writes it.
\<close>

fun slpt_alloc :: "nat \<Rightarrow> nat \<Rightarrow> u64 \<Rightarrow> slpt list \<Rightarrow> vtd \<Rightarrow> (bool \<times> slpt list \<times> vtd) option" where
  "slpt_alloc 0 target iova table v = Some (True, table, v)"
| "slpt_alloc (Suc level) target iova table v = (
     if Suc level > target then
       let idx = sl_index iova (Suc level) in
       case table ! idx of
         Slpt child \<Rightarrow> do {
           (ok, child', v) \<leftarrow> slpt_alloc level target iova child v;
           Some (ok, table[idx := Slpt child'], v)
         }
       | Slpte w \<Rightarrow>
           if sl_present w then None
           else (case sl_malloc v of
               (False, v) \<Rightarrow> Some (False, table, v)
             | (True, v) \<Rightarrow> do {
                 (ok, child', v) \<leftarrow> slpt_alloc level target iova (replicate 512 (Slpte 0)) v;
                 Some (ok, table[idx := Slpt child'], v)
               })
     else Some (True, table, v))"

fun slpt_get :: "nat \<Rightarrow> nat \<Rightarrow> u64 \<Rightarrow> slpt list \<Rightarrow> slpt option option" where
  "slpt_get 0 target iova table = None"
| "slpt_get (Suc level) target iova table = (
     let e = table ! sl_index iova (Suc level) in
     if Suc level > target then
       (case e of
          Slpt child \<Rightarrow> slpt_get level target iova child
        | Slpte w \<Rightarrow> if sl_present w then None else Some None)
     else Some (Some e))"

fun slpt_set :: "nat \<Rightarrow> nat \<Rightarrow> u64 \<Rightarrow> u64 \<Rightarrow> slpt list \<Rightarrow> slpt list" where
  "slpt_set 0 target iova w table = table"
| "slpt_set (Suc level) target iova w table = (
     let idx = sl_index iova (Suc level) in
     if Suc level > target then
       (case table ! idx of
          Slpt child \<Rightarrow> table[idx := Slpt (slpt_set level target iova w child)]
        | Slpte _ \<Rightarrow> table)
     else table[idx := Slpte w])"

section \<open>Domains and contexts\<close>

text \<open>The search for a free number gives up when it is back at \<open>start\<close>; at most 65535 steps do it.\<close>

fun next_free_domain :: "nat \<Rightarrow> u16 \<Rightarrow> u16 \<Rightarrow> (u16 \<Rightarrow> bool) \<Rightarrow> u16 option" where
  "next_free_domain fuel start d used = (
     if \<not> used d then Some d
     else case fuel of
         0 \<Rightarrow> None
       | Suc fuel \<Rightarrow>
           let d = (if d + 1 = 0 then 1 else d + 1)
           in if d = start then None else next_free_domain fuel start d used)"

definition vtd_domain_init :: "vtd \<Rightarrow> iommu_hw_domain option \<times> vtd" where
  "vtd_domain_init v =
     (case next_free_domain 65536 (g_next_domain v) (g_next_domain v) (g_domain_used v) of
        None \<Rightarrow> (None, v)
      | Some dv \<Rightarrow>
          let v = v\<lparr>g_domain_used := (g_domain_used v)(dv := True),
                    g_next_domain := (if dv + 1 = 0 then 1 else dv + 1)\<rparr>
          in if dv = 0 then (None, v)
             else (case sl_malloc v of
                 (False, v) \<Rightarrow> (None, v\<lparr>g_domain_used := (g_domain_used v)(dv := False)\<rparr>)
               | (True, v) \<Rightarrow> (Some \<lparr>hw_id = dv, hw_root = replicate 512 (Slpte 0)\<rparr>, v)))"

definition vtd_domain_destroy :: "iommu_hw_domain \<Rightarrow> vtd \<Rightarrow> vtd" where
  "vtd_domain_destroy d v = v\<lparr>g_domain_used := (g_domain_used v)(hw_id d := False)\<rparr>"

definition vtd_covers :: "vtd \<Rightarrow> iommu_device_id \<Rightarrow> bool" where
  "vtd_covers v dv \<longleftrightarrow> g_regs v \<and> dev_segment dv = 0"

definition context_for :: "iommu_device_id \<Rightarrow> bool \<Rightarrow> vtd \<Rightarrow> u16 option option \<times> vtd" where
  "context_for dv allocate v =
     (let (made, v) =
        (if g_contexts v (dev_bus dv) = None \<and> allocate then
           (case sl_malloc v of
              (False, v) \<Rightarrow> (False, v)
            | (True, v) \<Rightarrow> (True, v\<lparr>g_contexts := (g_contexts v)(dev_bus dv := Some (\<lambda>_. None))\<rparr>))
         else (True, v))
      in (case g_contexts v (dev_bus dv) of
            None \<Rightarrow> None
          | Some ctx \<Rightarrow> if made then Some (ctx (dev_devfn dv)) else None, v))"

definition set_context :: "iommu_device_id \<Rightarrow> u16 option \<Rightarrow> vtd \<Rightarrow> vtd" where
  "set_context dv c v =
     v\<lparr>g_contexts := (g_contexts v)(dev_bus dv :=
         map_option (\<lambda>ctx. ctx(dev_devfn dv := c)) (g_contexts v (dev_bus dv)))\<rparr>"

definition vtd_attach :: "iommu_hw_domain \<Rightarrow> iommu_device_id \<Rightarrow> vtd \<Rightarrow> (bool \<times> vtd) option" where
  "vtd_attach d dv v =
     (case context_for dv True v of
        (Some None, v) \<Rightarrow>
          let (ok, v) = invalidate_all (set_context dv (Some (hw_id d)) v)
          in do { asserts ok; Some (True, v) }
      | (_, v) \<Rightarrow> Some (False, v))"

definition vtd_detach :: "iommu_device_id \<Rightarrow> vtd \<Rightarrow> (bool \<times> vtd) option" where
  "vtd_detach dv v =
     (case context_for dv False v of
        (Some (Some _), v) \<Rightarrow>
          let (ok, v) = invalidate_all (set_context dv None v)
          in do { asserts ok; Some (True, v) }
      | (_, v) \<Rightarrow> Some (False, v))"

section \<open>Mapping\<close>

definition SL_2M :: u64 where "SL_2M = 0x200000"

definition sl_huge :: "vtd \<Rightarrow> u64 \<Rightarrow> u64 \<Rightarrow> bool" where
  "sl_huge v iova left \<longleftrightarrow> g_superpage_2m v \<and> iova AND (SL_2M - 1) = 0 \<and> left \<ge> 512"

function vtd_mapping_leaves :: "vtd \<Rightarrow> u64 \<Rightarrow> u64 \<Rightarrow> u64" where
  "vtd_mapping_leaves v iova pages =
     (if pages \<noteq> 0 then
        (if sl_huge v iova pages then 1 + vtd_mapping_leaves v (iova + 512 * 4096) (pages - 512)
         else 1 + vtd_mapping_leaves v (iova + 4096) (pages - 1))
      else 0)"
  by pat_completeness auto

termination
proof (relation "measure (\<lambda>(_, _, pages). unat pages)", goal_cases)
  case (2 v iova pages)
  then have "512 \<le> unat pages" by (simp add: sl_huge_def word_le_nat_alt)
  then show ?case by (simp add: unat_sub word_le_nat_alt)
qed (auto simp: measure_unat)

declare vtd_mapping_leaves.simps [simp del]

text \<open>The mapping loop: the pages mapped when it stopped, and whether it reached the end.\<close>

function map_loop :: "u64 \<Rightarrow> u64 \<Rightarrow> u64 \<Rightarrow> u64 \<Rightarrow> u64 \<Rightarrow> slpt list \<Rightarrow> vtd \<Rightarrow> (u64 \<times> slpt list \<times> vtd) option" where
  "map_loop iova phys pages bits mapped root v =
     (if mapped < pages then
        let at = iova + mapped * 4096; pat = phys + mapped * 4096;
            huge = (sl_huge v at (pages - mapped) \<and> pat AND (SL_2M - 1) = 0);
            target = (if huge then 2 else 1)
        in do {
          (ok, root, v') \<leftarrow> slpt_alloc 4 target at root v;
          if \<not> ok then Some (mapped, root, v')
          else do {
            leaf \<leftarrow> slpt_get 4 target at root;
            leaf \<leftarrow> leaf;
            if entry_present leaf then Some (mapped, root, v')
            else map_loop iova phys pages bits (mapped + (if huge then 512 else 1))
              (slpt_set 4 target at ((pat AND VTD_ADDR_MASK) OR bits OR (if huge then VTD_SL_PS else 0)) root)
              v'
          }
        }
      else Some (mapped, root, v))"
  by pat_completeness auto

lemma step_bounds:
  assumes "mapped < pages" "huge \<Longrightarrow> 512 \<le> pages - mapped"
  shows "unat (mapped + (if huge then 512 else 1)) = unat mapped + (if huge then 512 else 1)"
    "unat mapped + (if huge then 512 else 1) \<le> unat (pages :: u64)"
proof -
  have lt: "unat mapped < unat pages" using assms(1) by (simp add: word_less_nat_alt)
  have d: "unat (pages - mapped) = unat pages - unat mapped"
    using lt by (simp add: unat_sub word_le_nat_alt)
  show le: "unat mapped + (if huge then 512 else 1) \<le> unat pages"
    using assms(2) lt d by (auto simp: word_le_nat_alt)
  have "unat pages < 2 ^ 64" using unsigned_less [of pages] by simp
  then show "unat (mapped + (if huge then 512 else 1)) = unat mapped + (if huge then 512 else 1)"
    using le by (auto simp: unat_word_ariths split: if_splits)
qed

lemma step_decreases:
  assumes "mapped < pages" "huge \<Longrightarrow> 512 \<le> pages - mapped"
  shows "unat pages - unat (mapped + (if huge then 512 else 1)) < unat pages - unat (mapped :: u64)"
  using step_bounds [OF assms] assms(1) by (auto simp: word_less_nat_alt)

termination map_loop
  by (relation "measure (\<lambda>(_, _, pages, _, mapped, _). unat pages - unat mapped)")
    (simp_all only: in_measure wf_measure prod.case, rule step_decreases, simp_all add: sl_huge_def)

declare map_loop.simps [simp del]

text \<open>Clearing the entries of a range; \<open>strict\<close> is \<open>vtd_unmap\<close>, which stops at an absent leaf.\<close>

function unmap_loop :: "bool \<Rightarrow> vtd \<Rightarrow> u64 \<Rightarrow> u64 \<Rightarrow> u64 \<Rightarrow> slpt list \<Rightarrow> (bool \<times> slpt list) option" where
  "unmap_loop strict v iova pages i root =
     (if i < pages then
        let at = iova + i * 4096; huge = sl_huge v at (pages - i); target = (if huge then 2 else 1)
        in do {
          leaf \<leftarrow> slpt_get 4 target at root;
          if strict \<and> (leaf = None \<or> \<not> entry_present (the leaf)) then Some (False, root)
          else unmap_loop strict v iova pages (i + (if huge then 512 else 1))
            (if leaf = None then root else slpt_set 4 target at 0 root)
        }
      else Some (True, root))"
  by pat_completeness auto

termination unmap_loop
  by (relation "measure (\<lambda>(_, _, _, pages, i, _). unat pages - unat i)")
    (simp_all only: in_measure wf_measure prod.case, rule step_decreases, simp_all add: sl_huge_def)

declare unmap_loop.simps [simp del]

definition vtd_map :: "iommu_hw_domain \<Rightarrow> u64 \<Rightarrow> u64 \<Rightarrow> u64 \<Rightarrow> u32 \<Rightarrow> vtd
    \<Rightarrow> (bool \<times> iommu_hw_domain \<times> vtd) option" where
  "vtd_map d iova phys pages permissions v =
     (let bits = (if permissions AND 1 \<noteq> 0 then VTD_SL_READ else 0);
          bits = (if permissions AND 2 \<noteq> 0 then bits OR VTD_SL_WRITE else bits)
      in if push_bit 48 1 \<le> iova \<or> push_bit 48 1 \<le> phys \<or> pages > (push_bit 48 1 - iova) div 4096
         then Some (False, d, v)
         else do {
           (mapped, root, v) \<leftarrow> map_loop iova phys pages bits 0 (hw_root d) v;
           if mapped \<noteq> pages then do {
             (_, root) \<leftarrow> unmap_loop False v iova mapped 0 root;
             let (ok, v) = invalidate_all v;
             asserts ok;
             Some (False, d\<lparr>hw_root := root\<rparr>, v)
           }
           else do {
             let (ok, v) = invalidate_all v;
             asserts ok;
             Some (True, d\<lparr>hw_root := root\<rparr>, v)
           }
         })"

definition vtd_unmap :: "iommu_hw_domain \<Rightarrow> u64 \<Rightarrow> u64 \<Rightarrow> vtd \<Rightarrow> (bool \<times> iommu_hw_domain \<times> vtd) option" where
  "vtd_unmap d iova pages v = do {
     (ok, root) \<leftarrow> unmap_loop True v iova pages 0 (hw_root d);
     if \<not> ok then Some (False, d\<lparr>hw_root := root\<rparr>, v)
     else do {
       let (ok, v) = invalidate_all v;
       asserts ok;
       Some (True, d\<lparr>hw_root := root\<rparr>, v)
     }
   }"

end
