(* ===== verification/Ioapic.thy ===== *)
theory Ioapic
  imports Prelude
begin

text \<open>
  The I/O interrupt controllers of \<^verbatim>\<open>kernel/archsrc/x86_64/ioapic.c\<close>: which input serves a global system
  interrupt, how firmware overrides its trigger and polarity, and the redirection entries behind
  program, mask and unmask.  A redirection entry is its 64-bit value; the register pair's select-and-data
  protocol and the legacy controller are not modelled.
\<close>

definition IOAPIC_RTE_MASK :: u64 where "IOAPIC_RTE_MASK = push_bit 16 1"
definition IOAPIC_RTE_ACTIVE_LOW :: u64 where "IOAPIC_RTE_ACTIVE_LOW = push_bit 13 1"
definition IOAPIC_RTE_LEVEL :: u64 where "IOAPIC_RTE_LEVEL = push_bit 15 1"

datatype irq_trigger_mode = IRQ_TRIGGER_EDGE | IRQ_TRIGGER_LEVEL

record ioapic =
  io_gsi_base :: u32
  io_ninputs :: u32
  io_rte :: "u32 \<Rightarrow> u64"

text \<open>An ISA interrupt with a firmware override: its target, polarity and mode.\<close>

record source_override =
  so_present :: bool
  so_active_low :: bool
  so_mode :: irq_trigger_mode
  so_gsi :: u32

record ioapics =
  g_ioapics :: "ioapic list"
  g_isa_override :: "source_override list"

definition serves :: "u32 \<Rightarrow> ioapic \<Rightarrow> bool" where
  "serves gsi io \<longleftrightarrow> gsi \<ge> io_gsi_base io \<and> gsi - io_gsi_base io < io_ninputs io"

fun find_index :: "('a \<Rightarrow> bool) \<Rightarrow> 'a list \<Rightarrow> nat option" where
  "find_index P [] = None"
| "find_index P (x # xs) = (if P x then Some 0 else map_option Suc (find_index P xs))"

definition find_ioapic :: "u32 \<Rightarrow> ioapics \<Rightarrow> (nat \<times> u32) option" where
  "find_ioapic gsi s = (case find_index (serves gsi) (g_ioapics s) of
     None \<Rightarrow> None
   | Some i \<Rightarrow> Some (i, gsi - io_gsi_base (g_ioapics s ! i)))"

definition rte_write :: "nat \<Rightarrow> u32 \<Rightarrow> u64 \<Rightarrow> ioapics \<Rightarrow> ioapics" where
  "rte_write i pin rte s =
     s\<lparr>g_ioapics := (g_ioapics s)[i := (g_ioapics s ! i)\<lparr>io_rte := (io_rte (g_ioapics s ! i))(pin := rte)\<rparr>]\<rparr>"

definition rte_set_mask :: "nat \<Rightarrow> u32 \<Rightarrow> bool \<Rightarrow> ioapics \<Rightarrow> ioapics" where
  "rte_set_mask i pin masked s =
     (let rte = io_rte (g_ioapics s ! i) pin
      in rte_write i pin (if masked then rte OR IOAPIC_RTE_MASK else rte AND NOT IOAPIC_RTE_MASK) s)"

definition gsi_resolve :: "u32 \<Rightarrow> ioapics \<Rightarrow> bool \<times> irq_trigger_mode" where
  "gsi_resolve gsi s =
     fold (\<lambda>ov acc. if so_present ov \<and> so_gsi ov = gsi then (so_active_low ov, so_mode ov) else acc)
       (g_isa_override s) (gsi \<ge> 16, if gsi \<ge> 16 then IRQ_TRIGGER_LEVEL else IRQ_TRIGGER_EDGE)"

definition x86_ioapic_gsi_info :: "u32 \<Rightarrow> ioapics \<Rightarrow> irq_trigger_mode option" where
  "x86_ioapic_gsi_info gsi s = (case find_ioapic gsi s of
     None \<Rightarrow> None
   | Some _ \<Rightarrow> Some (snd (gsi_resolve gsi s)))"

definition x86_ioapic_program :: "u32 \<Rightarrow> u8 \<Rightarrow> u8 \<Rightarrow> ioapics \<Rightarrow> bool \<times> ioapics" where
  "x86_ioapic_program gsi vector dest s = (case find_ioapic gsi s of
     None \<Rightarrow> (False, s)
   | Some (i, pin) \<Rightarrow>
       let (low, mode) = gsi_resolve gsi s;
           rte = ucast vector OR IOAPIC_RTE_MASK OR push_bit 56 (ucast dest);
           rte = (if low then rte OR IOAPIC_RTE_ACTIVE_LOW else rte);
           rte = (if mode = IRQ_TRIGGER_LEVEL then rte OR IOAPIC_RTE_LEVEL else rte)
       in (True, rte_write i pin rte s))"

definition x86_ioapic_mask :: "u32 \<Rightarrow> ioapics \<Rightarrow> ioapics" where
  "x86_ioapic_mask gsi s = (case find_ioapic gsi s of None \<Rightarrow> s | Some (i, pin) \<Rightarrow> rte_set_mask i pin True s)"

definition x86_ioapic_unmask :: "u32 \<Rightarrow> ioapics \<Rightarrow> ioapics" where
  "x86_ioapic_unmask gsi s = (case find_ioapic gsi s of None \<Rightarrow> s | Some (i, pin) \<Rightarrow> rte_set_mask i pin False s)"

text \<open>Is the input that serves an interrupt masked?\<close>

definition gsi_masked :: "u32 \<Rightarrow> ioapics \<Rightarrow> bool" where
  "gsi_masked gsi s = (case find_ioapic gsi s of
     None \<Rightarrow> True
   | Some (i, pin) \<Rightarrow> io_rte (g_ioapics s ! i) pin AND IOAPIC_RTE_MASK \<noteq> 0)"

end
