(* ===== verification/Kernel_State.thy ===== *)
theory Kernel_State
  imports Llrb_Map Allocator Vtd Ioapic
begin

text \<open>
  The state the kernel's control plane works on: processes, threads, user blocks, share edges, kernel
  channels, interrupt routes, capability grants, the processors' run queues and deadline trees, the futex
  buckets and physical memory, together with the accessors the components share.

  Objects live in stores indexed by their identity (a process by its pid, a thread by its tid, a block by
  its base address), and a C pointer is such an identity.  An address space is its page-to-flags function;
  \<open>View_Refine\<close> relates that to the page tables of \<open>Paging\<close>.  A system call that holds
  \<open>g_umem\<close> is one function on this state, \<open>None\<close> being a panic, a fault in the kernel or a loop that
  never ends.  The success of kernel-internal allocations (slab nodes, page-table frames, \<open>malloc\<close>) is
  read off the oracle \<open>oom\<close>, whose \<open>True\<close> entries are failures and whose end means success for ever.
\<close>

section \<open>Numbers of the system-call interface\<close>

definition SYSERR_NOSYS :: u64 where "SYSERR_NOSYS = - 1"
definition SYSERR_FAULT :: u64 where "SYSERR_FAULT = - 2"
definition SYSERR_INVAL :: u64 where "SYSERR_INVAL = - 3"
definition SYSERR_NOMEM :: u64 where "SYSERR_NOMEM = - 4"
definition SYSERR_EXIST :: u64 where "SYSERR_EXIST = - 5"
definition SYSERR_PERM :: u64 where "SYSERR_PERM = - 6"
definition SYSERR_DEAD :: u64 where "SYSERR_DEAD = - 7"
definition SYSERR_AGAIN :: u64 where "SYSERR_AGAIN = - 8"
definition SYSERR_TIMEDOUT :: u64 where "SYSERR_TIMEDOUT = - 9"

lemmas syserr_defs = SYSERR_NOSYS_def SYSERR_FAULT_def SYSERR_INVAL_def SYSERR_NOMEM_def
  SYSERR_EXIST_def SYSERR_PERM_def SYSERR_DEAD_def SYSERR_AGAIN_def SYSERR_TIMEDOUT_def

definition VM_ENUM_BATCH :: u64 where "VM_ENUM_BATCH = 128"
definition FUTEX_WAKE_BATCH :: u64 where "FUTEX_WAKE_BATCH = 16"
definition FUTEX_REQUEUE_BATCH :: u64 where "FUTEX_REQUEUE_BATCH = 16"

text \<open>Kernel-channel schemes, \<open>g_schemes\<close> of \<^verbatim>\<open>channel.c\<close>, and the event types.\<close>

datatype scheme = KSCHEME_CAP | KSCHEME_SHARES | KSCHEME_TREE | KSCHEME_IRQ | KSCHEME_IOMMU

definition KEV :: "u64 \<Rightarrow> u64" where "KEV n = push_bit 63 1 OR n"
definition KEV_SHARE :: u64 where "KEV_SHARE = KEV 1"
definition KEV_CHILD_DEAD :: u64 where "KEV_CHILD_DEAD = KEV 2"
definition KEV_IRQ :: u64 where "KEV_IRQ = KEV 5"

section \<open>Objects\<close>

text \<open>An address space as the kernel's other parts see it: flags of each 4 KiB page, 0 being absent.\<close>

record view =
  page_flags :: "nat \<Rightarrow> paging_flags"
  view_pins :: nat

datatype thread_status = THREAD_RUNNABLE | THREAD_RUNNING | THREAD_BLOCKED | THREAD_DEAD

datatype futex_state = FUTEX_IDLE | FUTEX_PARKED | FUTEX_MOVING | FUTEX_CLAIMED | FUTEX_REAPABLE

datatype futex_key = Futex_Key (fk_address: u64) (fk_seq: u64)

datatype tdeadline_key = Tdeadline_Key (td_deadline: u64) (td_tid: u64)

text \<open>
  The comparison functions of the ordered trees.  A tree needs its comparison to be a three-way comparator;
  such a function gives the linear order the tree theories work with.
\<close>

definition compare_u64 :: "u64 \<Rightarrow> u64 \<Rightarrow> int" where
  "compare_u64 a b = of_bool (a > b) - of_bool (a < b)"

definition futex_compare :: "futex_key \<Rightarrow> futex_key \<Rightarrow> int" where
  "futex_compare a b =
     (if fk_address a \<noteq> fk_address b then compare_u64 (fk_address a) (fk_address b)
      else compare_u64 (fk_seq a) (fk_seq b))"

definition tdeadline_compare :: "tdeadline_key \<Rightarrow> tdeadline_key \<Rightarrow> int" where
  "tdeadline_compare a b =
     (if td_deadline a \<noteq> td_deadline b then compare_u64 (td_deadline a) (td_deadline b)
      else compare_u64 (td_tid a) (td_tid b))"

lemma compare_u64_simps [simp]:
  "compare_u64 a b = 0 \<longleftrightarrow> a = b" "compare_u64 a b \<le> 0 \<longleftrightarrow> a \<le> b" "compare_u64 a b < 0 \<longleftrightarrow> a < b"
  by (auto simp: compare_u64_def of_bool_def)

lemma compare_u64_swap: "compare_u64 b a = - compare_u64 a b"
  by (simp add: compare_u64_def)

locale tree_comparator =
  fixes cmp :: "'k \<Rightarrow> 'k \<Rightarrow> int"
  assumes cmp_swap: "cmp b a = - cmp a b"
    and cmp_eq: "cmp a b = 0 \<Longrightarrow> a = b"
    and cmp_trans: "cmp a b \<le> 0 \<Longrightarrow> cmp b c \<le> 0 \<Longrightarrow> cmp a c \<le> 0"
begin

lemma cmp_refl: "cmp a a = 0"
  using cmp_swap [of a a] by simp

lemma cmp_less_le: "cmp a b < 0 \<longleftrightarrow> cmp a b \<le> 0 \<and> \<not> cmp b a \<le> 0"
  using cmp_swap [of b a] by auto

lemma cmp_le_refl: "cmp a a \<le> 0"
  by (simp add: cmp_refl)

lemma cmp_antisym: "cmp a b \<le> 0 \<Longrightarrow> cmp b a \<le> 0 \<Longrightarrow> a = b"
  using cmp_swap [of b a] cmp_eq [of a b] by auto

lemma cmp_total: "cmp a b \<le> 0 \<or> cmp b a \<le> 0"
  using cmp_swap [of b a] by auto

lemmas cmp_order = cmp_less_le cmp_le_refl cmp_trans cmp_antisym cmp_total

end

interpretation futex_cmp: tree_comparator futex_compare
  by unfold_locales
    (auto simp: futex_compare_def futex_key.expand split: if_splits intro: compare_u64_swap)

interpretation tdeadline_cmp: tree_comparator tdeadline_compare
  by unfold_locales
    (auto simp: tdeadline_compare_def tdeadline_key.expand split: if_splits intro: compare_u64_swap)

instantiation futex_key :: linorder
begin

definition less_eq_futex_key :: "futex_key \<Rightarrow> futex_key \<Rightarrow> bool" where
  "a \<le> b \<longleftrightarrow> futex_compare a b \<le> 0"

definition less_futex_key :: "futex_key \<Rightarrow> futex_key \<Rightarrow> bool" where
  "a < b \<longleftrightarrow> futex_compare a b < 0"

instance
  by (standard; unfold less_eq_futex_key_def less_futex_key_def; fact futex_cmp.cmp_order)

end

instantiation tdeadline_key :: linorder
begin

definition less_eq_tdeadline_key :: "tdeadline_key \<Rightarrow> tdeadline_key \<Rightarrow> bool" where
  "a \<le> b \<longleftrightarrow> tdeadline_compare a b \<le> 0"

definition less_tdeadline_key :: "tdeadline_key \<Rightarrow> tdeadline_key \<Rightarrow> bool" where
  "a < b \<longleftrightarrow> tdeadline_compare a b < 0"

instance
  by (standard; unfold less_eq_tdeadline_key_def less_tdeadline_key_def; fact tdeadline_cmp.cmp_order)

end

text \<open>Both orders are lexicographic.\<close>

lemma futex_key_le: "a \<le> b \<longleftrightarrow> fk_address a < fk_address b \<or> fk_address a = fk_address b \<and> fk_seq a \<le> fk_seq b"
  by (auto simp: less_eq_futex_key_def futex_compare_def)

lemma futex_key_less: "a < b \<longleftrightarrow> fk_address a < fk_address b \<or> fk_address a = fk_address b \<and> fk_seq a < fk_seq b"
  by (auto simp: less_futex_key_def futex_compare_def)

text \<open>\<open>t_rax\<close> and \<open>t_entry\<close> are the parts of the saved trap frame the portable kernel writes.\<close>

record thread =
  t_tid :: u64
  t_proc :: u64
  t_status :: thread_status
  t_on_cpu :: bool
  t_wait_key :: futex_key
  t_deadline :: u64
  t_deadline_cpu :: nat
  t_wake_state :: futex_state
  t_completion_block :: "u64 option"
  t_completion_event :: u64
  t_rax :: u64
  t_entry :: u64
  t_rsp :: u64
  t_arg :: u64
  t_fs_base :: u64
  t_gs_base :: u64

record process =
  p_pid :: u64
  p_as :: "view option"
  p_dead :: bool
  p_parent :: "u64 option"
  p_children :: "(u64, unit) omap"
  p_death_notified :: bool
  p_exit_status :: u64
  p_nthreads :: u64
  p_threads :: "(u64, unit) omap"
  p_blocks :: "(u64, unit) omap"
  p_views :: "(u64, unit) omap"
  p_unnotified :: "u64 list"
  p_share_ch :: "u64 option"
  p_tree_ch :: "u64 option"
  p_iommu_ch :: "u64 option"

text \<open>The pending links of an edge are the position of its block in the target's \<open>p_unnotified\<close>.\<close>

record share_edge =
  e_notified :: bool

datatype ublock_backing = UBLOCK_RAM | UBLOCK_DEVICE

text \<open>A ring is named by the base of its block; \<open>r_irq_claims\<close> lists the claimed route slots.\<close>

record ring =
  r_ops :: scheme
  r_nslots :: u32
  r_sq_head :: u32
  r_cq_count :: u32
  r_irq_claims :: "nat list"
  r_nclaims :: u32

record ublock =
  ub_base :: u64
  ub_order :: nat
  ub_bytes :: u64
  ub_backing :: ublock_backing
  ub_device_flags :: paging_flags
  ub_kernel_flags :: paging_flags
  ub_delegatable :: bool
  ub_owner :: u64
  ub_sharers :: "(u64, share_edge) omap"
  ub_ring :: "ring option"
  ub_dma_maps :: "(u64, u32) omap option"
  ub_thread_pins :: u32

text \<open>Interrupt routes are named by their slot; \<open>ir_ring\<close> is the base of the claiming channel's block.\<close>

record irq_route =
  ir_ring :: "u64 option"
  ir_cookie :: u64
  ir_raised :: u64
  ir_acked :: u64
  ir_ev_index :: u32
  ir_gsi :: u32
  ir_mode :: irq_trigger_mode
  ir_generation :: u16
  ir_present :: bool
  ir_allocated :: bool
  ir_posted :: bool
  ir_spurious_logged :: bool

text \<open>
  The grant's union is a datatype; \<open>gr_children\<close> is the sibling list in \<open>first_child\<close> order.
\<close>

datatype grant_body =
    Devmem (dm_base: u64) (dm_len: u64) (dm_flags: u32)
  | Irq (gi_route: "nat option") (gi_id: u32)
  | Iommu (gm_requester: u32)

record grant =
  gr_id :: u64
  gr_type :: u8
  gr_depth :: u8
  gr_wildcard :: bool
  gr_dead :: bool
  gr_body :: grant_body
  gr_parent :: "u64 option"
  gr_children :: "u64 list"

record iommu_device =
  iv_id :: iommu_device_id
  iv_encoded :: u64
  iv_fault_cookie :: u64
  iv_fault_count :: u64
  iv_posted_count :: u64
  iv_last_iova :: u64
  iv_last_reason :: u32
  iv_ev_index :: u32
  iv_fault_posted :: bool

text \<open>A domain's mappings, most recent first, by the base of the mapped block.\<close>

record iommu_domain =
  id_ring :: u64
  id_id :: u64
  id_cookie :: u64
  id_hw :: iommu_hw_domain
  id_devices :: "iommu_device list"
  id_mappings :: "u64 list"

record range =
  rg_base :: u64
  rg_end :: u64

text \<open>A memory-map entry of the firmware as \<^verbatim>\<open>platform_mem.c\<close> keeps it.\<close>

record mmap_entry =
  mm_type :: u32
  mm_start :: u64
  mm_pages :: u64

text \<open>
  Per processor: the running thread, the run queue, the deadline tree, the quantum, the loaded address
  space (\<open>None\<close> is the kernel's own) and the one-shot timer as last programmed, in microseconds.
\<close>

record cpu =
  c_current_thread :: "u64 option"
  c_queue :: "u64 list"
  c_idle :: bool
  c_deadlines :: "(tdeadline_key, u64) omap"
  c_quantum :: u64
  c_current_as :: "u64 option"
  c_shot :: "u64 option"
  c_ipis :: nat

record kernel =
  g_procs :: "(u64, process) omap"
  g_ublocks :: "(u64, ublock) omap"
  g_threads :: "(u64, thread) omap"
  g_as_kernel :: view
  g_allocator :: buddy
  g_mem :: "u64 \<Rightarrow> u8"
  g_next_pid :: u64
  g_next_tid :: u64
  g_init :: "u64 option"
  g_cpus :: "cpu list"
  g_this_cpu :: nat
  g_next_target :: u64
  g_clock :: u64
  g_futex :: "nat \<Rightarrow> (futex_key, u64) omap"
  g_futex_key :: "u8 list"
  g_futex_seq :: u64
  g_routes :: "irq_route list"
  g_ioapic :: ioapics
  g_bsp_apic_id :: u8
  g_grants :: "(u64, grant) omap"
  g_next_grant_id :: u64
  g_boot_key :: "u8 list"
  g_mmap :: "mmap_entry list"
  g_protected :: "range list"
  g_ecam :: "range list"
  g_domains :: "iommu_domain list"
  g_ndomains :: u32
  g_ndevices :: u32
  g_nmappings :: u32
  g_next_domain_id :: u64
  g_live :: bool
  g_fault_devices :: "u16 \<Rightarrow> u64 option"
  g_vtd :: vtd
  g_serial :: "u8 list"
  g_oom :: "bool list"


section \<open>Accessors\<close>

definition proc :: "kernel \<Rightarrow> u64 \<Rightarrow> process option" where
  "proc k pid = om_lookup (g_procs k) pid"

definition block :: "kernel \<Rightarrow> u64 \<Rightarrow> ublock option" where
  "block k base = om_lookup (g_ublocks k) base"

definition thr :: "kernel \<Rightarrow> u64 \<Rightarrow> thread option" where
  "thr k tid = om_lookup (g_threads k) tid"

definition upd_proc :: "u64 \<Rightarrow> (process \<Rightarrow> process) \<Rightarrow> kernel \<Rightarrow> kernel" where
  "upd_proc pid f k = k\<lparr>g_procs := om_modify pid f (g_procs k)\<rparr>"

definition upd_block :: "u64 \<Rightarrow> (ublock \<Rightarrow> ublock) \<Rightarrow> kernel \<Rightarrow> kernel" where
  "upd_block base f k = k\<lparr>g_ublocks := om_modify base f (g_ublocks k)\<rparr>"

definition upd_thread :: "u64 \<Rightarrow> (thread \<Rightarrow> thread) \<Rightarrow> kernel \<Rightarrow> kernel" where
  "upd_thread tid f k = k\<lparr>g_threads := om_modify tid f (g_threads k)\<rparr>"

definition upd_cpu :: "nat \<Rightarrow> (cpu \<Rightarrow> cpu) \<Rightarrow> kernel \<Rightarrow> kernel" where
  "upd_cpu i f k = k\<lparr>g_cpus := (g_cpus k)[i := f (g_cpus k ! i)]\<rparr>"

text \<open>An update of the ring that hangs off a block.\<close>

definition upd_ring :: "u64 \<Rightarrow> (ring \<Rightarrow> ring) \<Rightarrow> kernel \<Rightarrow> kernel" where
  "upd_ring base f = upd_block base (\<lambda>b. b\<lparr>ub_ring := map_option f (ub_ring b)\<rparr>)"

text \<open>The outcome of a kernel-internal allocation.\<close>

definition slab_alloc :: "kernel \<Rightarrow> bool \<times> kernel" where
  "slab_alloc k = (case g_oom k of [] \<Rightarrow> (True, k) | b # bs \<Rightarrow> (\<not> b, k\<lparr>g_oom := bs\<rparr>))"

definition must_alloc :: "kernel \<Rightarrow> kernel option" where
  "must_alloc k = (case slab_alloc k of (True, k) \<Rightarrow> Some k | (False, _) \<Rightarrow> None)"

section \<open>Address spaces\<close>

text \<open>\<open>as_flag\<close> and \<open>as_getinfo\<close> on the page-to-flags function.\<close>

definition view_flag :: "u64 \<Rightarrow> u64 \<Rightarrow> paging_flags \<Rightarrow> view \<Rightarrow> view option" where
  "view_flag s e flags v = do {
     asserts (unat s mod PAGE_SIZE = 0 \<and> unat e mod PAGE_SIZE = 0);
     asserts (s \<le> e);
     if s = e then Some v
     else do {
       pte \<leftarrow> leaf_flags_to_pte flags;
       Some (v\<lparr>page_flags := \<lambda>p. if unat s div PAGE_SIZE \<le> p \<and> p < unat e div PAGE_SIZE
         then pte_to_flags pte else page_flags v p\<rparr>)
     }
   }"

definition view_getinfo :: "view \<Rightarrow> u64 \<Rightarrow> paging_flags \<times> bool" where
  "view_getinfo v addr =
     (let f = page_flags v (unat addr mod 2 ^ 48 div PAGE_SIZE) in (f, f \<noteq> 0))"

text \<open>\<open>as_flag\<close> followed by \<open>as_flush\<close> on a process and on the kernel; it panics when frames run out.\<close>

definition proc_flag :: "u64 \<Rightarrow> u64 \<Rightarrow> u64 \<Rightarrow> paging_flags \<Rightarrow> kernel \<Rightarrow> kernel option" where
  "proc_flag pid s e flags k = do {
     p \<leftarrow> proc k pid;
     v \<leftarrow> p_as p;
     k \<leftarrow> must_alloc k;
     v \<leftarrow> view_flag s e flags v;
     Some (upd_proc pid (\<lambda>p. p\<lparr>p_as := Some v\<rparr>) k)
   }"

definition kernel_flag :: "u64 \<Rightarrow> u64 \<Rightarrow> paging_flags \<Rightarrow> kernel \<Rightarrow> kernel option" where
  "kernel_flag s e flags k = do {
     k \<leftarrow> must_alloc k;
     v \<leftarrow> view_flag s e flags (g_as_kernel k);
     Some (k\<lparr>g_as_kernel := v\<rparr>)
   }"

section \<open>Memory\<close>

text \<open>
  The kernel reads and writes memory through the address space loaded on this processor.  An access to a
  non-canonical address or to an absent page is a fault in ring 0, which \<^verbatim>\<open>interrupts.c\<close> turns into a panic.
\<close>

definition cur_view :: "kernel \<Rightarrow> view option" where
  "cur_view k = (case c_current_as (g_cpus k ! g_this_cpu k) of
     None \<Rightarrow> Some (g_as_kernel k)
   | Some pid \<Rightarrow> do { p \<leftarrow> proc k pid; p_as p })"

definition canonical :: "nat \<Rightarrow> bool" where
  "canonical a \<longleftrightarrow> a < 2 ^ 47 \<or> 2 ^ 64 - 2 ^ 47 \<le> a \<and> a < 2 ^ 64"

definition view_access :: "view \<Rightarrow> u64 \<Rightarrow> nat \<Rightarrow> bool" where
  "view_access v a n \<longleftrightarrow> n = 0 \<or>
     canonical (unat a) \<and> canonical (unat a + n - 1) \<and>
     list_all (\<lambda>p. page_flags v (p mod 2 ^ 36) \<noteq> 0)
       [unat a div PAGE_SIZE ..< Suc ((unat a + n - 1) div PAGE_SIZE)]"

definition kaccess :: "kernel \<Rightarrow> u64 \<Rightarrow> nat \<Rightarrow> bool" where
  "kaccess k a n \<longleftrightarrow> (case cur_view k of None \<Rightarrow> False | Some v \<Rightarrow> view_access v a n)"

definition load_bytes :: "kernel \<Rightarrow> u64 \<Rightarrow> nat \<Rightarrow> u8 list option" where
  "load_bytes k a n = do {
     asserts (kaccess k a n);
     Some (map (\<lambda>i. g_mem k (a + of_nat i)) [0 ..< n])
   }"

definition store_bytes :: "u64 \<Rightarrow> u8 list \<Rightarrow> kernel \<Rightarrow> kernel option" where
  "store_bytes a bs k = do {
     asserts (kaccess k a (length bs));
     Some (k\<lparr>g_mem := \<lambda>x. if unat (x - a) < length bs then bs ! unat (x - a) else g_mem k x\<rparr>)
   }"

definition kmemset :: "u64 \<Rightarrow> u8 \<Rightarrow> nat \<Rightarrow> kernel \<Rightarrow> kernel option" where
  "kmemset a c n k = do {
     asserts (kaccess k a n);
     Some (k\<lparr>g_mem := \<lambda>x. if unat (x - a) < n then c else g_mem k x\<rparr>)
   }"

text \<open>Little-endian integers.\<close>

definition le_bytes :: "nat \<Rightarrow> 'a::len word \<Rightarrow> u8 list" where
  "le_bytes n w = map (\<lambda>i. ucast (drop_bit (8 * i) w)) [0 ..< n]"

definition le_word :: "u8 list \<Rightarrow> 'a::len word" where
  "le_word bs = foldr (\<lambda>b w. push_bit 8 w OR ucast b) bs 0"

definition load32 :: "kernel \<Rightarrow> u64 \<Rightarrow> u32 option" where
  "load32 k a = map_option le_word (load_bytes k a 4)"

definition load64 :: "kernel \<Rightarrow> u64 \<Rightarrow> u64 option" where
  "load64 k a = map_option le_word (load_bytes k a 8)"

definition store32 :: "u64 \<Rightarrow> u32 \<Rightarrow> kernel \<Rightarrow> kernel option" where
  "store32 a w = store_bytes a (le_bytes 4 w)"

definition store64 :: "u64 \<Rightarrow> u64 \<Rightarrow> kernel \<Rightarrow> kernel option" where
  "store64 a w = store_bytes a (le_bytes 8 w)"

end
