(* ===== verification/Process_Tree.thy ===== *)
theory Process_Tree
  imports Kernel_State
begin

text \<open>
  The process tree of \<^verbatim>\<open>kernel/src/process.c\<close> as everything else consults it: whether a process is
  effectively dead, who may reap whom, and the pid index of \<^verbatim>\<open>umem.c\<close>.  The loops follow
  \<open>parent\<close> pointers and are partial functions; \<open>None\<close> is a dangling pointer or a cycle.
\<close>

section \<open>Death and authority\<close>

partial_function (option) process_is_dead :: "kernel \<Rightarrow> u64 option \<Rightarrow> bool option" where
  "process_is_dead k p = (case p of
     None \<Rightarrow> Some False
   | Some pid \<Rightarrow> do {
       q \<leftarrow> proc k pid;
       if p_dead q then Some True else process_is_dead k (p_parent q)
     })"

partial_function (option) reaper_loop :: "kernel \<Rightarrow> u64 \<Rightarrow> u64 option \<Rightarrow> bool option" where
  "reaper_loop k caller at = (case at of
     None \<Rightarrow> Some False
   | Some pid \<Rightarrow>
       if pid = caller then Some False
       else do {
         dead \<leftarrow> process_is_dead k (Some pid);
         if \<not> dead then Some False
         else do {
           q \<leftarrow> proc k pid;
           if p_parent q = Some caller then Some True else reaper_loop k caller (p_parent q)
         }
       })"

definition process_reaper_authorized :: "kernel \<Rightarrow> u64 \<Rightarrow> u64 \<Rightarrow> bool option" where
  "process_reaper_authorized k caller target = do {
     dead \<leftarrow> process_is_dead k (Some target);
     if caller = target \<or> \<not> dead then Some False else reaper_loop k caller (Some target)
   }"

text \<open>The walk of \<open>proc_sys_kill\<close>: is \<open>me\<close> at or above \<open>a\<close>?\<close>

partial_function (option) ancestor_loop :: "kernel \<Rightarrow> u64 \<Rightarrow> u64 option \<Rightarrow> bool option" where
  "ancestor_loop k me a = (case a of
     None \<Rightarrow> Some False
   | Some pid \<Rightarrow> if pid = me then Some True else do { q \<leftarrow> proc k pid; ancestor_loop k me (p_parent q) })"

section \<open>The pid index\<close>

definition proc_lookup :: "kernel \<Rightarrow> u64 \<Rightarrow> u64 option option" where
  "proc_lookup k pid = (case proc k pid of
     None \<Rightarrow> Some None
   | Some _ \<Rightarrow> do {
       dead \<leftarrow> process_is_dead k (Some pid);
       Some (if dead then None else Some pid)
     })"

definition proc_lookup_any :: "kernel \<Rightarrow> u64 \<Rightarrow> u64 option" where
  "proc_lookup_any k pid = (if proc k pid = None then None else Some pid)"

definition resource_authorized :: "kernel \<Rightarrow> u64 \<Rightarrow> u64 \<Rightarrow> bool option" where
  "resource_authorized k caller owner =
     (if caller = owner then Some True else process_reaper_authorized k caller owner)"

text \<open>\<open>enum_subject_locked\<close> of \<^verbatim>\<open>umem.c\<close>, and \<open>resource_subject_locked\<close> of \<^verbatim>\<open>process.c\<close>.\<close>

definition enum_subject :: "kernel \<Rightarrow> u64 \<Rightarrow> u64 \<Rightarrow> u64 option option" where
  "enum_subject k caller pid =
     (if pid = 0 \<or> pid = caller then Some (Some caller)
      else case proc_lookup_any k pid of
          None \<Rightarrow> Some None
        | Some target \<Rightarrow> do {
            ok \<leftarrow> process_reaper_authorized k caller target;
            Some (if ok then Some target else None)
          })"

definition resource_subject :: "kernel \<Rightarrow> u64 \<Rightarrow> u64 \<Rightarrow> u64 option option" where
  "resource_subject k caller pid =
     (if pid = 0 \<or> pid = caller then Some (Some caller)
      else case proc_lookup_any k pid of
          None \<Rightarrow> Some None
        | Some target \<Rightarrow> do {
            ok \<leftarrow> process_reaper_authorized k caller target;
            Some (if ok then Some target else None)
          })"

end
