(* ===== verification/Sched.thy ===== *)
theory Sched
  imports Process_Tree
begin

text \<open>
  Run queues, thread release and the per-processor deadline trees: \<^verbatim>\<open>kernel/src/scheduler.c\<close>,
  \<^verbatim>\<open>thread.c\<close> and \<^verbatim>\<open>timer.c\<close>.  One processor's timer is shared by the scheduling quantum and the
  earliest parked thread's deadline; \<open>c_shot\<close> is what it was last programmed to, in microseconds.
\<close>

section \<open>Run queues\<close>

definition cpu_of :: "kernel \<Rightarrow> nat \<Rightarrow> cpu option" where
  "cpu_of k i = (if i < length (g_cpus k) then Some (g_cpus k ! i) else None)"

definition scheduler_pop_local :: "nat \<Rightarrow> kernel \<Rightarrow> u64 option \<times> kernel" where
  "scheduler_pop_local i k = (case c_queue (g_cpus k ! i) of
     [] \<Rightarrow> (None, k)
   | t # ts \<Rightarrow> (Some t, upd_cpu i (\<lambda>c. c\<lparr>c_queue := ts\<rparr>) k))"

definition scheduler_push_local :: "nat \<Rightarrow> u64 \<Rightarrow> kernel \<Rightarrow> kernel" where
  "scheduler_push_local i t = upd_cpu i (\<lambda>c. c\<lparr>c_queue := c_queue c @ [t]\<rparr>)"

definition scheduler_enqueue :: "u64 \<Rightarrow> kernel \<Rightarrow> kernel option" where
  "scheduler_enqueue t k = do {
     asserts (g_cpus k \<noteq> []);
     let target = unat (g_next_target k) mod length (g_cpus k);
     let k = k\<lparr>g_next_target := g_next_target k + 1\<rparr>;
     let k = scheduler_push_local target t k;
     Some (if c_idle (g_cpus k ! target) then upd_cpu target (\<lambda>c. c\<lparr>c_ipis := c_ipis c + 1\<rparr>) k else k)
   }"

section \<open>Threads\<close>

definition uthread_spawn :: "u64 \<Rightarrow> u64 \<Rightarrow> u64 \<Rightarrow> u64 \<Rightarrow> u64 \<Rightarrow> u64 \<Rightarrow> u64 option \<Rightarrow> u64
    \<Rightarrow> kernel \<Rightarrow> (u64 \<times> kernel) option" where
  "uthread_spawn pid entry user_sp arg fs gs completion_block completion_event k = do {
     _ \<leftarrow> proc k pid;
     k \<leftarrow> must_alloc k;
     let tid = g_next_tid k;
     let t = \<lparr>t_tid = tid, t_proc = pid, t_status = THREAD_RUNNABLE, t_on_cpu = False,
              t_wait_key = Futex_Key 0 0, t_deadline = 0, t_deadline_cpu = 0, t_wake_state = FUTEX_IDLE,
              t_completion_block = completion_block, t_completion_event = completion_event,
              t_rax = 0, t_entry = entry, t_rsp = user_sp, t_arg = arg, t_fs_base = fs, t_gs_base = gs\<rparr>;
     Some (tid, k\<lparr>g_next_tid := tid + 1, g_threads := om_insert tid t (g_threads k)\<rparr>)
   }"

text \<open>A thread whose context save is in flight keeps the caller spinning; nothing else runs meanwhile here.\<close>

definition thread_unblock_claimed :: "u64 \<Rightarrow> kernel \<Rightarrow> kernel option" where
  "thread_unblock_claimed t k = do {
     th \<leftarrow> thr k t;
     asserts (\<not> t_on_cpu th);
     asserts (t_status th = THREAD_BLOCKED);
     asserts (t_wake_state th = FUTEX_CLAIMED);
     scheduler_enqueue t (upd_thread t (\<lambda>th. th\<lparr>t_status := THREAD_RUNNABLE, t_wake_state := FUTEX_IDLE\<rparr>) k)
   }"

definition thread_deliver_wait_result :: "u64 \<Rightarrow> u64 \<Rightarrow> kernel \<Rightarrow> kernel" where
  "thread_deliver_wait_result t v = upd_thread t (\<lambda>th. th\<lparr>t_rax := v\<rparr>)"

text \<open>
  Parking the current thread and the scheduler loop's side of the switch: the save completes, \<open>on_cpu\<close>
  drops and the processor has no current thread.
\<close>

definition uthread_park :: "thread_status \<Rightarrow> bool \<Rightarrow> kernel \<Rightarrow> kernel option" where
  "uthread_park status requeue k = do {
     c \<leftarrow> cpu_of k (g_this_cpu k);
     curr \<leftarrow> c_current_thread c;
     let k = upd_thread curr (\<lambda>th. th\<lparr>t_status := status\<rparr>) k;
     let k = (if requeue then scheduler_push_local (g_this_cpu k) curr k else k);
     let k = upd_cpu (g_this_cpu k) (\<lambda>c. c\<lparr>c_current_thread := None\<rparr>) k;
     Some (upd_thread curr (\<lambda>th. th\<lparr>t_on_cpu := False\<rparr>) k)
   }"

section \<open>Deadlines\<close>

definition program_local :: "nat \<Rightarrow> u64 \<Rightarrow> kernel \<Rightarrow> kernel" where
  "program_local i now k =
     (let c = g_cpus k ! i;
          deadline = c_quantum c;
          deadline = (case om_entries (c_deadlines c) of
              [] \<Rightarrow> deadline
            | (first, _) # _ \<Rightarrow>
                if deadline = 0 \<or> td_deadline first < deadline then td_deadline first else deadline)
      in if deadline = 0 then upd_cpu i (\<lambda>c. c\<lparr>c_shot := None\<rparr>) k
         else let delta = (if deadline > now then deadline - now else 0);
                  us = delta div 1000 + (if delta mod 1000 \<noteq> 0 then 1 else 0)
              in upd_cpu i (\<lambda>c. c\<lparr>c_shot := Some (if us = 0 then 1 else us)\<rparr>) k)"

definition timer_cpu_dispatch :: "u64 \<Rightarrow> kernel \<Rightarrow> kernel" where
  "timer_cpu_dispatch quantum_ns k =
     (let i = g_this_cpu k; now = g_clock k;
          k = upd_cpu i (\<lambda>c. c\<lparr>c_quantum := (if - 1 - now < quantum_ns then - 1 else now + quantum_ns)\<rparr>) k
      in program_local i now k)"

definition timer_cpu_idle :: "kernel \<Rightarrow> kernel" where
  "timer_cpu_idle k =
     (let i = g_this_cpu k; k = upd_cpu i (\<lambda>c. c\<lparr>c_quantum := 0\<rparr>) k in program_local i (g_clock k) k)"

definition timer_deadline_arm :: "u64 \<Rightarrow> u64 \<Rightarrow> kernel \<Rightarrow> bool \<times> kernel" where
  "timer_deadline_arm t deadline_ns k =
     (let i = g_this_cpu k; ky = Tdeadline_Key deadline_ns t
      in case slab_alloc k of
           (False, k) \<Rightarrow> (False, k)
         | (True, k) \<Rightarrow>
             if om_lookup (c_deadlines (g_cpus k ! i)) ky \<noteq> None then (False, k)
             else
               let k = upd_cpu i (\<lambda>c. c\<lparr>c_deadlines := om_insert ky t (c_deadlines c)\<rparr>) k;
                   k = upd_thread t (\<lambda>th. th\<lparr>t_deadline := deadline_ns, t_deadline_cpu := i\<rparr>) k;
                   q = c_quantum (g_cpus k ! i)
               in (True,
                   case om_entries (c_deadlines (g_cpus k ! i)) of
                     (first, _) # _ \<Rightarrow>
                       if first = ky \<and> (q = 0 \<or> deadline_ns < q) then program_local i (g_clock k) k else k
                   | [] \<Rightarrow> k))"

definition timer_deadline_cancel :: "u64 \<Rightarrow> kernel \<Rightarrow> kernel option" where
  "timer_deadline_cancel t k = do {
     th \<leftarrow> thr k t;
     if t_deadline th = 0 then Some k
     else do {
       _ \<leftarrow> cpu_of k (t_deadline_cpu th);
       let k = upd_cpu (t_deadline_cpu th)
         (\<lambda>c. c\<lparr>c_deadlines := om_remove (Tdeadline_Key (t_deadline th) t) (c_deadlines c)\<rparr>) k;
       Some (upd_thread t (\<lambda>th. th\<lparr>t_deadline := 0\<rparr>) k)
     }
   }"

end
