(* ===== verification/Siphash.thy ===== *)
theory Siphash
  imports Prelude
begin

text \<open>
  SipHash-2-4 of \<^verbatim>\<open>kernel/vendor/siphash/siphash.c\<close>, with 64- and 128-bit output: the keyed hash behind the
  futex buckets and the code that authenticates capability tokens.  Bytes are lists; the loop over
  eight-byte words recurses on the remaining input.
\<close>

definition rotl :: "u64 \<Rightarrow> nat \<Rightarrow> u64" where
  "rotl x b = push_bit b x OR drop_bit (64 - b) x"

definition load64_le :: "u8 list \<Rightarrow> u64" where
  "load64_le p = foldr (\<lambda>b w. push_bit 8 w OR ucast b) (take 8 p) 0"

definition store64_le :: "u64 \<Rightarrow> u8 list" where
  "store64_le v = map (\<lambda>i. ucast (drop_bit (8 * i) v)) [0 ..< 8]"

datatype sip = Sip (sip_v0: u64) (sip_v1: u64) (sip_v2: u64) (sip_v3: u64)

fun sipround :: "sip \<Rightarrow> sip" where
  "sipround (Sip v0 v1 v2 v3) =
     (let v0 = v0 + v1;
          v1 = rotl v1 13 XOR v0;
          v0 = rotl v0 32;
          v2 = v2 + v3;
          v3 = rotl v3 16 XOR v2;
          v0 = v0 + v3;
          v3 = rotl v3 21 XOR v0;
          v2 = v2 + v1;
          v1 = rotl v1 17 XOR v2;
          v2 = rotl v2 32
      in Sip v0 v1 v2 v3)"

definition sip_absorb :: "u64 \<Rightarrow> sip \<Rightarrow> sip" where
  "sip_absorb m s =
     (case sipround (sipround (Sip (sip_v0 s) (sip_v1 s) (sip_v2 s) (sip_v3 s XOR m))) of
        Sip v0 v1 v2 v3 \<Rightarrow> Sip (v0 XOR m) v1 v2 v3)"

fun sip_words :: "u8 list \<Rightarrow> sip \<Rightarrow> u8 list \<times> sip" where
  "sip_words bs s = (if length bs < 8 then (bs, s) else sip_words (drop 8 bs) (sip_absorb (load64_le bs) s))"

declare sip_words.simps [simp del]

definition sip_output :: "sip \<Rightarrow> u64" where
  "sip_output s = sip_v0 s XOR sip_v1 s XOR sip_v2 s XOR sip_v3 s"

definition siphash_core :: "u8 list \<Rightarrow> u8 list \<Rightarrow> nat \<Rightarrow> u8 list" where
  "siphash_core bs key outlen =
     (let k0 = load64_le key; k1 = load64_le (drop 8 key);
          s = Sip (0x736f6d6570736575 XOR k0)
                (0x646f72616e646f6d XOR k1 XOR (if outlen = 16 then 0xee else 0))
                (0x6c7967656e657261 XOR k0) (0x7465646279746573 XOR k1);
          (tail, s) = sip_words bs s;
          b = push_bit 56 (of_nat (length bs)) OR load64_le (take 7 tail);
          s = sip_absorb b s;
          s = Sip (sip_v0 s) (sip_v1 s) (sip_v2 s XOR (if outlen = 16 then 0xee else 0xff)) (sip_v3 s);
          s = (sipround ^^ 4) s;
          lo = store64_le (sip_output s)
      in if outlen = 8 then lo
         else let s = (sipround ^^ 4) (Sip (sip_v0 s) (sip_v1 s XOR 0xdd) (sip_v2 s) (sip_v3 s))
              in lo @ store64_le (sip_output s))"

definition siphash :: "u8 list \<Rightarrow> u8 list \<Rightarrow> u64" where
  "siphash bs key = load64_le (siphash_core bs key 8)"

definition siphash128 :: "u8 list \<Rightarrow> u8 list \<Rightarrow> u8 list" where
  "siphash128 bs key = siphash_core bs key 16"

lemma length_store64_le [simp]: "length (store64_le v) = 8"
  by (simp add: store64_le_def)

lemma length_siphash128 [simp]: "length (siphash128 bs key) = 16"
  by (simp add: siphash128_def siphash_core_def Let_def split: prod.split)

end
