(* ===== verification/Futex.thy ===== *)
theory Futex
  imports Sched Siphash
begin

text \<open>
  Waking: the bucket table of \<^verbatim>\<open>kernel/src/futex.c\<close>, detaching and releasing waiters, and the expiry half
  of \<^verbatim>\<open>timer.c\<close>.  A bucket is an ordered index keyed by address and park sequence, so the waiters of one
  address are contiguous and first-in first-out.  The system-call back ends are in \<open>Futex_Sys\<close>.
\<close>

section \<open>Buckets\<close>

definition bucket_of :: "kernel \<Rightarrow> u64 \<Rightarrow> nat" where
  "bucket_of k addr = unat (drop_bit 54 (siphash (le_bytes 8 (addr div 4)) (g_futex_key k)))"

definition upd_bucket :: "nat \<Rightarrow> ((futex_key, u64) omap \<Rightarrow> (futex_key, u64) omap) \<Rightarrow> kernel \<Rightarrow> kernel" where
  "upd_bucket i f k = k\<lparr>g_futex := (g_futex k)(i := f (g_futex k i))\<rparr>"

text \<open>
  \<open>random\<close> is what the two reads of the random source gave; the bucket trees are allocated one by one.
\<close>

definition futex_init :: "u64 option \<Rightarrow> u64 option \<Rightarrow> kernel \<Rightarrow> kernel option" where
  "futex_init random0 random1 k = do {
     r0 \<leftarrow> random0;
     r1 \<leftarrow> random1;
     k \<leftarrow> fold (\<lambda>_ k. Option.bind k must_alloc) [0 ..< 1024] (Some k);
     Some (k\<lparr>g_futex_key := le_bytes 8 r0 @ le_bytes 8 r1, g_futex := \<lambda>_. om_empty\<rparr>)
   }"

section \<open>Claims\<close>

text \<open>\<open>futex_try_claim\<close> would spin on a thread in requeue's relink window.\<close>

definition futex_try_claim :: "u64 \<Rightarrow> kernel \<Rightarrow> (bool \<times> kernel) option" where
  "futex_try_claim t k = do {
     th \<leftarrow> thr k t;
     asserts (t_wake_state th \<noteq> FUTEX_MOVING);
     if t_wake_state th \<noteq> FUTEX_PARKED then Some (False, k)
     else Some (True, upd_thread t (\<lambda>th. th\<lparr>t_wake_state := FUTEX_CLAIMED\<rparr>) k)
   }"

definition finish_claimed :: "u64 \<Rightarrow> u64 \<Rightarrow> kernel \<Rightarrow> kernel option" where
  "finish_claimed t result k = do {
     k \<leftarrow> timer_deadline_cancel t k;
     th \<leftarrow> thr k t;
     dead \<leftarrow> process_is_dead k (Some (t_proc th));
     if dead then Some (upd_thread t (\<lambda>th. th\<lparr>t_wake_state := FUTEX_REAPABLE\<rparr>) k)
     else thread_unblock_claimed t (thread_deliver_wait_result t result k)
   }"

partial_function (option) detach_batch ::
    "nat \<Rightarrow> u64 \<Rightarrow> u32 \<Rightarrow> u32 \<Rightarrow> u64 \<Rightarrow> kernel \<Rightarrow> (u64 list \<times> kernel) option" where
  "detach_batch bk addr cap n next_seq k = (
     if n < cap then
       (case om_from (g_futex k bk) (Futex_Key addr next_seq) of
          [] \<Rightarrow> Some ([], k)
        | (ky, t) # _ \<Rightarrow>
            if fk_address ky \<noteq> addr then Some ([], k)
            else do {
              th \<leftarrow> thr k t;
              if t_wake_state th \<noteq> FUTEX_PARKED then detach_batch bk addr cap n (fk_seq ky + 1) k
              else do {
                let k = upd_thread t (\<lambda>th. th\<lparr>t_wake_state := FUTEX_CLAIMED\<rparr>) k;
                asserts (om_lookup (g_futex k bk) ky = Some t);
                r \<leftarrow> detach_batch bk addr cap (n + 1) (fk_seq ky + 1) (upd_bucket bk (om_remove ky) k);
                Some (t # fst r, snd r)
              }
            })
     else Some ([], k))"

primrec finish_batch :: "u64 list \<Rightarrow> u64 \<Rightarrow> kernel \<Rightarrow> kernel option" where
  "finish_batch [] result k = Some k"
| "finish_batch (t # ts) result k = do { k \<leftarrow> finish_claimed t result k; finish_batch ts result k }"

definition wake_batch :: "u64 \<Rightarrow> u64 \<Rightarrow> kernel \<Rightarrow> (u64 \<times> kernel) option" where
  "wake_batch addr count k = do {
     let cap = (if count < FUTEX_WAKE_BATCH then ucast count else ucast FUTEX_WAKE_BATCH);
     (batch, k) \<leftarrow> detach_batch (bucket_of k addr) addr cap 0 0 k;
     k \<leftarrow> finish_batch batch 0 k;
     Some (of_nat (length batch), k)
   }"

definition futex_wake_one :: "u64 \<Rightarrow> kernel \<Rightarrow> kernel option" where
  "futex_wake_one addr k = map_option snd (wake_batch addr 1 k)"

definition futex_publish_wake :: "u64 \<Rightarrow> u32 \<Rightarrow> kernel \<Rightarrow> kernel option" where
  "futex_publish_wake addr word k = do {
     k \<leftarrow> store32 addr word k;
     (batch, k) \<leftarrow> detach_batch (bucket_of k addr) addr 1 0 0 k;
     finish_batch batch 0 k
   }"

definition bucket_remove :: "u64 \<Rightarrow> kernel \<Rightarrow> kernel option" where
  "bucket_remove t k = do {
     th \<leftarrow> thr k t;
     let bk = bucket_of k (fk_address (t_wait_key th));
     asserts (om_lookup (g_futex k bk) (t_wait_key th) = Some t);
     Some (upd_bucket bk (om_remove (t_wait_key th)) k)
   }"

definition futex_expire_claimed :: "u64 \<Rightarrow> kernel \<Rightarrow> kernel option" where
  "futex_expire_claimed t k = do {
     k \<leftarrow> bucket_remove t k;
     finish_claimed t SYSERR_TIMEDOUT k
   }"

definition futex_reap_claimed :: "u64 \<Rightarrow> kernel \<Rightarrow> kernel option" where
  "futex_reap_claimed t k = do {
     k \<leftarrow> bucket_remove t k;
     timer_deadline_cancel t k
   }"

section \<open>Expiry\<close>

definition TIMER_IRQ_BATCH :: nat where "TIMER_IRQ_BATCH = 64"

partial_function (option) expire_loop ::
    "nat \<Rightarrow> u64 \<Rightarrow> tdeadline_key \<Rightarrow> nat \<Rightarrow> kernel \<Rightarrow> (u64 list \<times> kernel) option" where
  "expire_loop i now seek n k = (
     if n < TIMER_IRQ_BATCH then
       (case om_from (c_deadlines (g_cpus k ! i)) seek of
          [] \<Rightarrow> Some ([], k)
        | (ky, t) # _ \<Rightarrow>
            if td_deadline ky > now then Some ([], k)
            else do {
              r \<leftarrow> futex_try_claim t k;
              if \<not> fst r then expire_loop i now (Tdeadline_Key (td_deadline ky) (td_tid ky + 1)) n (snd r)
              else do {
                let k = snd r;
                asserts (om_lookup (c_deadlines (g_cpus k ! i)) ky = Some t);
                let k = upd_cpu i (\<lambda>c. c\<lparr>c_deadlines := om_remove ky (c_deadlines c)\<rparr>) k;
                let k = upd_thread t (\<lambda>th. th\<lparr>t_deadline := 0\<rparr>) k;
                r \<leftarrow> expire_loop i now (Tdeadline_Key (td_deadline ky) (td_tid ky + 1)) (n + 1) k;
                Some (t # fst r, snd r)
              }
            })
     else Some ([], k))"

primrec expire_batch :: "u64 list \<Rightarrow> kernel \<Rightarrow> kernel option" where
  "expire_batch [] k = Some k"
| "expire_batch (t # ts) k = do { k \<leftarrow> futex_expire_claimed t k; expire_batch ts k }"

definition timer_cpu_interrupt :: "kernel \<Rightarrow> (bool \<times> kernel) option" where
  "timer_cpu_interrupt k = do {
     let i = g_this_cpu k;
     let now = g_clock k;
     (expired, k) \<leftarrow> expire_loop i now (Tdeadline_Key 0 0) 0 k;
     let q = c_quantum (g_cpus k ! i);
     let quantum_expired = (q \<noteq> 0 \<and> q \<le> now);
     let k = (if quantum_expired then upd_cpu i (\<lambda>c. c\<lparr>c_quantum := 0\<rparr>) k else k);
     let k = program_local i now k;
     k \<leftarrow> expire_batch expired k;
     Some (quantum_expired, k)
   }"

end
