(* ===== verification/Ring.thy ===== *)
theory Ring
  imports Futex
begin

text \<open>
  Kernel channels: the ring layout of \<^verbatim>\<open>abi/gdosabi/kring.h\<close>, posting of completion entries in
  \<^verbatim>\<open>kernel/src/channel.c\<close>, and the two event schemes \<^verbatim>\<open>schemes/shares.c\<close> and \<^verbatim>\<open>schemes/tree.c\<close>.
  A ring is addressed by the base of its block; the header fields in the block are only mirrors, the
  indices of record are those of \<open>ring\<close>.
\<close>

section \<open>Layout\<close>

definition KRING_HDR_SIZE :: u64 where "KRING_HDR_SIZE = 64"
definition KRING_CQ_COUNT_OFF :: u64 where "KRING_CQ_COUNT_OFF = 0"
definition KRING_CQ_HEAD_OFF :: u64 where "KRING_CQ_HEAD_OFF = 4"
definition KRING_SQ_HEAD_OFF :: u64 where "KRING_SQ_HEAD_OFF = 8"
definition KRING_SQ_TAIL_OFF :: u64 where "KRING_SQ_TAIL_OFF = 12"
definition KRING_NSLOTS_OFF :: u64 where "KRING_NSLOTS_OFF = 16"

lemmas kring_offsets = KRING_HDR_SIZE_def KRING_CQ_COUNT_OFF_def KRING_CQ_HEAD_OFF_def
  KRING_SQ_HEAD_OFF_def KRING_SQ_TAIL_OFF_def KRING_NSLOTS_OFF_def

definition KRING_NSLOTS :: "nat \<Rightarrow> u32" where "KRING_NSLOTS order = push_bit order 32"

record ksqe =
  sq_op :: u64
  sq_a :: u64
  sq_b :: u64
  sq_c :: u64

record kcqe =
  cq_type :: u64
  cq_a :: u64
  cq_b :: u64
  cq_status :: u64

definition ring_of :: "kernel \<Rightarrow> u64 \<Rightarrow> ring option" where
  "ring_of k base = do { b \<leftarrow> block k base; ub_ring b }"

definition sq_of :: "u64 \<Rightarrow> u64" where
  "sq_of base = base + KRING_HDR_SIZE"

definition cq_of :: "u64 \<Rightarrow> u32 \<Rightarrow> u64" where
  "cq_of base nslots = base + KRING_HDR_SIZE + ucast nslots * 32"

definition kcqe_bytes :: "kcqe \<Rightarrow> u8 list" where
  "kcqe_bytes c = le_bytes 8 (cq_type c) @ le_bytes 8 (cq_a c) @ le_bytes 8 (cq_b c) @ le_bytes 8 (cq_status c)"

definition load_ksqe :: "kernel \<Rightarrow> u64 \<Rightarrow> ksqe option" where
  "load_ksqe k a = do {
     op \<leftarrow> load64 k a;
     x \<leftarrow> load64 k (a + 8);
     y \<leftarrow> load64 k (a + 16);
     z \<leftarrow> load64 k (a + 24);
     Some \<lparr>sq_op = op, sq_a = x, sq_b = y, sq_c = z\<rparr>
   }"

text \<open>Has the user-owned \<open>cq_head\<close> passed the entry at a monotonic index?\<close>

definition cqe_consumed :: "kernel \<Rightarrow> u64 \<Rightarrow> u32 \<Rightarrow> bool option" where
  "cqe_consumed k base ev_index = do {
     consumed \<leftarrow> load32 k (base + KRING_CQ_HEAD_OFF);
     Some (sint (consumed - ev_index) > 0)
   }"

section \<open>Posting\<close>

definition ring_post_locked :: "u64 \<Rightarrow> kcqe \<Rightarrow> kernel \<Rightarrow> (bool \<times> kernel) option" where
  "ring_post_locked base e k = do {
     r \<leftarrow> ring_of k base;
     consumed \<leftarrow> load32 k (base + KRING_CQ_HEAD_OFF);
     if r_cq_count r - consumed \<ge> r_nslots r then Some (False, k)
     else do {
       k \<leftarrow> store_bytes (cq_of base (r_nslots r) + ucast (r_cq_count r mod r_nslots r) * 32) (kcqe_bytes e) k;
       let k = upd_ring base (\<lambda>r. r\<lparr>r_cq_count := r_cq_count r + 1\<rparr>) k;
       k \<leftarrow> store32 (base + KRING_CQ_COUNT_OFF) (r_cq_count r + 1) k;
       k \<leftarrow> futex_wake_one (base + KRING_CQ_COUNT_OFF) k;
       Some (True, k)
     }
   }"

definition channel_post :: "u64 \<Rightarrow> u64 \<Rightarrow> u64 \<Rightarrow> u64 \<Rightarrow> u64 \<Rightarrow> kernel \<Rightarrow> (bool \<times> kernel) option" where
  "channel_post base type a b status k =
     ring_post_locked base \<lparr>cq_type = type, cq_a = a, cq_b = b, cq_status = status\<rparr> k"

text \<open>The index of the new entry is the second component of the result.\<close>

definition channel_post_data :: "u64 \<Rightarrow> u64 \<Rightarrow> u64 \<Rightarrow> u64 \<Rightarrow> u64 \<Rightarrow> kernel \<Rightarrow> (bool \<times> u32 \<times> kernel) option" where
  "channel_post_data base type a b status k = do {
     (posted, k) \<leftarrow> ring_post_locked base \<lparr>cq_type = type, cq_a = a, cq_b = b, cq_status = status\<rparr> k;
     if posted then do { r \<leftarrow> ring_of k base; Some (True, r_cq_count r - 1, k) }
     else Some (False, 0, k)
   }"

section \<open>Share edges\<close>

definition upd_edge :: "u64 \<Rightarrow> u64 \<Rightarrow> (share_edge \<Rightarrow> share_edge) \<Rightarrow> kernel \<Rightarrow> kernel" where
  "upd_edge base pid f = upd_block base (\<lambda>b. b\<lparr>ub_sharers := om_modify pid f (ub_sharers b)\<rparr>)"

definition edge :: "kernel \<Rightarrow> u64 \<Rightarrow> u64 \<Rightarrow> share_edge option" where
  "edge k base pid = do { b \<leftarrow> block k base; om_lookup (ub_sharers b) pid }"

definition pending_link :: "u64 \<Rightarrow> u64 \<Rightarrow> kernel \<Rightarrow> kernel option" where
  "pending_link base pid k = do {
     e \<leftarrow> edge k base pid;
     p \<leftarrow> proc k pid;
     asserts (\<not> e_notified e \<and> base \<notin> set (p_unnotified p));
     Some (upd_proc pid (\<lambda>p. p\<lparr>p_unnotified := p_unnotified p @ [base]\<rparr>) k)
   }"

definition umem_edge_pending_unlink :: "u64 \<Rightarrow> u64 \<Rightarrow> kernel \<Rightarrow> kernel option" where
  "umem_edge_pending_unlink base pid k = do {
     e \<leftarrow> edge k base pid;
     if e_notified e then Some k
     else Some (upd_proc pid (\<lambda>p. p\<lparr>p_unnotified := remove1 base (p_unnotified p)\<rparr>) k)
   }"

definition share_event :: "ublock \<Rightarrow> u64" where
  "share_event b = ub_base b OR of_nat (ub_order b)"

partial_function (option) shares_replay_loop :: "u64 \<Rightarrow> u64 \<Rightarrow> kernel \<Rightarrow> kernel option" where
  "shares_replay_loop rg pid k = do {
     p \<leftarrow> proc k pid;
     (case p_unnotified p of
        [] \<Rightarrow> Some k
      | base # _ \<Rightarrow> do {
          b \<leftarrow> block k base;
          r \<leftarrow> channel_post rg KEV_SHARE (ub_owner b) (share_event b) 0 k;
          if \<not> fst r then Some (snd r)
          else do {
            k \<leftarrow> umem_edge_pending_unlink base pid (snd r);
            shares_replay_loop rg pid (upd_edge base pid (\<lambda>e. e\<lparr>e_notified := True\<rparr>) k)
          }
        })
   }"

definition shares_replay :: "u64 \<Rightarrow> kernel \<Rightarrow> kernel option" where
  "shares_replay rg k = do { b \<leftarrow> block k rg; shares_replay_loop rg (ub_owner b) k }"

definition channel_edge_notify :: "u64 \<Rightarrow> u64 \<Rightarrow> kernel \<Rightarrow> kernel option" where
  "channel_edge_notify base pid k = do {
     p \<leftarrow> proc k pid;
     b \<leftarrow> block k base;
     (case p_share_ch p of
        None \<Rightarrow> Some k
      | Some rg \<Rightarrow> do {
          (posted, k) \<leftarrow> channel_post rg KEV_SHARE (ub_owner b) (share_event b) 0 k;
          if \<not> posted then Some k
          else do {
            k \<leftarrow> umem_edge_pending_unlink base pid k;
            Some (upd_edge base pid (\<lambda>e. e\<lparr>e_notified := True\<rparr>) k)
          }
        })
   }"

section \<open>Dead children\<close>

primrec tree_replay_loop :: "u64 list \<Rightarrow> u64 \<Rightarrow> kernel \<Rightarrow> kernel option" where
  "tree_replay_loop [] rg k = Some k"
| "tree_replay_loop (c # cs) rg k = do {
     child \<leftarrow> proc k c;
     if p_dead child \<and> \<not> p_death_notified child then do {
       (posted, k) \<leftarrow> channel_post rg KEV_CHILD_DEAD (p_pid child) (p_exit_status child) 0 k;
       if \<not> posted then Some k
       else tree_replay_loop cs rg (upd_proc c (\<lambda>p. p\<lparr>p_death_notified := True\<rparr>) k)
     }
     else tree_replay_loop cs rg k
   }"

definition tree_replay :: "u64 \<Rightarrow> kernel \<Rightarrow> kernel option" where
  "tree_replay rg k = do {
     b \<leftarrow> block k rg;
     p \<leftarrow> proc k (ub_owner b);
     tree_replay_loop (map fst (om_entries (p_children p))) rg k
   }"

definition channel_child_dead_notify :: "u64 \<Rightarrow> u64 \<Rightarrow> kernel \<Rightarrow> kernel option" where
  "channel_child_dead_notify parent child k = do {
     p \<leftarrow> proc k parent;
     c \<leftarrow> proc k child;
     (case p_tree_ch p of
        None \<Rightarrow> Some k
      | Some rg \<Rightarrow> do {
          (posted, k) \<leftarrow> channel_post rg KEV_CHILD_DEAD (p_pid c) (p_exit_status c) 0 k;
          Some (if posted then upd_proc child (\<lambda>p. p\<lparr>p_death_notified := True\<rparr>) k else k)
        })
   }"

end
