(* ===== verification/Umem_Index.thy ===== *)
theory Umem_Index
  imports Ring
begin

text \<open>
  Name and range resolution for user memory: the ordered-index helpers of \<^verbatim>\<open>kernel/src/umem.c\<close>,
  \<open>user_range_ok\<close> of \<^verbatim>\<open>uaccess.c\<close> and the copy-out all enumerations end with.
\<close>

section \<open>User ranges\<close>

text \<open>The page counter is 64 bits wide; a range that ends in the last page lets it wrap to zero.\<close>

partial_function (option) user_range_loop :: "view \<Rightarrow> bool \<Rightarrow> u64 \<Rightarrow> u64 \<Rightarrow> bool option" where
  "user_range_loop v need_write hi page = (
     if page < hi then
       let (flags, present) = view_getinfo v page
       in if \<not> present \<or> flags AND PAGE_U = 0 \<or> flags AND PAGE_R = 0 then Some False
          else if need_write \<and> flags AND PAGE_W = 0 then Some False
          else user_range_loop v need_write hi (page + 4096)
     else Some True)"

definition user_range_ok :: "kernel \<Rightarrow> u64 \<Rightarrow> u64 \<Rightarrow> u64 \<Rightarrow> bool \<Rightarrow> bool option" where
  "user_range_ok k pid addr nb need_write =
     (if nb = 0 then Some True
      else case add_overflow addr nb of
          None \<Rightarrow> Some False
        | Some hi \<Rightarrow> do {
            p \<leftarrow> proc k pid;
            v \<leftarrow> p_as p;
            user_range_loop v need_write hi (addr AND NOT 4095)
          })"

section \<open>Index helpers\<close>

definition umem_owned :: "kernel \<Rightarrow> u64 \<Rightarrow> u64 \<Rightarrow> ublock option option" where
  "umem_owned k pid base = do {
     p \<leftarrow> proc k pid;
     if om_lookup (p_blocks p) base = None then Some None
     else do { b \<leftarrow> block k base; Some (Some b) }
   }"

definition umem_view :: "kernel \<Rightarrow> u64 \<Rightarrow> u64 \<Rightarrow> u64 \<Rightarrow> u64 option option" where
  "umem_view k pid addr nb = do {
     p \<leftarrow> proc k pid;
     (case (if nb = 0 then None else add_overflow addr nb) of
        None \<Rightarrow> Some None
      | Some hi \<Rightarrow> do {
          owned \<leftarrow> (case om_floor (p_blocks p) addr of
              None \<Rightarrow> Some None
            | Some (base, _) \<Rightarrow> do {
                b \<leftarrow> block k base;
                Some (if hi \<le> ub_base b + ub_bytes b then Some base else None)
              });
          (case owned of
             Some base \<Rightarrow> Some (Some base)
           | None \<Rightarrow>
               (case om_floor (p_views p) addr of
                  None \<Rightarrow> Some None
                | Some (base, _) \<Rightarrow> do {
                    b \<leftarrow> block k base;
                    Some (if hi \<le> ub_base b + ub_bytes b then Some base else None)
                  }))
        })
   }"

definition umem_resource_block :: "kernel \<Rightarrow> u64 \<Rightarrow> u64 \<Rightarrow> u64 option option" where
  "umem_resource_block k caller base = (case block k base of
     None \<Rightarrow> Some None
   | Some b \<Rightarrow> do {
       ok \<leftarrow> resource_authorized k caller (ub_owner b);
       Some (if ok then Some base else None)
     })"

section \<open>Enumeration\<close>

text \<open>The keys above \<open>after\<close>, at most \<open>cap\<close> of them, in ascending order.\<close>

definition enum_keys :: "(u64, 'v) omap \<Rightarrow> u64 \<Rightarrow> u64 \<Rightarrow> u64 list" where
  "enum_keys m cap after = take (unat cap) (filter (\<lambda>x. x > after) (map fst (om_from m after)))"

definition umem_enum_copyout :: "u64 \<Rightarrow> u64 \<Rightarrow> u64 \<Rightarrow> u64 list \<Rightarrow> kernel \<Rightarrow> (u64 \<times> kernel) option" where
  "umem_enum_copyout caller buf cap values k =
     (if cap = 0 \<or> cap > VM_ENUM_BATCH \<or> of_nat (length values) > cap \<or> cap > - 1 div 8
      then Some (SYSERR_INVAL, k)
      else do {
        let bytes = cap * 8;
        b \<leftarrow> umem_view k caller buf bytes;
        ok \<leftarrow> (if b = None then Some False else user_range_ok k caller buf bytes True);
        if \<not> ok then Some (SYSERR_FAULT, k)
        else do {
          k \<leftarrow> store_bytes buf (concat (map (le_bytes 8) values)) k;
          Some (of_nat (length values), k)
        }
      })"

end
