(* ===== verification/Capability.thy ===== *)
theory Capability
  imports Umem_Index
begin

text \<open>
  Capabilities, \<^verbatim>\<open>kernel/src/capability.c\<close>: the forest of grants, the tokens that name them outside the
  kernel (authenticated by SipHash under a boot-time key), attenuation by \<open>subgrant\<close> and incremental
  revocation.  A grant is named by its id; a command returns its status, the submission entry as the
  completion will echo it, and the new state.
\<close>

section \<open>Interrupt routes as capability parameters\<close>

definition VECTOR_DEVICE_BASE :: nat where "VECTOR_DEVICE_BASE = 0x30"
definition VECTOR_DEVICE_END :: nat where "VECTOR_DEVICE_END = 0xEF"
definition IRQ_ROUTE_COUNT :: nat where "IRQ_ROUTE_COUNT = VECTOR_DEVICE_END - VECTOR_DEVICE_BASE + 1"

definition route_for_gsi :: "kernel \<Rightarrow> u64 \<Rightarrow> nat option" where
  "route_for_gsi k gsi =
     (if unat gsi \<ge> IRQ_ROUTE_COUNT \<or> \<not> ir_present (g_routes k ! unat gsi) then None else Some (unat gsi))"

definition route_id :: "kernel \<Rightarrow> nat \<Rightarrow> u32" where
  "route_id k i = push_bit 16 (ucast (ir_generation (g_routes k ! i))) OR ir_gsi (g_routes k ! i)"

section \<open>Tokens\<close>

definition CAP_TOKEN_VERSION :: u8 where "CAP_TOKEN_VERSION = 1"
definition CAP_TOKEN_SIZE :: u64 where "CAP_TOKEN_SIZE = 32"
definition KCAP_MAX_DEPTH :: nat where "KCAP_MAX_DEPTH = 64"
definition KCAP_GRANT_DEVMEM :: u8 where "KCAP_GRANT_DEVMEM = 1"
definition KCAP_GRANT_IRQ_ROUTE :: u8 where "KCAP_GRANT_IRQ_ROUTE = 2"
definition KCAP_GRANT_IOMMU_DEV :: u8 where "KCAP_GRANT_IOMMU_DEV = 3"

lemmas grant_types = KCAP_GRANT_DEVMEM_def KCAP_GRANT_IRQ_ROUTE_def KCAP_GRANT_IOMMU_DEV_def

record cap_token =
  tk_version :: u8
  tk_nres :: u8
  tk_reserved :: "u8 list"
  tk_grant_id :: u64
  tk_mac :: "u8 list"

definition token_bytes :: "cap_token \<Rightarrow> u8 list" where
  "token_bytes t = [tk_version t, tk_nres t] @ tk_reserved t @ le_bytes 8 (tk_grant_id t) @ tk_mac t"

definition token_of_bytes :: "u8 list \<Rightarrow> cap_token" where
  "token_of_bytes bs = \<lparr>tk_version = bs ! 0, tk_nres = bs ! 1, tk_reserved = take 6 (drop 2 bs),
     tk_grant_id = le_word (take 8 (drop 8 bs)), tk_mac = take 16 (drop 16 bs)\<rparr>"

text \<open>The characters of \<open>govindos-cap-v1\<close>.\<close>

definition g_mac_domain :: "u8 list" where
  "g_mac_domain = [103, 111, 118, 105, 110, 100, 111, 115, 45, 99, 97, 112, 45, 118, 49]"

definition token_mac :: "u8 list \<Rightarrow> cap_token \<Rightarrow> u8 list" where
  "token_mac boot_key t = siphash128 (g_mac_domain @ take 16 (token_bytes t)) boot_key"

definition token_write :: "kernel \<Rightarrow> u64 \<Rightarrow> cap_token" where
  "token_write k gid =
     (let t = \<lparr>tk_version = CAP_TOKEN_VERSION, tk_nres = 0, tk_reserved = replicate 6 0,
               tk_grant_id = gid, tk_mac = replicate 16 0\<rparr>
      in t\<lparr>tk_mac := token_mac (g_boot_key k) t\<rparr>)"

definition constant_equal :: "u8 list \<Rightarrow> u8 list \<Rightarrow> nat \<Rightarrow> bool" where
  "constant_equal a b n = (fold (\<lambda>i different. different OR (a ! i XOR b ! i)) [0 ..< n] 0 = 0)"

definition gnt :: "kernel \<Rightarrow> u64 \<Rightarrow> grant option" where
  "gnt k gid = om_lookup (g_grants k) gid"

definition upd_grant :: "u64 \<Rightarrow> (grant \<Rightarrow> grant) \<Rightarrow> kernel \<Rightarrow> kernel" where
  "upd_grant gid f k = k\<lparr>g_grants := om_modify gid f (g_grants k)\<rparr>"

text \<open>The walk up the ancestors, bounded by the greatest depth.\<close>

fun live_walk :: "nat \<Rightarrow> kernel \<Rightarrow> u64 option \<Rightarrow> u64 option" where
  "live_walk n k None = Some 0"
| "live_walk n k (Some gid) = do {
     g \<leftarrow> gnt k gid;
     if gr_dead g then Some SYSERR_DEAD
     else (case n of 0 \<Rightarrow> Some SYSERR_INVAL | Suc n \<Rightarrow> live_walk n k (gr_parent g))
   }"

definition token_resolve :: "kernel \<Rightarrow> cap_token \<Rightarrow> bool \<Rightarrow> u8 \<Rightarrow> (u64 \<times> u64) option" where
  "token_resolve k t need_live type =
     (if tk_version t \<noteq> CAP_TOKEN_VERSION \<or> tk_nres t \<noteq> 0 then Some (SYSERR_INVAL, 0)
      else if \<not> list_all (\<lambda>b. b = 0) (tk_reserved t) then Some (SYSERR_INVAL, 0)
      else if \<not> constant_equal (tk_mac t) (token_mac (g_boot_key k) t) 16 then Some (SYSERR_PERM, 0)
      else case gnt k (tk_grant_id t) of
          None \<Rightarrow> Some (SYSERR_DEAD, 0)
        | Some g \<Rightarrow>
            if type \<noteq> 0 \<and> gr_type g \<noteq> type then Some (SYSERR_PERM, 0)
            else if need_live then do {
              rc \<leftarrow> live_walk (KCAP_MAX_DEPTH + 1) k (Some (tk_grant_id t));
              Some (rc, tk_grant_id t)
            }
            else Some (0, tk_grant_id t))"

definition ring_range :: "kernel \<Rightarrow> u64 \<Rightarrow> u64 \<Rightarrow> u64 \<Rightarrow> bool option" where
  "ring_range k rg off n = do {
     b \<leftarrow> block k rg;
     Some (off \<le> ub_bytes b \<and> n \<le> ub_bytes b - off)
   }"

definition resolve_ring :: "kernel \<Rightarrow> u64 \<Rightarrow> u64 \<Rightarrow> u64 \<Rightarrow> bool \<Rightarrow> u8 \<Rightarrow> (u64 \<times> u64) option" where
  "resolve_ring k rg off n need_live type = do {
     ok \<leftarrow> ring_range k rg off n;
     if n \<noteq> CAP_TOKEN_SIZE \<or> \<not> ok then Some (SYSERR_INVAL, 0)
     else do {
       bs \<leftarrow> load_bytes k (rg + off) 32;
       token_resolve k (token_of_bytes bs) need_live type
     }
   }"

definition cap_verify_ring :: "kernel \<Rightarrow> u64 \<Rightarrow> u64 \<Rightarrow> u64 \<Rightarrow> u8 \<Rightarrow> (u64 \<times> u64) option" where
  "cap_verify_ring k rg off n type = resolve_ring k rg off n True type"

section \<open>Grants\<close>

definition zero_body :: "u8 \<Rightarrow> grant_body" where
  "zero_body type =
     (if type = KCAP_GRANT_DEVMEM then Devmem 0 0 0 else if type = KCAP_GRANT_IRQ_ROUTE then Irq None 0 else Iommu 0)"

definition grant_new :: "u64 option \<Rightarrow> u8 \<Rightarrow> bool \<Rightarrow> kernel \<Rightarrow> (u64 option \<times> kernel) option" where
  "grant_new parent type wildcard k = do {
     pd \<leftarrow> (case parent of None \<Rightarrow> Some None | Some pg \<Rightarrow> do { g \<leftarrow> gnt k pg; Some (Some (gr_depth g)) });
     if (case pd of None \<Rightarrow> False | Some d \<Rightarrow> unat d \<ge> KCAP_MAX_DEPTH) then Some (None, k)
     else (case slab_alloc k of
         (False, k) \<Rightarrow> Some (None, k)
       | (True, k) \<Rightarrow> do {
           let gid = g_next_grant_id k;
           let k = k\<lparr>g_next_grant_id := gid + 1\<rparr>;
           asserts (gid \<noteq> 0);
           let g = \<lparr>gr_id = gid, gr_type = type, gr_depth = (case pd of None \<Rightarrow> 0 | Some d \<Rightarrow> d + 1),
                    gr_wildcard = wildcard, gr_dead = False, gr_body = zero_body type,
                    gr_parent = parent, gr_children = []\<rparr>;
           let k = (case parent of None \<Rightarrow> k
             | Some pg \<Rightarrow> upd_grant pg (\<lambda>g. g\<lparr>gr_children := gid # gr_children g\<rparr>) k);
           k \<leftarrow> must_alloc k;
           asserts (gnt k gid = None);
           Some (Some gid, k\<lparr>g_grants := om_insert gid g (g_grants k)\<rparr>)
         })
   }"

definition grant_delete_leaf :: "u64 \<Rightarrow> kernel \<Rightarrow> kernel option" where
  "grant_delete_leaf gid k = do {
     g \<leftarrow> gnt k gid;
     asserts (gr_children g = []);
     let k = (case gr_parent g of None \<Rightarrow> k
       | Some pg \<Rightarrow> upd_grant pg (\<lambda>p. p\<lparr>gr_children := remove1 gid (gr_children p)\<rparr>) k);
     Some (k\<lparr>g_grants := om_remove gid (g_grants k)\<rparr>)
   }"

partial_function (option) first_leaf :: "kernel \<Rightarrow> u64 \<Rightarrow> u64 option" where
  "first_leaf k gid = do {
     g \<leftarrow> gnt k gid;
     (case gr_children g of [] \<Rightarrow> Some gid | c # _ \<Rightarrow> first_leaf k c)
   }"

definition revoke_step :: "u64 \<Rightarrow> kernel \<Rightarrow> (u64 \<times> kernel) option" where
  "revoke_step target k = do {
     _ \<leftarrow> gnt k target;
     let k = upd_grant target (\<lambda>g. g\<lparr>gr_dead := True\<rparr>) k;
     leaf \<leftarrow> first_leaf k target;
     k \<leftarrow> grant_delete_leaf leaf k;
     Some (if leaf = target then 0 else SYSERR_AGAIN, k)
   }"

section \<open>Attenuation\<close>

record kcap_subgrant_req =
  rq_token_off :: u64
  rq_token_len :: u64
  rq_p0 :: u64
  rq_p1 :: u64
  rq_p2 :: u64
  rq_present :: u32
  rq_reserved :: u32
  rq_reserved2 :: u64

definition load_subgrant_req :: "kernel \<Rightarrow> u64 \<Rightarrow> kcap_subgrant_req option" where
  "load_subgrant_req k a = do {
     off \<leftarrow> load64 k a;
     n \<leftarrow> load64 k (a + 8);
     p0 \<leftarrow> load64 k (a + 16);
     p1 \<leftarrow> load64 k (a + 24);
     p2 \<leftarrow> load64 k (a + 32);
     present \<leftarrow> load32 k (a + 40);
     r1 \<leftarrow> load32 k (a + 44);
     r2 \<leftarrow> load64 k (a + 48);
     Some \<lparr>rq_token_off = off, rq_token_len = n, rq_p0 = p0, rq_p1 = p1, rq_p2 = p2,
           rq_present = present, rq_reserved = r1, rq_reserved2 = r2\<rparr>
   }"

definition KCAP_PARAM_P0 :: u32 where "KCAP_PARAM_P0 = 1"
definition KCAP_PARAM_P1 :: u32 where "KCAP_PARAM_P1 = 2"
definition KCAP_PARAM_P2 :: u32 where "KCAP_PARAM_P2 = 4"

lemmas kcap_params = KCAP_PARAM_P0_def KCAP_PARAM_P1_def KCAP_PARAM_P2_def

definition range_sum :: "u64 \<Rightarrow> u64 \<Rightarrow> u64 option" where
  "range_sum base n = (if n = 0 then None else add_overflow base n)"

text \<open>The three bodies of \<open>subgrant\<close>: a status and the child's parameters.\<close>

definition subgrant_devmem :: "kcap_subgrant_req \<Rightarrow> grant \<Rightarrow> u64 \<times> grant_body" where
  "subgrant_devmem req parent =
     (let rc = (if gr_wildcard parent \<and> rq_present req \<noteq> 7 then SYSERR_INVAL else 0);
          base = (if rq_present req AND KCAP_PARAM_P0 \<noteq> 0 then rq_p0 req else dm_base (gr_body parent));
          n = (if rq_present req AND KCAP_PARAM_P1 \<noteq> 0 then rq_p1 req else dm_len (gr_body parent));
          flags = (if rq_present req AND KCAP_PARAM_P2 \<noteq> 0 then ucast (rq_p2 req) else dm_flags (gr_body parent));
          bad = (rq_present req AND KCAP_PARAM_P2 \<noteq> 0 \<and> drop_bit 32 (rq_p2 req) \<noteq> 0
            \<or> range_sum base n = None
            \<or> \<not> gr_wildcard parent \<and>
                (case range_sum (dm_base (gr_body parent)) (dm_len (gr_body parent)) of
                   None \<Rightarrow> True
                 | Some parent_end \<Rightarrow> base < dm_base (gr_body parent) \<or> the (range_sum base n) > parent_end)
            \<or> \<not> gr_wildcard parent \<and> flags AND NOT (dm_flags (gr_body parent)) \<noteq> 0)
      in (if bad then SYSERR_PERM else rc, Devmem base n flags))"

definition subgrant_irq :: "kernel \<Rightarrow> kcap_subgrant_req \<Rightarrow> grant \<Rightarrow> u64 \<times> grant_body" where
  "subgrant_irq k req parent =
     (let (rc, body) =
        (if gr_wildcard parent then
           (if rq_present req AND KCAP_PARAM_P0 = 0 then (SYSERR_INVAL, Irq None 0)
            else case route_for_gsi k (rq_p0 req) of
                None \<Rightarrow> (SYSERR_INVAL, Irq None 0)
              | Some i \<Rightarrow> (0, Irq (Some i) (route_id k i)))
         else (if rq_present req AND KCAP_PARAM_P0 \<noteq> 0 \<and> rq_p0 req \<noteq> ucast (gi_id (gr_body parent))
               then SYSERR_PERM else 0, gr_body parent))
      in (if rq_present req AND (KCAP_PARAM_P1 OR KCAP_PARAM_P2) \<noteq> 0 then SYSERR_INVAL else rc, body))"

definition subgrant_iommu :: "kcap_subgrant_req \<Rightarrow> grant \<Rightarrow> u64 \<times> grant_body" where
  "subgrant_iommu req parent =
     (let requester = (if rq_present req AND KCAP_PARAM_P0 \<noteq> 0 then rq_p0 req
            else ucast (gm_requester (gr_body parent)));
          bad = (drop_bit 32 requester \<noteq> 0 \<or> gr_wildcard parent \<and> rq_present req AND KCAP_PARAM_P0 = 0
            \<or> \<not> gr_wildcard parent \<and> requester \<noteq> ucast (gm_requester (gr_body parent))
            \<or> rq_present req AND (KCAP_PARAM_P1 OR KCAP_PARAM_P2) \<noteq> 0)
      in (if bad then SYSERR_PERM else 0, Iommu (ucast requester)))"

definition subgrant :: "kcap_subgrant_req \<Rightarrow> u64 \<Rightarrow> kernel \<Rightarrow> (u64 \<times> cap_token option \<times> kernel) option" where
  "subgrant req pg k = do {
     parent \<leftarrow> gnt k pg;
     if rq_reserved req \<noteq> 0 \<or> rq_reserved2 req \<noteq> 0 \<or> rq_present req AND NOT 7 \<noteq> 0
     then Some (SYSERR_INVAL, None, k)
     else if unat (gr_depth parent) \<ge> KCAP_MAX_DEPTH then Some (SYSERR_NOMEM, None, k)
     else do {
       (child, k) \<leftarrow> grant_new (Some pg) (gr_type parent) False k;
       (case child of
          None \<Rightarrow> Some (SYSERR_NOMEM, None, k)
        | Some gid \<Rightarrow> do {
            let (rc, body) =
              (if gr_type parent = KCAP_GRANT_DEVMEM then subgrant_devmem req parent
               else if gr_type parent = KCAP_GRANT_IRQ_ROUTE then subgrant_irq k req parent
               else if gr_type parent = KCAP_GRANT_IOMMU_DEV then subgrant_iommu req parent
               else (SYSERR_INVAL, zero_body (gr_type parent)));
            let k = upd_grant gid (\<lambda>g. g\<lparr>gr_body := body\<rparr>) k;
            if rc \<noteq> 0 then do {
              k \<leftarrow> grant_delete_leaf gid k;
              Some (rc, None, k)
            }
            else Some (0, Some (token_write k gid), k)
          })
     }
   }"

section \<open>Commands\<close>

partial_function (option) all_live :: "kernel \<Rightarrow> u64 option \<Rightarrow> bool option" where
  "all_live k at = (case at of
     None \<Rightarrow> Some True
   | Some gid \<Rightarrow> do {
       g \<leftarrow> gnt k gid;
       r \<leftarrow> all_live k (gr_parent g);
       Some (\<not> gr_dead g \<and> r)
     })"

definition query_bytes :: "grant \<Rightarrow> bool \<Rightarrow> u8 list" where
  "query_bytes g live =
     (let (p0, p1, p2) =
        (if gr_type g = KCAP_GRANT_DEVMEM
         then (dm_base (gr_body g), dm_len (gr_body g), ucast (dm_flags (gr_body g)))
         else if gr_type g = KCAP_GRANT_IRQ_ROUTE
         then (if gr_wildcard g then - 1 else ucast (gi_id (gr_body g)), 0, 0)
         else (if gr_wildcard g then - 1 else ucast (gm_requester (gr_body g)), 0, 0 :: u64))
      in le_bytes 8 (gr_id g) @ le_bytes 8 (p0 :: u64) @ le_bytes 8 (p1 :: u64) @ le_bytes 8 p2 @
         le_bytes 4 (ucast (gr_type g) :: u32) @ le_bytes 4 (ucast (gr_depth g) :: u32) @
         le_bytes 4 (if live then 1 else 0 :: u32) @ le_bytes 4 (if gr_wildcard g then 1 else 0 :: u32))"

definition cap_subgrant_cmd :: "u64 \<Rightarrow> ksqe \<Rightarrow> kernel \<Rightarrow> (u64 \<times> ksqe \<times> kernel) option" where
  "cap_subgrant_cmd rg sqe k = do {
     in_ok \<leftarrow> ring_range k rg (sq_a sqe) 56;
     out_ok \<leftarrow> ring_range k rg (sq_c sqe) CAP_TOKEN_SIZE;
     if sq_b sqe \<noteq> 0 \<or> \<not> in_ok \<or> \<not> out_ok then Some (SYSERR_INVAL, sqe, k)
     else do {
       req \<leftarrow> load_subgrant_req k (rg + sq_a sqe);
       (rc, parent) \<leftarrow> cap_verify_ring k rg (rq_token_off req) (rq_token_len req) 0;
       if rc \<noteq> 0 then Some (rc, sqe, k)
       else do {
         (rc, token, k) \<leftarrow> subgrant req parent k;
         (case token of
            None \<Rightarrow> Some (rc, sqe, k)
          | Some t \<Rightarrow> do {
              k \<leftarrow> store_bytes (rg + sq_c sqe) (token_bytes t) k;
              Some (rc, sqe\<lparr>sq_a := tk_grant_id t\<rparr>, k)
            })
       }
     }
   }"

definition cap_revoke_cmd :: "u64 \<Rightarrow> ksqe \<Rightarrow> kernel \<Rightarrow> (u64 \<times> ksqe \<times> kernel) option" where
  "cap_revoke_cmd rg sqe k = do {
     ok \<leftarrow> ring_range k rg (sq_a sqe) (sq_b sqe);
     if sq_b sqe \<noteq> CAP_TOKEN_SIZE \<or> \<not> ok then Some (SYSERR_INVAL, sqe, k)
     else do {
       bs \<leftarrow> load_bytes k (rg + sq_a sqe) 32;
       (rc, target) \<leftarrow> token_resolve k (token_of_bytes bs) False 0;
       if rc \<noteq> 0 then Some (rc, sqe, k)
       else do { (rc, k) \<leftarrow> revoke_step target k; Some (rc, sqe, k) }
     }
   }"

definition cap_query_cmd :: "u64 \<Rightarrow> ksqe \<Rightarrow> kernel \<Rightarrow> (u64 \<times> ksqe \<times> kernel) option" where
  "cap_query_cmd rg sqe k = do {
     in_ok \<leftarrow> ring_range k rg (sq_a sqe) 16;
     out_ok \<leftarrow> ring_range k rg (sq_c sqe) 48;
     if \<not> in_ok \<or> \<not> out_ok then Some (SYSERR_INVAL, sqe, k)
     else do {
       off \<leftarrow> load64 k (rg + sq_a sqe);
       n \<leftarrow> load64 k (rg + sq_a sqe + 8);
       (rc, gid) \<leftarrow> resolve_ring k rg off n False 0;
       if rc \<noteq> 0 then Some (rc, sqe, k)
       else do {
         g \<leftarrow> gnt k gid;
         live \<leftarrow> all_live k (Some gid);
         k \<leftarrow> store_bytes (rg + sq_c sqe) (query_bytes g live) k;
         Some (0, sqe, k)
       }
     }
   }"

definition cap_exec :: "u64 \<Rightarrow> ksqe \<Rightarrow> kernel \<Rightarrow> (u64 \<times> ksqe \<times> kernel) option" where
  "cap_exec rg sqe k =
     (if sq_op sqe = 1 then cap_subgrant_cmd rg sqe k
      else if sq_op sqe = 2 then cap_revoke_cmd rg sqe k
      else if sq_op sqe = 3 then cap_query_cmd rg sqe k
      else Some (SYSERR_NOSYS, sqe, k))"

definition capability_init :: "u64 option \<Rightarrow> u64 option \<Rightarrow> kernel \<Rightarrow> kernel option" where
  "capability_init random0 random1 k = do {
     k \<leftarrow> must_alloc k;
     r0 \<leftarrow> random0;
     r1 \<leftarrow> random1;
     Some (k\<lparr>g_grants := om_empty, g_boot_key := le_bytes 8 r0 @ le_bytes 8 r1\<rparr>)
   }"

definition capability_bootstrap :: "kernel \<Rightarrow> (cap_token \<times> cap_token \<times> cap_token \<times> kernel) option" where
  "capability_bootstrap k = do {
     (d, k) \<leftarrow> grant_new None KCAP_GRANT_DEVMEM True k;
     (q, k) \<leftarrow> grant_new None KCAP_GRANT_IRQ_ROUTE True k;
     (m, k) \<leftarrow> grant_new None KCAP_GRANT_IOMMU_DEV True k;
     d \<leftarrow> d;
     q \<leftarrow> q;
     m \<leftarrow> m;
     Some (token_write k d, token_write k q, token_write k m, k)
   }"

definition cap_irq_route :: "kernel \<Rightarrow> grant \<Rightarrow> nat option" where
  "cap_irq_route k g = (case gi_route (gr_body g) of
     None \<Rightarrow> None
   | Some i \<Rightarrow> if route_id k i \<noteq> gi_id (gr_body g) then None else Some i)"

definition cap_create_irq_route :: "u64 \<Rightarrow> nat \<Rightarrow> kernel \<Rightarrow> (u64 \<times> cap_token option \<times> kernel) option" where
  "cap_create_irq_route pg route k = do {
     parent \<leftarrow> gnt k pg;
     if gr_type parent \<noteq> KCAP_GRANT_IRQ_ROUTE \<or> gr_dead parent \<or> \<not> gr_wildcard parent
     then Some (SYSERR_PERM, None, k)
     else do {
       (g, k) \<leftarrow> grant_new (Some pg) KCAP_GRANT_IRQ_ROUTE False k;
       (case g of
          None \<Rightarrow> Some (SYSERR_NOMEM, None, k)
        | Some gid \<Rightarrow>
            let k = upd_grant gid (\<lambda>g. g\<lparr>gr_body := Irq (Some route) (route_id k route)\<rparr>) k
            in Some (0, Some (token_write k gid), k))
     }
   }"

end
