(* ===== verification/Irq.thy ===== *)
theory Irq
  imports Capability
begin

text \<open>
  Interrupt channels, \<^verbatim>\<open>kernel/src/schemes/irq.c\<close>: 192 routes, one per device vector, each claimed by at
  most one channel.  A pin-backed route is claimed through a capability; a message-signalled one is
  allocated from the free slots together with a capability of its own.  Raise and acknowledge counters
  decide when the single outstanding event of a route is posted again.
\<close>

definition upd_route :: "nat \<Rightarrow> (irq_route \<Rightarrow> irq_route) \<Rightarrow> kernel \<Rightarrow> kernel" where
  "upd_route i f k = k\<lparr>g_routes := (g_routes k)[i := f (g_routes k ! i)]\<rparr>"

definition bump_generation :: "u16 \<Rightarrow> u16" where
  "bump_generation g = (if g + 1 = 0 then g + 2 else g + 1)"

definition route_for_id :: "kernel \<Rightarrow> u64 \<Rightarrow> nat option" where
  "route_for_id k x =
     (if unat x < IRQ_ROUTE_COUNT \<and> ir_present (g_routes k ! unat x) then Some (unat x)
      else
        let idx = unat ((ucast x :: u32) AND 0xffff); generation = ucast (drop_bit 16 (ucast x :: u32))
        in if idx \<ge> IRQ_ROUTE_COUNT \<or> generation = 0 then None
           else if ir_allocated (g_routes k ! idx) \<and> ir_generation (g_routes k ! idx) = generation
           then Some idx else None)"

section \<open>Delivery\<close>

definition retire :: "nat \<Rightarrow> kernel \<Rightarrow> kernel option" where
  "retire i k =
     (let r = g_routes k ! i
      in case ir_ring r of
           Some rg \<Rightarrow>
             if ir_posted r then do {
               consumed \<leftarrow> cqe_consumed k rg (ir_ev_index r);
               Some (if consumed then upd_route i (\<lambda>r. r\<lparr>ir_posted := False\<rparr>) k else k)
             }
             else Some k
         | None \<Rightarrow> Some k)"

definition post_pending :: "nat \<Rightarrow> kernel \<Rightarrow> kernel option" where
  "post_pending i k = do {
     k \<leftarrow> retire i k;
     let r = g_routes k ! i;
     (case ir_ring r of
        None \<Rightarrow> Some k
      | Some rg \<Rightarrow>
          if ir_posted r \<or> ir_raised r = ir_acked r then Some k
          else do {
            (posted, index, k) \<leftarrow> channel_post_data rg KEV_IRQ (ir_cookie r) (ir_raised r) 0 k;
            Some (if posted then upd_route i (\<lambda>r. r\<lparr>ir_posted := True, ir_ev_index := index\<rparr>) k else k)
          })
   }"

definition ioapic_mask :: "nat \<Rightarrow> kernel \<Rightarrow> kernel" where
  "ioapic_mask i k = k\<lparr>g_ioapic := x86_ioapic_mask (ir_gsi (g_routes k ! i)) (g_ioapic k)\<rparr>"

definition ioapic_unmask :: "nat \<Rightarrow> kernel \<Rightarrow> kernel" where
  "ioapic_unmask i k = k\<lparr>g_ioapic := x86_ioapic_unmask (ir_gsi (g_routes k ! i)) (g_ioapic k)\<rparr>"

definition irq_scheme_init :: "kernel \<Rightarrow> kernel" where
  "irq_scheme_init k = k\<lparr>g_routes := map (\<lambda>(i, r).
     (case x86_ioapic_gsi_info (of_nat i) (g_ioapic k) of
        None \<Rightarrow> r\<lparr>ir_gsi := of_nat i, ir_present := False\<rparr>
      | Some m \<Rightarrow> r\<lparr>ir_gsi := of_nat i, ir_present := True, ir_mode := m\<rparr>))
     (zip [0 ..< IRQ_ROUTE_COUNT] (g_routes k))\<rparr>"

definition irq_deliver :: "u8 \<Rightarrow> kernel \<Rightarrow> kernel option" where
  "irq_deliver vector k = do {
     let i = unat vector - VECTOR_DEVICE_BASE;
     let r = g_routes k ! i;
     if ir_ring r = None then
       (let k = (if ir_present r then ioapic_mask i k else k)
        in Some (upd_route i (\<lambda>r. r\<lparr>ir_spurious_logged := True\<rparr>) k))
     else do {
       let k = (if ir_mode r = IRQ_TRIGGER_LEVEL then ioapic_mask i k else k);
       let k = upd_route i (\<lambda>r. r\<lparr>ir_raised := ir_raised r + 1\<rparr>) k;
       post_pending i k
     }
   }"

section \<open>Claims\<close>

definition claim :: "u64 \<Rightarrow> nat option \<Rightarrow> u64 \<Rightarrow> kernel \<Rightarrow> (u64 \<times> kernel) option" where
  "claim rg route cookie k = (case route of
     None \<Rightarrow> Some (SYSERR_INVAL, k)
   | Some i \<Rightarrow> do {
       r \<leftarrow> ring_of k rg;
       if 2 * (r_nclaims r + 1) > r_nslots r then Some (SYSERR_NOMEM, k)
       else if ir_ring (g_routes k ! i) \<noteq> None then Some (SYSERR_EXIST, k)
       else
         let gsi = ir_gsi (g_routes k ! i);
             (ok, io) = x86_ioapic_program gsi (ucast (of_nat VECTOR_DEVICE_BASE + gsi)) (g_bsp_apic_id k) (g_ioapic k)
         in if \<not> ok then Some (SYSERR_INVAL, k)
            else do {
              let k = k\<lparr>g_ioapic := io\<rparr>;
              let k = upd_route i (\<lambda>r. r\<lparr>ir_cookie := cookie, ir_raised := 0, ir_acked := 0, ir_posted := False,
                ir_spurious_logged := False, ir_ring := Some rg\<rparr>) k;
              let k = upd_ring rg (\<lambda>r. r\<lparr>r_irq_claims := i # r_irq_claims r, r_nclaims := r_nclaims r + 1\<rparr>) k;
              Some (0, ioapic_unmask i k)
            }
     })"

text \<open>Dropping a route's channel, shared by release and channel teardown.\<close>

definition route_detach :: "nat \<Rightarrow> kernel \<Rightarrow> kernel" where
  "route_detach i k =
     (let k = (if ir_present (g_routes k ! i) then ioapic_mask i k else k)
      in upd_route i (\<lambda>r.
           let r = r\<lparr>ir_ring := None, ir_posted := False\<rparr>
           in if ir_present r then r
              else r\<lparr>ir_generation := bump_generation (ir_generation r), ir_allocated := False\<rparr>) k)"

definition release :: "u64 \<Rightarrow> u64 \<Rightarrow> kernel \<Rightarrow> (u64 \<times> kernel) option" where
  "release rg gsi k = (case route_for_id k gsi of
     None \<Rightarrow> Some (SYSERR_INVAL, k)
   | Some i \<Rightarrow>
       if ir_ring (g_routes k ! i) \<noteq> Some rg then Some (SYSERR_INVAL, k)
       else do {
         let k = route_detach i k;
         r \<leftarrow> ring_of k rg;
         asserts (i \<in> set (r_irq_claims r));
         Some (0, upd_ring rg (\<lambda>r. r\<lparr>r_irq_claims := remove1 i (r_irq_claims r), r_nclaims := r_nclaims r - 1\<rparr>) k)
       })"

definition ack :: "u64 \<Rightarrow> u64 \<Rightarrow> u64 \<Rightarrow> kernel \<Rightarrow> (u64 \<times> kernel) option" where
  "ack rg gsi sq k = (case route_for_id k gsi of
     None \<Rightarrow> Some (SYSERR_INVAL, k)
   | Some i \<Rightarrow>
       if ir_ring (g_routes k ! i) \<noteq> Some rg then Some (SYSERR_INVAL, k)
       else do {
         let k = upd_route i (\<lambda>r. r\<lparr>ir_acked := sq\<rparr>) k;
         let k = (if ir_mode (g_routes k ! i) = IRQ_TRIGGER_LEVEL then ioapic_unmask i k else k);
         k \<leftarrow> post_pending i k;
         Some (0, k)
       })"

section \<open>Message-signalled interrupts\<close>

definition free_slot :: "kernel \<Rightarrow> nat option" where
  "free_slot k = find (\<lambda>i. \<not> ir_present (g_routes k ! i) \<and> \<not> ir_allocated (g_routes k ! i))
     (rev [0 ..< IRQ_ROUTE_COUNT])"

definition allocate_msi_on_ring :: "u64 \<Rightarrow> ksqe \<Rightarrow> kernel \<Rightarrow> (u64 \<times> ksqe \<times> kernel) option" where
  "allocate_msi_on_ring rg sqe k = do {
     b \<leftarrow> block k rg;
     r \<leftarrow> ub_ring b;
     (rc, parent) \<leftarrow> cap_verify_ring k rg (sq_a sqe) (sq_b sqe) KCAP_GRANT_IRQ_ROUTE;
     if rc \<noteq> 0 \<or> sq_c sqe > ub_bytes b \<or> CAP_TOKEN_SIZE > ub_bytes b - sq_c sqe
     then Some (if rc \<noteq> 0 then rc else SYSERR_INVAL, sqe, k)
     else if 2 * (r_nclaims r + 1) > r_nslots r then Some (SYSERR_NOMEM, sqe, k)
     else (case free_slot k of
         None \<Rightarrow> Some (SYSERR_NOMEM, sqe, k)
       | Some i \<Rightarrow> do {
           let k = upd_route i (\<lambda>r. r\<lparr>ir_generation := bump_generation (ir_generation r), ir_allocated := True,
             ir_mode := IRQ_TRIGGER_EDGE\<rparr>) k;
           let k = upd_route i (\<lambda>r. r\<lparr>ir_cookie := ucast (route_id k i), ir_raised := 0, ir_acked := 0,
             ir_posted := False, ir_spurious_logged := False, ir_ring := Some rg\<rparr>) k;
           let k = upd_ring rg (\<lambda>r. r\<lparr>r_irq_claims := i # r_irq_claims r, r_nclaims := r_nclaims r + 1\<rparr>) k;
           (rc, token, k) \<leftarrow> cap_create_irq_route parent i k;
           (case token of
              None \<Rightarrow>
                let k = upd_ring rg (\<lambda>r. r\<lparr>r_irq_claims := tl (r_irq_claims r), r_nclaims := r_nclaims r - 1\<rparr>) k
                in Some (rc, sqe, upd_route i (\<lambda>r. r\<lparr>ir_ring := None, ir_allocated := False,
                     ir_generation := bump_generation (ir_generation r)\<rparr>) k)
            | Some t \<Rightarrow> do {
                k \<leftarrow> store_bytes (rg + sq_c sqe) (token_bytes t) k;
                Some (0, sqe\<lparr>sq_a := ucast (route_id k i)\<rparr>, k)
              })
         })
   }"

definition msi_address :: "nat option \<Rightarrow> ksqe \<Rightarrow> kernel \<Rightarrow> u64 \<times> ksqe" where
  "msi_address route sqe k = (case route of
     None \<Rightarrow> (SYSERR_INVAL, sqe)
   | Some i \<Rightarrow>
       if ir_present (g_routes k ! i) \<or> \<not> ir_allocated (g_routes k ! i) then (SYSERR_INVAL, sqe)
       else
         let dat = (of_nat VECTOR_DEVICE_BASE + ir_gsi (g_routes k ! i) :: u32)
         in (0, sqe\<lparr>sq_a := 0xFEE00000 OR push_bit 12 (ucast (g_bsp_apic_id k)),
                    sq_b := push_bit 32 (ucast (route_id k i)) OR ucast dat\<rparr>))"

section \<open>Commands, replay and teardown\<close>

definition irq_exec :: "u64 \<Rightarrow> ksqe \<Rightarrow> kernel \<Rightarrow> (u64 \<times> ksqe \<times> kernel) option" where
  "irq_exec rg sqe k =
     (if sq_op sqe = 1 then do {
        (rc, gid) \<leftarrow> cap_verify_ring k rg (sq_a sqe) (sq_b sqe) KCAP_GRANT_IRQ_ROUTE;
        if rc \<noteq> 0 then Some (rc, sqe, k)
        else do {
          g \<leftarrow> gnt k gid;
          (rc, k) \<leftarrow> claim rg (cap_irq_route k g) (sq_c sqe) k;
          Some (rc, sqe, k)
        }
      }
      else if sq_op sqe = 2 then do { (rc, k) \<leftarrow> release rg (sq_a sqe) k; Some (rc, sqe, k) }
      else if sq_op sqe = 3 then do { (rc, k) \<leftarrow> ack rg (sq_a sqe) (sq_b sqe) k; Some (rc, sqe, k) }
      else if sq_op sqe = 4 then allocate_msi_on_ring rg sqe k
      else if sq_op sqe = 5 then do {
        (rc, gid) \<leftarrow> cap_verify_ring k rg (sq_a sqe) (sq_b sqe) KCAP_GRANT_IRQ_ROUTE;
        if rc \<noteq> 0 then Some (rc, sqe, k)
        else do {
          g \<leftarrow> gnt k gid;
          let (rc, sqe) = msi_address (cap_irq_route k g) sqe k;
          Some (rc, sqe, k)
        }
      }
      else Some (SYSERR_NOSYS, sqe, k))"

primrec irq_replay_loop :: "nat list \<Rightarrow> u64 \<Rightarrow> kernel \<Rightarrow> kernel option" where
  "irq_replay_loop [] rg k = Some k"
| "irq_replay_loop (i # is) rg k = do {
     k \<leftarrow> (if ir_ring (g_routes k ! i) = Some rg then post_pending i k else Some k);
     irq_replay_loop is rg k
   }"

definition irq_replay :: "u64 \<Rightarrow> kernel \<Rightarrow> kernel option" where
  "irq_replay rg k = do { r \<leftarrow> ring_of k rg; irq_replay_loop (r_irq_claims r) rg k }"

text \<open>Teardown works on the ring's own claim list; the ring itself is freed by the caller.\<close>

definition irq_endpoint_destroy :: "ring \<Rightarrow> kernel \<Rightarrow> kernel" where
  "irq_endpoint_destroy r k = fold route_detach (r_irq_claims r) k"

end
