(* ===== verification/Iommu.thy ===== *)
theory Iommu
  imports Irq
begin

text \<open>
  DMA protection domains, \<^verbatim>\<open>kernel/src/iommu.c\<close>, over the remapping unit of \<open>Vtd\<close>: a channel creates
  domains, attaches PCI requesters it holds a capability for and maps memory blocks it can see.  A mapping
  is recorded twice, in its domain's list and in the block's index by domain id, and retains the block.
  Domains are named by their id, devices by their encoded requester.
\<close>

definition IOMMU_MAX_DOMAINS :: u32 where "IOMMU_MAX_DOMAINS = 64"
definition IOMMU_MAX_DEVICES :: u32 where "IOMMU_MAX_DEVICES = 256"
definition IOMMU_MAX_MAPPINGS :: u32 where "IOMMU_MAX_MAPPINGS = 1024"
definition IOMMU_MAX_MAPPING_LEAVES :: u64 where "IOMMU_MAX_MAPPING_LEAVES = 512"
definition KEV_IOMMU_FAULT :: u64 where "KEV_IOMMU_FAULT = KEV 6"

section \<open>Lookup\<close>

definition find_domain :: "kernel \<Rightarrow> u64 \<Rightarrow> u64 \<Rightarrow> iommu_domain option" where
  "find_domain k rg cookie = find (\<lambda>d. id_ring d = rg \<and> id_cookie d = cookie) (g_domains k)"

definition domain_of :: "kernel \<Rightarrow> u64 \<Rightarrow> iommu_domain option" where
  "domain_of k did = find (\<lambda>d. id_id d = did) (g_domains k)"

definition upd_domain :: "u64 \<Rightarrow> (iommu_domain \<Rightarrow> iommu_domain) \<Rightarrow> kernel \<Rightarrow> kernel" where
  "upd_domain did f k = k\<lparr>g_domains := map (\<lambda>d. if id_id d = did then f d else d) (g_domains k)\<rparr>"

definition find_device :: "kernel \<Rightarrow> u64 \<Rightarrow> (iommu_domain \<times> iommu_device) option" where
  "find_device k encoded =
     find (\<lambda>(d, v). iv_encoded v = encoded) (concat (map (\<lambda>d. map (Pair d) (id_devices d)) (g_domains k)))"

definition upd_device :: "u64 \<Rightarrow> (iommu_device \<Rightarrow> iommu_device) \<Rightarrow> kernel \<Rightarrow> kernel" where
  "upd_device encoded f k = k\<lparr>g_domains := map (\<lambda>d. d\<lparr>id_devices :=
     map (\<lambda>v. if iv_encoded v = encoded then f v else v) (id_devices d)\<rparr>) (g_domains k)\<rparr>"

definition decode_id :: "kernel \<Rightarrow> u64 \<Rightarrow> iommu_device_id option" where
  "decode_id k encoded =
     (if drop_bit 32 encoded \<noteq> 0 then None
      else
        let dv = \<lparr>dev_segment = ucast (drop_bit 16 encoded), dev_bus = ucast (drop_bit 8 encoded),
                  dev_devfn = ucast encoded\<rparr>
        in if vtd_covers (g_vtd k) dv then Some dv else None)"

section \<open>Domains and devices\<close>

definition domain_create :: "u64 \<Rightarrow> u64 \<Rightarrow> kernel \<Rightarrow> (u64 \<times> kernel) option" where
  "domain_create rg cookie k =
     (if \<not> g_live k \<or> cookie = 0 then Some (SYSERR_INVAL, k)
      else if find_domain k rg cookie \<noteq> None then Some (SYSERR_EXIST, k)
      else if g_ndomains k = IOMMU_MAX_DOMAINS then Some (SYSERR_NOMEM, k)
      else case slab_alloc k of
          (False, k) \<Rightarrow> Some (SYSERR_NOMEM, k)
        | (True, k) \<Rightarrow>
            (case vtd_domain_init (g_vtd k) of
               (None, v) \<Rightarrow> Some (SYSERR_NOMEM, k\<lparr>g_vtd := v\<rparr>)
             | (Some hw, v) \<Rightarrow> do {
                 let did = g_next_domain_id k;
                 let k = k\<lparr>g_vtd := v, g_next_domain_id := did + 1\<rparr>;
                 asserts (did \<noteq> 0);
                 let d = \<lparr>id_ring = rg, id_id = did, id_cookie = cookie, id_hw = hw, id_devices = [], id_mappings = []\<rparr>;
                 Some (0, k\<lparr>g_domains := d # g_domains k, g_ndomains := g_ndomains k + 1\<rparr>)
               }))"

definition domain_free :: "iommu_domain \<Rightarrow> kernel \<Rightarrow> kernel" where
  "domain_free d k = k\<lparr>g_domains := filter (\<lambda>x. id_id x \<noteq> id_id d) (g_domains k),
     g_vtd := vtd_domain_destroy (id_hw d) (g_vtd k), g_ndomains := g_ndomains k - 1\<rparr>"

definition domain_destroy :: "u64 \<Rightarrow> u64 \<Rightarrow> kernel \<Rightarrow> u64 \<times> kernel" where
  "domain_destroy rg cookie k = (case find_domain k rg cookie of
     None \<Rightarrow> (SYSERR_INVAL, k)
   | Some d \<Rightarrow>
       if id_devices d \<noteq> [] \<or> id_mappings d \<noteq> [] then (SYSERR_EXIST, k)
       else (0, domain_free d k))"

definition device_attach :: "u64 \<Rightarrow> u64 \<Rightarrow> u64 \<Rightarrow> kernel \<Rightarrow> (u64 \<times> kernel) option" where
  "device_attach did encoded fault_cookie k = do {
     d \<leftarrow> domain_of k did;
     (case decode_id k encoded of
        None \<Rightarrow> Some (SYSERR_INVAL, k)
      | Some dv \<Rightarrow>
          if find_device k encoded \<noteq> None then Some (SYSERR_EXIST, k)
          else if g_ndevices k = IOMMU_MAX_DEVICES then Some (SYSERR_NOMEM, k)
          else do {
            r \<leftarrow> ring_of k (id_ring d);
            let ring_devices = (of_nat (sum_list (map (\<lambda>s. length (id_devices s))
              (filter (\<lambda>s. id_ring s = id_ring d) (g_domains k)))) :: u32);
            if 2 * (ring_devices + 1) > r_nslots r then Some (SYSERR_NOMEM, k)
            else (case slab_alloc k of
                (False, k) \<Rightarrow> Some (SYSERR_NOMEM, k)
              | (True, k) \<Rightarrow> do {
                  (ok, v) \<leftarrow> vtd_attach (id_hw d) dv (g_vtd k);
                  let k = k\<lparr>g_vtd := v\<rparr>;
                  if \<not> ok then Some (SYSERR_INVAL, k)
                  else do {
                    let dev = \<lparr>iv_id = dv, iv_encoded = encoded, iv_fault_cookie = fault_cookie, iv_fault_count = 0,
                      iv_posted_count = 0, iv_last_iova = 0, iv_last_reason = 0, iv_ev_index = 0, iv_fault_posted = False\<rparr>;
                    let k = upd_domain did (\<lambda>d. d\<lparr>id_devices := dev # id_devices d\<rparr>) k;
                    Some (0, k\<lparr>g_fault_devices := (g_fault_devices k)(ucast encoded := Some encoded),
                               g_ndevices := g_ndevices k + 1\<rparr>)
                  }
                })
          })
   }"

definition device_detach :: "u64 \<Rightarrow> u64 \<Rightarrow> kernel \<Rightarrow> (u64 \<times> kernel) option" where
  "device_detach did encoded k = do {
     d \<leftarrow> domain_of k did;
     (case find (\<lambda>v. iv_encoded v = encoded) (id_devices d) of
        None \<Rightarrow> Some (SYSERR_INVAL, k)
      | Some v \<Rightarrow> do {
          let k = k\<lparr>g_fault_devices := (g_fault_devices k)(ucast encoded := None)\<rparr>;
          (ok, vtd) \<leftarrow> vtd_detach (iv_id v) (g_vtd k);
          asserts ok;
          let k = upd_domain did (\<lambda>d. d\<lparr>id_devices := filter (\<lambda>v. iv_encoded v \<noteq> encoded) (id_devices d)\<rparr>) k;
          Some (0, k\<lparr>g_vtd := vtd, g_ndevices := g_ndevices k - 1\<rparr>)
        })
   }"

section \<open>Faults\<close>

definition fault_retire_and_post :: "u64 \<Rightarrow> kernel \<Rightarrow> kernel option" where
  "fault_retire_and_post encoded k = (case find_device k encoded of
     None \<Rightarrow> Some k
   | Some (d, v) \<Rightarrow> do {
       consumed \<leftarrow> (if iv_fault_posted v then cqe_consumed k (id_ring d) (iv_ev_index v) else Some False);
       let k = (if consumed then upd_device encoded (\<lambda>v. v\<lparr>iv_fault_posted := False\<rparr>) k else k);
       let still_posted = (iv_fault_posted v \<and> \<not> consumed);
       if still_posted \<or> iv_posted_count v = iv_fault_count v then Some k
       else do {
         (posted, index, k) \<leftarrow> channel_post_data (id_ring d) KEV_IOMMU_FAULT (iv_fault_cookie v)
           (iv_last_iova v) (ucast (iv_last_reason v)) k;
         Some (if posted then upd_device encoded (\<lambda>v. v\<lparr>iv_fault_posted := True, iv_ev_index := index,
             iv_posted_count := iv_fault_count v\<rparr>) k else k)
       }
     })"

definition iommu_report_fault :: "u64 \<Rightarrow> u64 \<Rightarrow> u32 \<Rightarrow> kernel \<Rightarrow> kernel option" where
  "iommu_report_fault requester iova reason k =
     (if drop_bit 16 requester \<noteq> 0 then Some k
      else case g_fault_devices k (ucast requester) of
          None \<Rightarrow> Some k
        | Some encoded \<Rightarrow>
            fault_retire_and_post encoded (upd_device encoded (\<lambda>v. v\<lparr>iv_fault_count := iv_fault_count v + 1,
              iv_last_iova := iova, iv_last_reason := reason\<rparr>) k))"

primrec replay_devices :: "u64 list \<Rightarrow> kernel \<Rightarrow> kernel option" where
  "replay_devices [] k = Some k"
| "replay_devices (e # es) k = do { k \<leftarrow> fault_retire_and_post e k; replay_devices es k }"

definition iommu_replay :: "u64 \<Rightarrow> kernel \<Rightarrow> kernel option" where
  "iommu_replay rg k = replay_devices (concat (map (\<lambda>d. map iv_encoded (id_devices d))
     (filter (\<lambda>d. id_ring d = rg) (g_domains k)))) k"

section \<open>Mappings\<close>

definition block_pages_of :: "ublock \<Rightarrow> u64" where
  "block_pages_of b = push_bit (ub_order b) 1"

definition map_block :: "u64 \<Rightarrow> u64 \<Rightarrow> u64 \<Rightarrow> u32 \<Rightarrow> kernel \<Rightarrow> (u64 \<times> kernel) option" where
  "map_block pid did base permissions k = do {
     d \<leftarrow> domain_of k did;
     if permissions = 0 \<or> permissions AND NOT 3 \<noteq> 0 then Some (SYSERR_INVAL, k)
     else if base \<in> set (id_mappings d) then Some (SYSERR_EXIST, k)
     else if g_nmappings k = IOMMU_MAX_MAPPINGS then Some (SYSERR_NOMEM, k)
     else do {
       found \<leftarrow> umem_view k pid base 1;
       (case found of
          None \<Rightarrow> Some (SYSERR_INVAL, k)
        | Some found \<Rightarrow> do {
            b \<leftarrow> block k found;
            if found \<noteq> base \<or> ub_backing b \<noteq> UBLOCK_RAM \<or> ub_ring b \<noteq> None then Some (SYSERR_INVAL, k)
            else if vtd_mapping_leaves (g_vtd k) base (block_pages_of b) > IOMMU_MAX_MAPPING_LEAVES
            then Some (SYSERR_NOMEM, k)
            else (case slab_alloc k of
                (False, k) \<Rightarrow> Some (SYSERR_NOMEM, k)
              | (True, k) \<Rightarrow>
                  (case (if ub_dma_maps b = None then slab_alloc k else (True, k)) of
                     (False, k) \<Rightarrow> Some (SYSERR_NOMEM, k)
                   | (True, k) \<Rightarrow> do {
                       (ok, hw, v) \<leftarrow> vtd_map (id_hw d) base base (block_pages_of b) permissions (g_vtd k);
                       let k = upd_domain did (\<lambda>d. d\<lparr>id_hw := hw\<rparr>) (k\<lparr>g_vtd := v\<rparr>);
                       let maps = (case ub_dma_maps b of None \<Rightarrow> om_empty | Some m \<Rightarrow> m);
                       if \<not> ok then Some (SYSERR_NOMEM, k)
                       else if om_lookup maps did \<noteq> None then do {
                         (_, hw, v) \<leftarrow> vtd_unmap hw base (block_pages_of b) (g_vtd k);
                         Some (SYSERR_NOMEM, upd_domain did (\<lambda>d. d\<lparr>id_hw := hw\<rparr>) (k\<lparr>g_vtd := v\<rparr>))
                       }
                       else do {
                         let k = upd_block base (\<lambda>b. b\<lparr>ub_dma_maps := Some (om_insert did permissions maps)\<rparr>) k;
                         let k = upd_domain did (\<lambda>d. d\<lparr>id_mappings := base # id_mappings d\<rparr>) k;
                         Some (0, k\<lparr>g_nmappings := g_nmappings k + 1\<rparr>)
                       }
                     }))
          })
     }
   }"

definition unlink_mapping :: "u64 \<Rightarrow> u64 \<Rightarrow> kernel \<Rightarrow> kernel option" where
  "unlink_mapping did base k = do {
     let k = upd_domain did (\<lambda>d. d\<lparr>id_mappings := remove1 base (id_mappings d)\<rparr>) k;
     b \<leftarrow> block k base;
     maps \<leftarrow> ub_dma_maps b;
     asserts (om_lookup maps did \<noteq> None);
     let maps = om_remove did maps;
     Some (upd_block base (\<lambda>b. b\<lparr>ub_dma_maps := (if om_len maps = 0 then None else Some maps)\<rparr>) k)
   }"

definition unmap_mapping :: "u64 \<Rightarrow> u64 \<Rightarrow> kernel \<Rightarrow> kernel option" where
  "unmap_mapping did base k = do {
     d \<leftarrow> domain_of k did;
     b \<leftarrow> block k base;
     (ok, hw, v) \<leftarrow> vtd_unmap (id_hw d) base (block_pages_of b) (g_vtd k);
     asserts ok;
     k \<leftarrow> unlink_mapping did base (upd_domain did (\<lambda>d. d\<lparr>id_hw := hw\<rparr>) (k\<lparr>g_vtd := v\<rparr>));
     Some (k\<lparr>g_nmappings := g_nmappings k - 1\<rparr>)
   }"

definition unmap_block :: "u64 \<Rightarrow> u64 \<Rightarrow> kernel \<Rightarrow> (u64 \<times> kernel) option" where
  "unmap_block did base k = do {
     d \<leftarrow> domain_of k did;
     if base \<in> set (id_mappings d) then do { k \<leftarrow> unmap_mapping did base k; Some (0, k) }
     else Some (SYSERR_INVAL, k)
   }"

section \<open>Commands and teardown\<close>

definition iommu_attach_cmd :: "u64 \<Rightarrow> ksqe \<Rightarrow> kernel \<Rightarrow> (u64 \<times> kernel) option" where
  "iommu_attach_cmd rg sqe k = do {
     b \<leftarrow> block k rg;
     if sq_a sqe > ub_bytes b \<or> 32 > ub_bytes b - sq_a sqe then Some (SYSERR_INVAL, k)
     else do {
       domain \<leftarrow> load64 k (rg + sq_a sqe);
       token_off \<leftarrow> load64 k (rg + sq_a sqe + 8);
       token_len \<leftarrow> load64 k (rg + sq_a sqe + 16);
       fault_cookie \<leftarrow> load64 k (rg + sq_a sqe + 24);
       (case find_domain k rg domain of
          None \<Rightarrow> Some (SYSERR_INVAL, k)
        | Some d \<Rightarrow> do {
            (rc, gid) \<leftarrow> cap_verify_ring k rg token_off token_len KCAP_GRANT_IOMMU_DEV;
            if rc \<noteq> 0 then Some (rc, k)
            else do {
              g \<leftarrow> gnt k gid;
              device_attach (id_id d) (ucast (gm_requester (gr_body g))) fault_cookie k
            }
          })
     }
   }"

definition iommu_exec :: "u64 \<Rightarrow> u64 \<Rightarrow> ksqe \<Rightarrow> kernel \<Rightarrow> (u64 \<times> kernel) option" where
  "iommu_exec pid rg sqe k =
     (if sq_op sqe = 1 then
        (if sq_b sqe = 0 \<and> sq_c sqe = 0 then domain_create rg (sq_a sqe) k else Some (SYSERR_INVAL, k))
      else if sq_op sqe = 2 then Some (domain_destroy rg (sq_a sqe) k)
      else if sq_op sqe = 3 then iommu_attach_cmd rg sqe k
      else if sq_op sqe = 4 then
        (case find_domain k rg (sq_a sqe) of
           None \<Rightarrow> Some (SYSERR_INVAL, k) | Some d \<Rightarrow> device_detach (id_id d) (sq_b sqe) k)
      else if sq_op sqe = 5 then
        (case find_domain k rg (sq_a sqe) of
           None \<Rightarrow> Some (SYSERR_INVAL, k) | Some d \<Rightarrow> map_block pid (id_id d) (sq_b sqe) (ucast (sq_c sqe)) k)
      else if sq_op sqe = 6 then
        (case find_domain k rg (sq_a sqe) of
           None \<Rightarrow> Some (SYSERR_INVAL, k) | Some d \<Rightarrow> unmap_block (id_id d) (sq_b sqe) k)
      else Some (SYSERR_NOSYS, k))"

definition iommu_endpoint_destroyable :: "u64 \<Rightarrow> bool" where
  "iommu_endpoint_destroyable rg = True"

primrec detach_all :: "u64 list \<Rightarrow> u64 \<Rightarrow> kernel \<Rightarrow> kernel option" where
  "detach_all [] did k = Some k"
| "detach_all (e # es) did k = do { (_, k) \<leftarrow> device_detach did e k; detach_all es did k }"

primrec unmap_all :: "u64 list \<Rightarrow> u64 \<Rightarrow> kernel \<Rightarrow> kernel option" where
  "unmap_all [] did k = Some k"
| "unmap_all (b # bs) did k = do { k \<leftarrow> unmap_mapping did b k; unmap_all bs did k }"

primrec destroy_domains :: "u64 list \<Rightarrow> kernel \<Rightarrow> kernel option" where
  "destroy_domains [] k = Some k"
| "destroy_domains (did # dids) k = do {
     d \<leftarrow> domain_of k did;
     k \<leftarrow> detach_all (map iv_encoded (id_devices d)) did k;
     k \<leftarrow> unmap_all (id_mappings d) did k;
     d \<leftarrow> domain_of k did;
     destroy_domains dids (domain_free d k)
   }"

definition iommu_endpoint_destroy :: "u64 \<Rightarrow> kernel \<Rightarrow> kernel option" where
  "iommu_endpoint_destroy rg k = destroy_domains (map id_id (filter (\<lambda>d. id_ring d = rg) (g_domains k))) k"

definition iommu_enum_maps :: "u64 \<Rightarrow> u64 \<Rightarrow> u64 \<Rightarrow> u64 \<Rightarrow> u64 \<Rightarrow> kernel \<Rightarrow> (u64 \<times> kernel) option" where
  "iommu_enum_maps caller base buf cap after k =
     (if cap = 0 \<or> cap > VM_ENUM_BATCH then Some (SYSERR_INVAL, k)
      else do {
        found \<leftarrow> umem_resource_block k caller base;
        (case found of
           None \<Rightarrow> Some (SYSERR_PERM, k)
         | Some _ \<Rightarrow> do {
             b \<leftarrow> block k base;
             let values = (case ub_dma_maps b of None \<Rightarrow> [] | Some m \<Rightarrow> enum_keys m cap after);
             umem_enum_copyout caller buf cap values k
           })
      })"

definition iommu_revoke_map :: "u64 \<Rightarrow> u64 \<Rightarrow> u64 \<Rightarrow> kernel \<Rightarrow> (u64 \<times> kernel) option" where
  "iommu_revoke_map caller base domain_id k = do {
     found \<leftarrow> umem_resource_block k caller base;
     (case found of
        None \<Rightarrow> Some (SYSERR_PERM, k)
      | Some _ \<Rightarrow> do {
          b \<leftarrow> block k base;
          if (case ub_dma_maps b of None \<Rightarrow> None | Some m \<Rightarrow> om_lookup m domain_id) \<noteq> None
          then do { k \<leftarrow> unmap_mapping domain_id base k; Some (0, k) }
          else Some (SYSERR_INVAL, k)
        })
   }"

end
