(* ===== verification/Channel.thy ===== *)
theory Channel
  imports Iommu
begin

text \<open>
  The control plane of kernel channels, \<^verbatim>\<open>kernel/src/channel.c\<close>: scheme dispatch, draining a submission
  queue, turning a block into a channel and taking a channel down with its block.
\<close>

section \<open>Schemes\<close>

text \<open>The ids are negative 64-bit numbers; a system call passes them unsigned.\<close>

definition scheme_lookup :: "u64 \<Rightarrow> scheme option" where
  "scheme_lookup x =
     (if x = - 2 then Some KSCHEME_CAP
      else if x = - 1 then Some KSCHEME_SHARES
      else if x = - 3 then Some KSCHEME_TREE
      else if x = - 4 then Some KSCHEME_IRQ
      else if x = - 6 then Some KSCHEME_IOMMU
      else None)"

definition has_anchor :: "scheme \<Rightarrow> bool" where
  "has_anchor s \<longleftrightarrow> s = KSCHEME_SHARES \<or> s = KSCHEME_TREE \<or> s = KSCHEME_IOMMU"

definition anchor :: "scheme \<Rightarrow> process \<Rightarrow> u64 option" where
  "anchor s p = (case s of
     KSCHEME_SHARES \<Rightarrow> p_share_ch p | KSCHEME_TREE \<Rightarrow> p_tree_ch p | KSCHEME_IOMMU \<Rightarrow> p_iommu_ch p | _ \<Rightarrow> None)"

definition set_anchor :: "scheme \<Rightarrow> u64 option \<Rightarrow> process \<Rightarrow> process" where
  "set_anchor s r p = (case s of
     KSCHEME_SHARES \<Rightarrow> p\<lparr>p_share_ch := r\<rparr> | KSCHEME_TREE \<Rightarrow> p\<lparr>p_tree_ch := r\<rparr>
   | KSCHEME_IOMMU \<Rightarrow> p\<lparr>p_iommu_ch := r\<rparr> | _ \<Rightarrow> p)"

definition scheme_exec :: "u64 \<Rightarrow> u64 \<Rightarrow> ksqe \<Rightarrow> kernel \<Rightarrow> (u64 \<times> ksqe \<times> kernel) option" where
  "scheme_exec pid rg sqe k = do {
     r \<leftarrow> ring_of k rg;
     (case r_ops r of
        KSCHEME_CAP \<Rightarrow> cap_exec rg sqe k
      | KSCHEME_SHARES \<Rightarrow> Some (SYSERR_NOSYS, sqe, k)
      | KSCHEME_TREE \<Rightarrow> Some (SYSERR_NOSYS, sqe, k)
      | KSCHEME_IRQ \<Rightarrow> irq_exec rg sqe k
      | KSCHEME_IOMMU \<Rightarrow> do { (rc, k) \<leftarrow> iommu_exec pid rg sqe k; Some (rc, sqe, k) })
   }"

definition ring_replay :: "u64 \<Rightarrow> kernel \<Rightarrow> kernel option" where
  "ring_replay rg k = do {
     r \<leftarrow> ring_of k rg;
     (case r_ops r of
        KSCHEME_CAP \<Rightarrow> Some k
      | KSCHEME_SHARES \<Rightarrow> shares_replay rg k
      | KSCHEME_TREE \<Rightarrow> tree_replay rg k
      | KSCHEME_IRQ \<Rightarrow> irq_replay rg k
      | KSCHEME_IOMMU \<Rightarrow> iommu_replay rg k)
   }"

section \<open>Draining\<close>

definition RING_SQ_BATCH :: u32 where "RING_SQ_BATCH = 1024"
definition RING_SQ_CHUNK :: u32 where "RING_SQ_CHUNK = 64"

text \<open>The loop of \<open>ring_run_chunk\<close>; the first argument is what is left of the budget.\<close>

primrec run_chunk_loop :: "nat \<Rightarrow> u64 \<Rightarrow> u64 \<Rightarrow> u32 \<Rightarrow> kernel \<Rightarrow> (u32 \<times> kernel) option" where
  "run_chunk_loop 0 pid rg tail k = Some (0, k)"
| "run_chunk_loop (Suc n) pid rg tail k = do {
     r \<leftarrow> ring_of k rg;
     if r_sq_head r = tail then Some (0, k)
     else do {
       sqe \<leftarrow> load_ksqe k (sq_of rg + ucast (r_sq_head r mod r_nslots r) * 32);
       let k = upd_ring rg (\<lambda>r. r\<lparr>r_sq_head := r_sq_head r + 1\<rparr>) k;
       k \<leftarrow> store32 (rg + KRING_SQ_HEAD_OFF) (r_sq_head r + 1) k;
       (status, sqe, k) \<leftarrow> scheme_exec pid rg sqe k;
       (_, k) \<leftarrow> channel_post rg (sq_op sqe) (sq_a sqe) (sq_b sqe) status k;
       (done, k) \<leftarrow> run_chunk_loop n pid rg tail k;
       Some (done + 1, k)
     }
   }"

definition ring_run_chunk :: "u64 \<Rightarrow> u64 \<Rightarrow> u32 \<Rightarrow> kernel \<Rightarrow> (u32 \<times> kernel) option" where
  "ring_run_chunk pid rg budget k = do {
     r \<leftarrow> ring_of k rg;
     tail \<leftarrow> load32 k (rg + KRING_SQ_TAIL_OFF);
     if tail - r_sq_head r > r_nslots r then Some (0, k)
     else run_chunk_loop (unat budget) pid rg tail k
   }"

partial_function (option) drain_loop :: "u64 \<Rightarrow> u64 \<Rightarrow> u32 \<Rightarrow> bool \<Rightarrow> kernel \<Rightarrow> (u64 \<times> kernel) option" where
  "drain_loop pid address budget first k = do {
     found \<leftarrow> umem_view k pid address 1;
     (case found of
        None \<Rightarrow> Some (if first then SYSERR_INVAL else 0, k)
      | Some rg \<Rightarrow> do {
          b \<leftarrow> block k rg;
          if ub_ring b = None \<or> ub_owner b \<noteq> pid then Some (if first then SYSERR_INVAL else 0, k)
          else do {
            let chunk = (if budget < RING_SQ_CHUNK then budget else RING_SQ_CHUNK);
            r \<leftarrow> ring_run_chunk pid rg chunk k;
            k \<leftarrow> ring_replay rg (snd r);
            if fst r < chunk \<or> budget - fst r = 0 then Some (0, k)
            else drain_loop pid address (budget - fst r) False k
          }
        })
   }"

definition channel_ring_drain :: "u64 \<Rightarrow> u64 \<Rightarrow> kernel \<Rightarrow> (u64 \<times> kernel) option" where
  "channel_ring_drain pid address k = drain_loop pid address RING_SQ_BATCH True k"

section \<open>Establishment and teardown\<close>

definition new_ring :: "scheme \<Rightarrow> nat \<Rightarrow> ring" where
  "new_ring s order = \<lparr>r_ops = s, r_nslots = KRING_NSLOTS order, r_sq_head = 0, r_cq_count = 0,
     r_irq_claims = [], r_nclaims = 0\<rparr>"

definition channel_scheme_create :: "u64 \<Rightarrow> u64 \<Rightarrow> u64 \<Rightarrow> kernel \<Rightarrow> (u64 \<times> kernel) option" where
  "channel_scheme_create pid base scheme k = do {
     p \<leftarrow> proc k pid;
     owned \<leftarrow> umem_owned k pid base;
     (case owned of
        None \<Rightarrow> Some (SYSERR_INVAL, k)
      | Some b \<Rightarrow>
          if ub_backing b \<noteq> UBLOCK_RAM \<or> ub_ring b \<noteq> None \<or> ub_thread_pins b \<noteq> 0 \<or> om_len (ub_sharers b) \<noteq> 0
          then Some (SYSERR_INVAL, k)
          else (case scheme_lookup scheme of
              None \<Rightarrow> Some (SYSERR_INVAL, k)
            | Some s \<Rightarrow>
                if has_anchor s \<and> anchor s p \<noteq> None then Some (SYSERR_EXIST, k)
                else do {
                  k \<leftarrow> must_alloc k;
                  k \<leftarrow> kmemset base 0 64 k;
                  k \<leftarrow> store32 (base + KRING_NSLOTS_OFF) (KRING_NSLOTS (ub_order b)) k;
                  let k = upd_block base (\<lambda>b. b\<lparr>ub_ring := Some (new_ring s (ub_order b))\<rparr>) k;
                  let k = upd_proc pid (set_anchor s (Some base)) k;
                  k \<leftarrow> ring_replay base k;
                  Some (0, k)
                }))
   }"

text \<open>The block has already left its indices; \<open>b\<close> is its last value.\<close>

definition channel_ring_destroy :: "ublock \<Rightarrow> kernel \<Rightarrow> kernel option" where
  "channel_ring_destroy b k = (case ub_ring b of
     None \<Rightarrow> Some k
   | Some r \<Rightarrow> do {
       p \<leftarrow> proc k (ub_owner b);
       asserts (has_anchor (r_ops r) \<longrightarrow> anchor (r_ops r) p = Some (ub_base b));
       let k = upd_proc (ub_owner b) (set_anchor (r_ops r) None) k;
       (case r_ops r of
          KSCHEME_IRQ \<Rightarrow> Some (irq_endpoint_destroy r k)
        | KSCHEME_IOMMU \<Rightarrow> iommu_endpoint_destroy (ub_base b) k
        | _ \<Rightarrow> Some k)
     })"

definition channel_block_destroyable :: "ublock \<Rightarrow> bool" where
  "channel_block_destroyable b = (case ub_ring b of
     None \<Rightarrow> True
   | Some r \<Rightarrow> r_ops r \<noteq> KSCHEME_IOMMU \<or> iommu_endpoint_destroyable (ub_base b))"

definition channel_thread_complete :: "u64 \<Rightarrow> u64 \<Rightarrow> u64 \<Rightarrow> bool \<Rightarrow> kernel \<Rightarrow> kernel option" where
  "channel_thread_complete pid base event publish k = do {
     b \<leftarrow> block k base;
     asserts (ub_owner b = pid);
     asserts (ub_thread_pins b \<noteq> 0);
     k \<leftarrow> (if publish then futex_publish_wake event 1 k else Some k);
     Some (upd_block base (\<lambda>b. b\<lparr>ub_thread_pins := ub_thread_pins b - 1\<rparr>) k)
   }"

end
