(* ===== verification/Platform_Mem.thy ===== *)
theory Platform_Mem
  imports Kernel_State
begin

text \<open>
  Which physical ranges may be handed out as device memory, \<^verbatim>\<open>kernel/src/platform_mem.c\<close>: the firmware
  memory map, the ranges the kernel keeps for itself and the PCI configuration windows.
\<close>

definition PLATFORM_MAX_PROTECTED :: nat where "PLATFORM_MAX_PROTECTED = 32"
definition PLATFORM_MAX_ECAM :: nat where "PLATFORM_MAX_ECAM = 8"

definition EFI_CONVENTIONAL :: u32 where "EFI_CONVENTIONAL = 7"
definition EFI_ACPI_RECLAIM_MEMORY :: u32 where "EFI_ACPI_RECLAIM_MEMORY = 9"
definition EFI_ACPI_MEMORY_NVS :: u32 where "EFI_ACPI_MEMORY_NVS = 10"
definition EFI_MEMORY_MAPPED_IO :: u32 where "EFI_MEMORY_MAPPED_IO = 11"

definition VM_DEVICE_READ :: u32 where "VM_DEVICE_READ = 1"
definition VM_DEVICE_WRITE :: u32 where "VM_DEVICE_WRITE = 2"
definition VM_DEVICE_WC :: u32 where "VM_DEVICE_WC = 4"
definition VM_DEVICE_FIRMWARE :: u32 where "VM_DEVICE_FIRMWARE = 8"

lemmas vm_device_defs = VM_DEVICE_READ_def VM_DEVICE_WRITE_def VM_DEVICE_WC_def VM_DEVICE_FIRMWARE_def

definition range_end :: "u64 \<Rightarrow> u64 \<Rightarrow> u64 option" where
  "range_end base n =
     (if n \<noteq> 0 \<and> base mod 4096 = 0 \<and> n mod 4096 = 0 then add_overflow base n else None)"

definition overlaps :: "u64 \<Rightarrow> u64 \<Rightarrow> range \<Rightarrow> bool" where
  "overlaps base hi r \<longleftrightarrow> base < rg_end r \<and> rg_base r < hi"

definition contained :: "u64 \<Rightarrow> u64 \<Rightarrow> range \<Rightarrow> bool" where
  "contained base hi r \<longleftrightarrow> base \<ge> rg_base r \<and> hi \<le> rg_end r"

definition mmap_end :: "mmap_entry \<Rightarrow> u64 option" where
  "mmap_end m = do { bytes \<leftarrow> mul_overflow (mm_pages m) 4096; add_overflow (mm_start m) bytes }"

definition efi_type_contains :: "mmap_entry list \<Rightarrow> u32 \<Rightarrow> u64 \<Rightarrow> u64 \<Rightarrow> bool" where
  "efi_type_contains mmap type base hi = list_ex (\<lambda>m. case mmap_end m of
     None \<Rightarrow> False
   | Some mend \<Rightarrow> mm_type m = type \<and> base \<ge> mm_start m \<and> hi \<le> mend) mmap"

definition overlaps_usable :: "mmap_entry list \<Rightarrow> u64 \<Rightarrow> u64 \<Rightarrow> bool" where
  "overlaps_usable mmap base hi = list_ex (\<lambda>m. mm_type m = EFI_CONVENTIONAL \<and> (case mmap_end m of
     None \<Rightarrow> True
   | Some mend \<Rightarrow> overlaps base hi \<lparr>rg_base = mm_start m, rg_end = mend\<rparr>)) mmap"

text \<open>One entry of the firmware's configuration-space table: base, first and last bus.\<close>

record mcfg_allocation =
  mc_base :: u64
  mc_start_bus :: u8
  mc_end_bus :: u8

definition add_ecam :: "mcfg_allocation \<Rightarrow> range list \<Rightarrow> range list" where
  "add_ecam a ecam =
     (if length ecam \<ge> PLATFORM_MAX_ECAM \<or> mc_start_bus a > mc_end_bus a \<or> mc_base a mod 4096 \<noteq> 0 then ecam
      else
        let n = push_bit 20 (ucast (mc_end_bus a) - ucast (mc_start_bus a) + 1)
        in case range_end (mc_base a) n of
             None \<Rightarrow> ecam
           | Some hi \<Rightarrow> ecam @ [\<lparr>rg_base = mc_base a, rg_end = hi\<rparr>])"

definition platform_mem_init :: "mmap_entry list \<Rightarrow> mcfg_allocation list \<Rightarrow> kernel \<Rightarrow> kernel option" where
  "platform_mem_init mmap mcfg k = do {
     k \<leftarrow> must_alloc k;
     Some (k\<lparr>g_mmap := mmap, g_ecam := fold add_ecam mcfg []\<rparr>)
   }"

definition platform_mem_protect :: "u64 \<Rightarrow> u64 \<Rightarrow> kernel \<Rightarrow> bool \<times> kernel" where
  "platform_mem_protect base n k =
     (if length (g_protected k) = PLATFORM_MAX_PROTECTED then (False, k)
      else case range_end base n of
          None \<Rightarrow> (False, k)
        | Some hi \<Rightarrow> (True, k\<lparr>g_protected := g_protected k @ [\<lparr>rg_base = base, rg_end = hi\<rparr>]\<rparr>))"

definition q35 :: range where "q35 = \<lparr>rg_base = 0xC0000000, rg_end = 0xFEC00000\<rparr>"
definition q35_high :: range where "q35_high = \<lparr>rg_base = 0x800000000, rg_end = 0x1000000000\<rparr>"

text \<open>The result is the kernel's flags for the range and whether the block may be passed on.\<close>

definition platform_mem_validate_device ::
    "mmap_entry list \<Rightarrow> range list \<Rightarrow> range list \<Rightarrow> u64 \<Rightarrow> u64 \<Rightarrow> u32 \<Rightarrow> (paging_flags \<times> bool) option" where
  "platform_mem_validate_device mmap protected ecam base n flags =
     (case range_end base n of
        None \<Rightarrow> None
      | Some hi \<Rightarrow>
          if flags AND NOT (VM_DEVICE_READ OR VM_DEVICE_WRITE OR VM_DEVICE_WC OR VM_DEVICE_FIRMWARE) \<noteq> 0
            \<or> flags AND VM_DEVICE_READ = 0 \<or> flags AND VM_DEVICE_WC \<noteq> 0 then None
          else if list_ex (overlaps base hi) protected then None
          else if flags AND VM_DEVICE_FIRMWARE \<noteq> 0 then
            (if flags AND VM_DEVICE_WRITE \<noteq> 0 then None
             else if efi_type_contains mmap EFI_ACPI_RECLAIM_MEMORY base hi
               \<or> efi_type_contains mmap EFI_ACPI_MEMORY_NVS base hi
             then Some (PAGE_KERNEL_PRISTINE, False) else None)
          else if overlaps_usable mmap base hi then None
          else (case find (overlaps base hi) ecam of
              Some r \<Rightarrow>
                if contained base hi r then Some (PAGE_R OR PAGE_W OR PAGE_X OR PAGE_UC, False) else None
            | None \<Rightarrow>
                if \<not> contained base hi q35 \<and> \<not> contained base hi q35_high
                  \<and> \<not> efi_type_contains mmap EFI_MEMORY_MAPPED_IO base hi
                then None else Some (PAGE_R OR PAGE_W OR PAGE_X OR PAGE_UC, True)))"

end
