(* ===== verification/Umem.thy ===== *)
theory Umem
  imports Channel Platform_Mem
begin

text \<open>
  User memory, \<^verbatim>\<open>kernel/src/umem.c\<close>: blocks granted to processes, the share edges between them, the
  views that make a block accessible, and the order in which the indices, the page tables and the page
  allocator are updated.  The operations follow the source; every panic (\<open>asserts\<close>), every refusal and
  every allocation failure is a branch.
\<close>

section \<open>Lifecycle\<close>

definition umem_init :: "kernel \<Rightarrow> kernel option" where
  "umem_init k = do {
     k \<leftarrow> must_alloc k;
     k \<leftarrow> must_alloc k;
     Some (k\<lparr>g_procs := om_empty, g_ublocks := om_empty\<rparr>)
   }"

definition umem_process_register :: "process \<Rightarrow> kernel \<Rightarrow> kernel option" where
  "umem_process_register p k = do {
     k \<leftarrow> must_alloc k;
     k \<leftarrow> must_alloc k;
     k \<leftarrow> must_alloc k;
     asserts (proc k (p_pid p) = None);
     Some (k\<lparr>g_procs := om_insert (p_pid p) (p\<lparr>p_blocks := om_empty, p_views := om_empty\<rparr>) (g_procs k)\<rparr>)
   }"

section \<open>Allocation\<close>

function find_order :: "nat \<Rightarrow> u64 \<Rightarrow> nat" where
  "find_order order npages = (if order < 64 \<and> push_bit order 1 < npages then find_order (order + 1) npages else order)"
  by pat_completeness auto

termination
  by (relation "measure (\<lambda>(order, _). 64 - order)") auto

declare find_order.simps [simp del]

definition new_ublock :: "u64 \<Rightarrow> nat \<Rightarrow> u64 \<Rightarrow> ublock_backing \<Rightarrow> paging_flags \<Rightarrow> paging_flags \<Rightarrow> bool \<Rightarrow> u64 \<Rightarrow> ublock" where
  "new_ublock base order bytes backing dflags kflags delegatable owner =
     \<lparr>ub_base = base, ub_order = order, ub_bytes = bytes, ub_backing = backing, ub_device_flags = dflags,
      ub_kernel_flags = kflags, ub_delegatable = delegatable, ub_owner = owner, ub_sharers = om_empty,
      ub_ring = None, ub_dma_maps = None, ub_thread_pins = 0\<rparr>"

text \<open>Entering a block into its owner's index and the global one.\<close>

definition index_block :: "ublock \<Rightarrow> kernel \<Rightarrow> kernel option" where
  "index_block b k = do {
     k \<leftarrow> must_alloc k;
     asserts (block k (ub_base b) = None);
     let k = upd_proc (ub_owner b) (\<lambda>p. p\<lparr>p_blocks := om_insert (ub_base b) () (p_blocks p)\<rparr>) k;
     Some (k\<lparr>g_ublocks := om_insert (ub_base b) b (g_ublocks k)\<rparr>)
   }"

definition buddy_give_back :: "nat \<Rightarrow> kernel \<Rightarrow> kernel option" where
  "buddy_give_back page k = do {
     s \<leftarrow> buddy_page_free (g_allocator k) page;
     Some (case s of Inl _ \<Rightarrow> k | Inr ba \<Rightarrow> k\<lparr>g_allocator := ba\<rparr>)
   }"

definition umem_alloc :: "u64 \<Rightarrow> u64 \<Rightarrow> paging_flags \<Rightarrow> kernel \<Rightarrow> (u64 \<times> kernel) option" where
  "umem_alloc pid nb prot k =
     (if nb = 0 then Some (0, k)
      else do {
        let npages = (nb + 4096 - 1) div 4096;
        let order = find_order 0 npages;
        let bytes = push_bit order 4096;
        s \<leftarrow> buddy_page_alloc (g_allocator k) (2 ^ order);
        (case s of
           Inl _ \<Rightarrow> Some (0, k)
         | Inr (page_id, ba) \<Rightarrow> do {
             let k = k\<lparr>g_allocator := ba\<rparr>;
             let base = of_nat page_id * 4096;
             k \<leftarrow> kmemset base 0 (unat bytes) k;
             let b = new_ublock base order bytes UBLOCK_RAM 0 PAGE_KERNEL_PRISTINE True pid;
             (case slab_alloc k of
                (False, k) \<Rightarrow> do { k \<leftarrow> buddy_give_back page_id k; Some (0, k) }
              | (True, k) \<Rightarrow>
                  (case slab_alloc k of
                     (False, k) \<Rightarrow> do { k \<leftarrow> buddy_give_back page_id k; Some (0, k) }
                   | (True, k) \<Rightarrow> do {
                       k \<leftarrow> proc_flag pid base (base + bytes) (prot OR PAGE_U) k;
                       p \<leftarrow> proc k pid;
                       asserts (om_lookup (p_blocks p) base = None);
                       k \<leftarrow> index_block b k;
                       Some (base, k)
                     }))
           })
      })"

definition umem_size :: "u64 \<Rightarrow> u64 \<Rightarrow> kernel \<Rightarrow> u64 option" where
  "umem_size pid base k = do {
     b \<leftarrow> umem_owned k pid base;
     Some (case b of None \<Rightarrow> 0 | Some b \<Rightarrow> ub_bytes b)
   }"

section \<open>Device blocks\<close>

definition device_conflict :: "kernel \<Rightarrow> u64 \<Rightarrow> u64 \<Rightarrow> bool" where
  "device_conflict k base hi = list_ex (\<lambda>(_, other). ub_backing other = UBLOCK_DEVICE
     \<and> base < ub_base other + ub_bytes other \<and> ub_base other < hi) (om_entries (g_ublocks k))"

primrec flag_all :: "u64 list \<Rightarrow> u64 \<Rightarrow> u64 \<Rightarrow> paging_flags \<Rightarrow> kernel \<Rightarrow> kernel option" where
  "flag_all [] s e flags k = Some k"
| "flag_all (pid # pids) s e flags k = do {
     p \<leftarrow> proc k pid;
     k \<leftarrow> (if p_as p \<noteq> None then proc_flag pid s e flags k else Some k);
     flag_all pids s e flags k
   }"

definition umem_map_device :: "u64 \<Rightarrow> u64 \<Rightarrow> u64 \<Rightarrow> u32 \<Rightarrow> kernel \<Rightarrow> (u64 \<times> kernel) option" where
  "umem_map_device pid base nb flags k =
     (case platform_mem_validate_device (g_mmap k) (g_protected k) (g_ecam k) base nb flags of
        None \<Rightarrow> Some (SYSERR_INVAL, k)
      | Some (kernel_flags, delegatable) \<Rightarrow>
          let hi = base + nb;
              device_flags = PAGE_R;
              device_flags = (if flags AND VM_DEVICE_WRITE \<noteq> 0 then device_flags OR PAGE_W else device_flags);
              device_flags = (if flags AND VM_DEVICE_FIRMWARE = 0 then device_flags OR PAGE_UC else device_flags)
          in if device_conflict k base hi then Some (SYSERR_EXIST, k)
             else do {
               k \<leftarrow> kernel_flag base hi kernel_flags k;
               k \<leftarrow> flag_all (map fst (om_entries (g_procs k))) base hi kernel_flags k;
               let b = new_ublock base 0 nb UBLOCK_DEVICE device_flags kernel_flags delegatable pid;
               (case slab_alloc k of
                  (False, k) \<Rightarrow> Some (SYSERR_NOMEM, k)
                | (True, k) \<Rightarrow>
                    (case slab_alloc k of
                       (False, k) \<Rightarrow> Some (SYSERR_NOMEM, k)
                     | (True, k) \<Rightarrow> do {
                         k \<leftarrow> proc_flag pid base hi (device_flags OR PAGE_U) k;
                         p \<leftarrow> proc k pid;
                         if om_lookup (p_blocks p) base \<noteq> None then do {
                           k \<leftarrow> proc_flag pid base hi kernel_flags k;
                           Some (SYSERR_NOMEM, k)
                         }
                         else do {
                           k \<leftarrow> index_block b k;
                           Some (0, k)
                         }
                       }))
             })"

section \<open>Release\<close>

definition pin_view :: "u64 \<Rightarrow> kernel \<Rightarrow> kernel" where
  "pin_view pid = upd_proc pid (\<lambda>p. p\<lparr>p_as := map_option (\<lambda>v. v\<lparr>view_pins := view_pins v + 1\<rparr>) (p_as p)\<rparr>)"

definition unpin_view :: "u64 \<Rightarrow> kernel \<Rightarrow> kernel option" where
  "unpin_view pid k = do {
     p \<leftarrow> proc k pid;
     v \<leftarrow> p_as p;
     asserts (view_pins v \<noteq> 0);
     Some (upd_proc pid (\<lambda>p. p\<lparr>p_as := Some (v\<lparr>view_pins := view_pins v - 1\<rparr>)\<rparr>) k)
   }"

definition block_release_prepare :: "ublock \<Rightarrow> kernel \<Rightarrow> kernel option" where
  "block_release_prepare b k = do {
     asserts (om_len (ub_sharers b) = 0);
     k \<leftarrow> channel_ring_destroy b k;
     k \<leftarrow> must_alloc k;
     k \<leftarrow> proc_flag (ub_owner b) (ub_base b) (ub_base b + ub_bytes b) (ub_kernel_flags b) k;
     Some (pin_view (ub_owner b) k)
   }"

definition umem_release_finish :: "ublock \<Rightarrow> kernel \<Rightarrow> kernel option" where
  "umem_release_finish b k = do {
     k \<leftarrow> unpin_view (ub_owner b) k;
     if ub_backing b = UBLOCK_RAM then do {
       s \<leftarrow> buddy_page_free (g_allocator k) (unat (ub_base b div 4096));
       (case s of Inl _ \<Rightarrow> None | Inr ba \<Rightarrow> Some (k\<lparr>g_allocator := ba\<rparr>))
     }
     else Some k
   }"

text \<open>The first component is the result code: 0, \<open>SYSERR_EXIST\<close>, or \<open>- 1\<close> when the base is not owned.\<close>

definition free_locked :: "u64 \<Rightarrow> u64 \<Rightarrow> kernel \<Rightarrow> (u64 \<times> ublock option \<times> kernel) option" where
  "free_locked pid base k = do {
     owned \<leftarrow> umem_owned k pid base;
     (case owned of
        None \<Rightarrow> Some (- 1, None, k)
      | Some b \<Rightarrow>
          if ub_dma_maps b \<noteq> None \<or> ub_thread_pins b \<noteq> 0 \<or> om_len (ub_sharers b) \<noteq> 0
            \<or> \<not> channel_block_destroyable b
          then Some (SYSERR_EXIST, None, k)
          else do {
            let k = upd_proc pid (\<lambda>p. p\<lparr>p_blocks := om_remove base (p_blocks p)\<rparr>) k;
            let k = k\<lparr>g_ublocks := om_remove (ub_base b) (g_ublocks k)\<rparr>;
            k \<leftarrow> block_release_prepare b k;
            Some (0, Some b, k)
          })
   }"

definition umem_free :: "u64 \<Rightarrow> u64 \<Rightarrow> kernel \<Rightarrow> (u64 \<times> kernel) option" where
  "umem_free caller base k = (case block k base of
     None \<Rightarrow> Some (SYSERR_PERM, k)
   | Some b \<Rightarrow> do {
       ok \<leftarrow> resource_authorized k caller (ub_owner b);
       if \<not> ok then Some (SYSERR_PERM, k)
       else do {
         (rc, rel, k) \<leftarrow> free_locked (ub_owner b) base k;
         k \<leftarrow> (case rel of None \<Rightarrow> Some k | Some b \<Rightarrow> umem_release_finish b k);
         Some (if rc = 0 then 0 else if rc = SYSERR_EXIST then SYSERR_EXIST else SYSERR_PERM, k)
       }
     })"

section \<open>Views and sharing\<close>

definition device_denies :: "ublock \<Rightarrow> paging_flags \<Rightarrow> bool" where
  "device_denies b prot \<longleftrightarrow> ub_backing b = UBLOCK_DEVICE \<and>
     (prot AND NOT (ub_device_flags b) \<noteq> 0 \<or> prot AND PAGE_X \<noteq> 0)"

definition cache_bits :: "ublock \<Rightarrow> paging_flags" where
  "cache_bits b = (if ub_backing b = UBLOCK_DEVICE then ub_device_flags b AND PAGE_CACHE_MASK else 0)"

text \<open>True is the return value 0, False is \<open>-1\<close>.\<close>

definition umem_protect :: "u64 \<Rightarrow> u64 \<Rightarrow> u64 \<Rightarrow> paging_flags \<Rightarrow> kernel \<Rightarrow> (bool \<times> kernel) option" where
  "umem_protect pid base nb prot k =
     (if base mod 4096 \<noteq> 0 \<or> nb = 0 \<or> nb mod 4096 \<noteq> 0 then Some (False, k)
      else case add_overflow base nb of
          None \<Rightarrow> Some (False, k)
        | Some hi \<Rightarrow> do {
            found \<leftarrow> umem_view k pid base nb;
            (case found of
               None \<Rightarrow> Some (False, k)
             | Some at \<Rightarrow> do {
                 b \<leftarrow> block k at;
                 if ub_thread_pins b \<noteq> 0 \<or> ub_ring b \<noteq> None \<or> device_denies b prot then Some (False, k)
                 else do {
                   let view = (if prot = 0 then 0 else prot OR PAGE_U) OR cache_bits b;
                   k \<leftarrow> proc_flag pid base hi view k;
                   Some (True, k)
                 }
               })
          })"

definition add_edge :: "u64 \<Rightarrow> u64 \<Rightarrow> kernel \<Rightarrow> kernel" where
  "add_edge base pid = upd_block base (\<lambda>b. b\<lparr>ub_sharers := om_insert pid \<lparr>e_notified = False\<rparr> (ub_sharers b)\<rparr>)"

definition umem_share :: "u64 \<Rightarrow> u64 \<Rightarrow> u64 \<Rightarrow> paging_flags \<Rightarrow> kernel \<Rightarrow> (u64 \<times> kernel) option" where
  "umem_share pid base target_pid prot k =
     (case slab_alloc k of (edge_node, k) \<Rightarrow>
      case slab_alloc k of (view_node, k) \<Rightarrow>
      if \<not> edge_node \<or> \<not> view_node then Some (SYSERR_NOMEM, k)
      else do {
        owned \<leftarrow> umem_owned k pid base;
        target \<leftarrow> proc_lookup k target_pid;
        (case (owned, target) of
           (Some b, Some target) \<Rightarrow>
             if target = pid \<or> ub_ring b \<noteq> None \<or> ub_thread_pins b \<noteq> 0 \<or> \<not> ub_delegatable b \<or> device_denies b prot
             then Some (SYSERR_INVAL, k)
             else if om_lookup (ub_sharers b) target \<noteq> None then Some (SYSERR_EXIST, k)
             else do {
               let k = add_edge base target k;
               k \<leftarrow> pending_link base target k;
               t \<leftarrow> proc k target;
               asserts (om_lookup (p_views t) base = None);
               let k = upd_proc target (\<lambda>p. p\<lparr>p_views := om_insert base () (p_views p)\<rparr>) k;
               k \<leftarrow> proc_flag target base (base + ub_bytes b) (prot OR PAGE_U OR cache_bits b) k;
               k \<leftarrow> channel_edge_notify base target k;
               Some (0, k)
             }
         | _ \<Rightarrow> Some (SYSERR_INVAL, k))
      })"

text \<open>The common tail of both removals: the view, the pending link, the edge, the mapping.\<close>

definition remove_share :: "u64 \<Rightarrow> u64 \<Rightarrow> kernel \<Rightarrow> kernel option" where
  "remove_share base target k = do {
     t \<leftarrow> proc k target;
     asserts (om_lookup (p_views t) base \<noteq> None);
     let k = upd_proc target (\<lambda>p. p\<lparr>p_views := om_remove base (p_views p)\<rparr>) k;
     k \<leftarrow> umem_edge_pending_unlink base target k;
     b \<leftarrow> block k base;
     asserts (om_lookup (ub_sharers b) target \<noteq> None);
     let k = upd_block base (\<lambda>b. b\<lparr>ub_sharers := om_remove target (ub_sharers b)\<rparr>) k;
     proc_flag target base (base + ub_bytes b) (ub_kernel_flags b) k
   }"

definition umem_dropshare :: "u64 \<Rightarrow> u64 \<Rightarrow> u64 \<Rightarrow> kernel \<Rightarrow> (u64 \<times> kernel) option" where
  "umem_dropshare caller base pid k = do {
     let target = (if pid = 0 \<or> pid = caller then Some caller else proc_lookup_any k pid);
     (case target of
        None \<Rightarrow> Some (SYSERR_PERM, k)
      | Some target \<Rightarrow> do {
          ok \<leftarrow> (if target \<noteq> caller then process_reaper_authorized k caller target else Some True);
          if \<not> ok then Some (SYSERR_PERM, k)
          else do {
            t \<leftarrow> proc k target;
            if om_lookup (p_views t) base = None then Some (SYSERR_INVAL, k)
            else do { k \<leftarrow> remove_share base target k; Some (0, k) }
          }
        })
   }"

definition umem_unshare :: "u64 \<Rightarrow> u64 \<Rightarrow> u64 \<Rightarrow> kernel \<Rightarrow> (u64 \<times> kernel) option" where
  "umem_unshare caller base pid k = (case block k base of
     None \<Rightarrow> Some (SYSERR_PERM, k)
   | Some b \<Rightarrow> do {
       ok \<leftarrow> resource_authorized k caller (ub_owner b);
       if \<not> ok then Some (SYSERR_PERM, k)
       else if proc_lookup_any k pid = None \<or> om_lookup (ub_sharers b) pid = None then Some (SYSERR_INVAL, k)
       else do { k \<leftarrow> remove_share base pid k; Some (0, k) }
     })"

section \<open>Enumeration\<close>

definition umem_enum_blocks :: "u64 \<Rightarrow> u64 \<Rightarrow> u64 \<Rightarrow> u64 \<Rightarrow> u64 \<Rightarrow> kernel \<Rightarrow> (u64 \<times> kernel) option" where
  "umem_enum_blocks caller pid buf cap after k =
     (if cap = 0 \<or> cap > VM_ENUM_BATCH then Some (SYSERR_INVAL, k)
      else do {
        target \<leftarrow> enum_subject k caller pid;
        (case target of
           None \<Rightarrow> Some (SYSERR_PERM, k)
         | Some target \<Rightarrow> do {
             t \<leftarrow> proc k target;
             umem_enum_copyout caller buf cap (enum_keys (p_blocks t) cap after) k
           })
      })"

definition umem_enum_views :: "u64 \<Rightarrow> u64 \<Rightarrow> u64 \<Rightarrow> u64 \<Rightarrow> u64 \<Rightarrow> kernel \<Rightarrow> (u64 \<times> kernel) option" where
  "umem_enum_views caller pid buf cap after k =
     (if cap = 0 \<or> cap > VM_ENUM_BATCH then Some (SYSERR_INVAL, k)
      else do {
        target \<leftarrow> enum_subject k caller pid;
        (case target of
           None \<Rightarrow> Some (SYSERR_PERM, k)
         | Some target \<Rightarrow> do {
             t \<leftarrow> proc k target;
             umem_enum_copyout caller buf cap (enum_keys (p_views t) cap after) k
           })
      })"

definition umem_enum_sharers :: "u64 \<Rightarrow> u64 \<Rightarrow> u64 \<Rightarrow> u64 \<Rightarrow> u64 \<Rightarrow> kernel \<Rightarrow> (u64 \<times> kernel) option" where
  "umem_enum_sharers caller base buf cap after k =
     (if cap = 0 \<or> cap > VM_ENUM_BATCH then Some (SYSERR_INVAL, k)
      else case block k base of
          None \<Rightarrow> Some (SYSERR_PERM, k)
        | Some b \<Rightarrow> do {
            ok \<leftarrow> resource_authorized k caller (ub_owner b);
            if \<not> ok then Some (SYSERR_PERM, k)
            else umem_enum_copyout caller buf cap (enum_keys (ub_sharers b) cap after) k
          })"

section \<open>Ownership transfer and teardown\<close>

definition umem_move :: "u64 \<Rightarrow> u64 \<Rightarrow> u64 \<Rightarrow> bool \<Rightarrow> kernel \<Rightarrow> (u64 \<times> kernel) option" where
  "umem_move base src dst src_as_live k = do {
     b \<leftarrow> block k base;
     if ub_dma_maps b \<noteq> None \<or> ub_thread_pins b \<noteq> 0 then Some (SYSERR_EXIST, k)
     else if \<not> ub_delegatable b then Some (SYSERR_INVAL, k)
     else do {
       s \<leftarrow> proc k src;
       t \<leftarrow> proc k dst;
       asserts (om_lookup (p_blocks s) base \<noteq> None);
       let hi = base + ub_bytes b;
       let k = upd_proc src (\<lambda>p. p\<lparr>p_blocks := om_remove base (p_blocks p)\<rparr>) k;
       let had_view = (om_lookup (p_views t) base \<noteq> None);
       let k = upd_proc dst (\<lambda>p. p\<lparr>p_views := om_remove base (p_views p)\<rparr>) k;
       k \<leftarrow> (if had_view then do {
             k \<leftarrow> umem_edge_pending_unlink base dst k;
             asserts (om_lookup (ub_sharers b) dst \<noteq> None);
             Some (upd_block base (\<lambda>b. b\<lparr>ub_sharers := om_remove dst (ub_sharers b)\<rparr>) k)
           }
           else Some k);
       let k = upd_block base (\<lambda>b. b\<lparr>ub_owner := dst\<rparr>) k;
       k \<leftarrow> (if src_as_live then proc_flag src base hi (ub_kernel_flags b) k else Some k);
       k \<leftarrow> proc_flag dst base hi
         (if ub_backing b = UBLOCK_DEVICE then ub_device_flags b OR PAGE_U else PAGE_R OR PAGE_W OR PAGE_U) k;
       t \<leftarrow> proc k dst;
       asserts (om_lookup (p_blocks t) base = None);
       Some (0, upd_proc dst (\<lambda>p. p\<lparr>p_blocks := om_insert base () (p_blocks p)\<rparr>) k)
     }
   }"

definition umem_proc_unregister :: "u64 \<Rightarrow> kernel \<Rightarrow> (process \<times> kernel) option" where
  "umem_proc_unregister pid k = do {
     p \<leftarrow> proc k pid;
     Some (p, k\<lparr>g_procs := om_remove pid (g_procs k)\<rparr>)
   }"

definition umem_process_finish :: "process \<Rightarrow> unit option" where
  "umem_process_finish p = asserts (om_len (p_blocks p) = 0 \<and> om_len (p_views p) = 0)"

end
