(* ===== verification/Process.thy ===== *)
theory Process
  imports Umem
begin

text \<open>
  Processes and threads, \<^verbatim>\<open>kernel/src/process.c\<close>: creation, death and its notification, the kill and reap
  system calls, exact destruction, and the moving of memory down the tree.  A thread argument is the
  current thread's process and id; a call that never returns is the state it leaves behind.
\<close>

section \<open>Creation\<close>

definition process_set_init :: "u64 \<Rightarrow> kernel \<Rightarrow> kernel option" where
  "process_set_init pid k = do { asserts (g_init k = None); Some (k\<lparr>g_init := Some pid\<rparr>) }"

definition new_process :: "u64 \<Rightarrow> view \<Rightarrow> u64 option \<Rightarrow> process" where
  "new_process pid v parent =
     \<lparr>p_pid = pid, p_as = Some v, p_dead = False, p_parent = parent, p_children = om_empty,
      p_death_notified = False, p_exit_status = 0, p_nthreads = 0, p_threads = om_empty, p_blocks = om_empty,
      p_views = om_empty, p_unnotified = [], p_share_ch = None, p_tree_ch = None, p_iommu_ch = None\<rparr>"

definition process_create :: "u64 option \<Rightarrow> kernel \<Rightarrow> (u64 \<times> kernel) option" where
  "process_create parent k = do {
     k \<leftarrow> must_alloc k;
     let pid = g_next_pid k;
     let k = k\<lparr>g_next_pid := pid + 1\<rparr>;
     k \<leftarrow> must_alloc k;
     let v = (g_as_kernel k)\<lparr>view_pins := 0\<rparr>;
     k \<leftarrow> must_alloc k;
     k \<leftarrow> must_alloc k;
     k \<leftarrow> umem_process_register (new_process pid v parent) k;
     k \<leftarrow> (case parent of
         None \<Rightarrow> Some k
       | Some pp \<Rightarrow> do {
           k \<leftarrow> must_alloc k;
           q \<leftarrow> proc k pp;
           asserts (om_lookup (p_children q) pid = None);
           Some (upd_proc pp (\<lambda>p. p\<lparr>p_children := om_insert pid () (p_children p)\<rparr>) k)
         });
     Some (pid, k)
   }"

definition process_spawn_thread :: "u64 \<Rightarrow> u64 \<Rightarrow> u64 \<Rightarrow> u64 \<Rightarrow> u64 \<Rightarrow> u64 \<Rightarrow> u64 option \<Rightarrow> u64
    \<Rightarrow> kernel \<Rightarrow> (u64 \<times> kernel) option" where
  "process_spawn_thread pid entry sp arg fs gs completion_block completion_event k = do {
     dead \<leftarrow> process_is_dead k (Some pid);
     asserts (\<not> dead);
     (tid, k) \<leftarrow> uthread_spawn pid entry sp arg fs gs completion_block completion_event k;
     k \<leftarrow> must_alloc k;
     p \<leftarrow> proc k pid;
     asserts (om_lookup (p_threads p) tid = None);
     let k = upd_proc pid (\<lambda>p. p\<lparr>p_threads := om_insert tid () (p_threads p), p_nthreads := p_nthreads p + 1\<rparr>) k;
     k \<leftarrow> scheduler_enqueue tid k;
     Some (tid, k)
   }"

section \<open>Death\<close>

definition remove_thread_ref :: "u64 \<Rightarrow> u64 \<Rightarrow> kernel \<Rightarrow> kernel option" where
  "remove_thread_ref pid tid k = do {
     p \<leftarrow> proc k pid;
     asserts (om_lookup (p_threads p) tid \<noteq> None);
     Some (upd_proc pid (\<lambda>p. p\<lparr>p_threads := om_remove tid (p_threads p)\<rparr>) k)
   }"

definition notify_parent :: "u64 \<Rightarrow> kernel \<Rightarrow> kernel option" where
  "notify_parent child k = do {
     c \<leftarrow> proc k child;
     dead \<leftarrow> process_is_dead k (p_parent c);
     (case p_parent c of
        None \<Rightarrow> Some (upd_proc child (\<lambda>p. p\<lparr>p_death_notified := True\<rparr>) k)
      | Some parent \<Rightarrow>
          if dead then Some (upd_proc child (\<lambda>p. p\<lparr>p_death_notified := True\<rparr>) k)
          else channel_child_dead_notify parent child k)
   }"

definition mark_dead :: "u64 \<Rightarrow> kernel \<Rightarrow> kernel option" where
  "mark_dead pid k = do {
     dead \<leftarrow> process_is_dead k (Some pid);
     if dead then Some k
     else do {
       asserts (g_init k \<noteq> Some pid);
       Some (upd_proc pid (\<lambda>p. p\<lparr>p_dead := True\<rparr>) k)
     }
   }"

definition process_kill_subtree :: "u64 \<Rightarrow> kernel \<Rightarrow> kernel option" where
  "process_kill_subtree pid k = do { k \<leftarrow> mark_dead pid k; notify_parent pid k }"

text \<open>Freeing a thread control block: the index entry, the block and the count.\<close>

definition thread_free :: "u64 \<Rightarrow> u64 \<Rightarrow> kernel \<Rightarrow> kernel option" where
  "thread_free pid tid k = do {
     k \<leftarrow> remove_thread_ref pid tid k;
     let k = k\<lparr>g_threads := om_remove tid (g_threads k)\<rparr>;
     Some (upd_proc pid (\<lambda>p. p\<lparr>p_nthreads := p_nthreads p - 1\<rparr>) k)
   }"

definition thread_complete :: "u64 \<Rightarrow> bool \<Rightarrow> kernel \<Rightarrow> kernel option" where
  "thread_complete tid publish k = do {
     t \<leftarrow> thr k tid;
     (case t_completion_block t of
        None \<Rightarrow> Some k
      | Some base \<Rightarrow> do {
          k \<leftarrow> channel_thread_complete (t_proc t) base (t_completion_event t) publish k;
          Some (upd_thread tid (\<lambda>t. t\<lparr>t_completion_block := None\<rparr>) k)
        })
   }"

definition process_thread_exited :: "u64 \<Rightarrow> kernel \<Rightarrow> kernel option" where
  "process_thread_exited tid k = do {
     t \<leftarrow> thr k tid;
     let pid = t_proc t;
     dead \<leftarrow> process_is_dead k (Some pid);
     k \<leftarrow> thread_complete tid (\<not> dead) k;
     k \<leftarrow> thread_free pid tid k;
     p \<leftarrow> proc k pid;
     dead \<leftarrow> process_is_dead k (Some pid);
     if p_nthreads p = 0 \<and> \<not> dead then do {
       k \<leftarrow> mark_dead pid k;
       notify_parent pid k
     }
     else Some k
   }"

section \<open>System calls\<close>

definition proc_sys_create :: "u64 \<Rightarrow> kernel \<Rightarrow> (u64 \<times> kernel) option" where
  "proc_sys_create me k = process_create (Some me) k"

definition canonical48 :: "u64 \<Rightarrow> bool" where
  "canonical48 address \<longleftrightarrow> (let high = drop_bit 47 address in high = 0 \<or> high = 0x1FFFF)"

definition user_page_has :: "kernel \<Rightarrow> u64 \<Rightarrow> u64 \<Rightarrow> paging_flags \<Rightarrow> bool option" where
  "user_page_has k pid address required = do {
     p \<leftarrow> proc k pid;
     v \<leftarrow> p_as p;
     let (flags, present) = view_getinfo v address;
     Some (present \<and> flags AND required = required)
   }"

record gdos_thread_start =
  ts_version :: u32
  ts_size :: u32
  ts_entry :: u64
  ts_argument :: u64
  ts_stack_pointer :: u64
  ts_fs_base :: u64
  ts_gs_base :: u64
  ts_completion_event :: u64

definition GDOS_THREAD_START_SIZE :: u64 where "GDOS_THREAD_START_SIZE = 56"

definition load_thread_start :: "kernel \<Rightarrow> u64 \<Rightarrow> gdos_thread_start option" where
  "load_thread_start k a = do {
     version \<leftarrow> load32 k a;
     size \<leftarrow> load32 k (a + 4);
     entry \<leftarrow> load64 k (a + 8);
     arg \<leftarrow> load64 k (a + 16);
     sp \<leftarrow> load64 k (a + 24);
     fs \<leftarrow> load64 k (a + 32);
     gs \<leftarrow> load64 k (a + 40);
     ev \<leftarrow> load64 k (a + 48);
     Some \<lparr>ts_version = version, ts_size = size, ts_entry = entry, ts_argument = arg, ts_stack_pointer = sp,
           ts_fs_base = fs, ts_gs_base = gs, ts_completion_event = ev\<rparr>
   }"

text \<open>The completion block of a thread start request: \<open>None\<close> inside is a refusal.\<close>

definition completion_block_of :: "u64 \<Rightarrow> u64 \<Rightarrow> u64 \<Rightarrow> kernel \<Rightarrow> u64 option option" where
  "completion_block_of me target event k =
     (if target \<noteq> me then Some None
      else do {
        found \<leftarrow> umem_view k target event 4;
        (case found of
           None \<Rightarrow> Some None
         | Some base \<Rightarrow> do {
             b \<leftarrow> block k base;
             if event mod 4 \<noteq> 0 \<or> ub_owner b \<noteq> target \<or> ub_backing b \<noteq> UBLOCK_RAM \<or> ub_ring b \<noteq> None
               \<or> om_len (ub_sharers b) \<noteq> 0 then Some None
             else do {
               ok \<leftarrow> user_range_ok k target event 4 True;
               if \<not> ok then Some None
               else do {
                 word \<leftarrow> load32 k event;
                 Some (if word = 0 then Some base else None)
               }
             }
           })
      })"

definition proc_sys_thread_spawn :: "u64 \<Rightarrow> u64 \<Rightarrow> u64 \<Rightarrow> u64 \<Rightarrow> kernel \<Rightarrow> (u64 \<times> kernel) option" where
  "proc_sys_thread_spawn me pid start_ptr start_size k =
     (if start_size \<noteq> GDOS_THREAD_START_SIZE then Some (SYSERR_INVAL, k)
      else do {
        readable \<leftarrow> user_range_ok k me start_ptr GDOS_THREAD_START_SIZE False;
        if \<not> readable then Some (SYSERR_FAULT, k)
        else do {
          s \<leftarrow> load_thread_start k start_ptr;
          if ts_version s \<noteq> 1 \<or> ts_size s \<noteq> 56 \<or> \<not> canonical48 (ts_entry s) \<or> \<not> canonical48 (ts_stack_pointer s)
            \<or> \<not> canonical48 (ts_fs_base s) \<or> \<not> canonical48 (ts_gs_base s) \<or> ts_stack_pointer s mod 16 \<noteq> 8
          then Some (SYSERR_INVAL, k)
          else do {
            found \<leftarrow> proc_lookup k pid;
            (case found of
               None \<Rightarrow> Some (SYSERR_INVAL, k)
             | Some target \<Rightarrow> do {
                 t \<leftarrow> proc k target;
                 if \<not> (target = me \<or> p_parent t = Some me) then Some (SYSERR_INVAL, k)
                 else do {
                   entry_ok \<leftarrow> user_page_has k target (ts_entry s) (PAGE_U OR PAGE_R OR PAGE_X);
                   stack_ok \<leftarrow> user_page_has k target (ts_stack_pointer s - 1) (PAGE_U OR PAGE_R OR PAGE_W);
                   if \<not> entry_ok \<or> ts_stack_pointer s = 0 \<or> \<not> stack_ok then Some (SYSERR_INVAL, k)
                   else do {
                     completion \<leftarrow> (if ts_completion_event s = 0 then Some None
                       else completion_block_of me target (ts_completion_event s) k);
                     if ts_completion_event s \<noteq> 0 \<and> completion = None then Some (SYSERR_INVAL, k)
                     else do {
                       let k = (case completion of None \<Rightarrow> k
                         | Some base \<Rightarrow> upd_block base (\<lambda>b. b\<lparr>ub_thread_pins := ub_thread_pins b + 1\<rparr>) k);
                       process_spawn_thread target (ts_entry s) (ts_stack_pointer s) (ts_argument s)
                         (ts_fs_base s) (ts_gs_base s) completion (ts_completion_event s) k
                     }
                   }
                 }
               })
          }
        }
      })"

definition proc_sys_process_exit :: "u64 \<Rightarrow> u64 \<Rightarrow> kernel \<Rightarrow> kernel option" where
  "proc_sys_process_exit me status k = do {
     _ \<leftarrow> proc k me;
     let k = upd_proc me (\<lambda>p. p\<lparr>p_exit_status := status\<rparr>) k;
     k \<leftarrow> mark_dead me k;
     k \<leftarrow> notify_parent me k;
     uthread_park THREAD_DEAD False k
   }"

definition proc_sys_kill :: "u64 \<Rightarrow> u64 \<Rightarrow> kernel \<Rightarrow> (u64 \<times> kernel) option" where
  "proc_sys_kill me pid k = do {
     victim \<leftarrow> proc_lookup k pid;
     (case victim of
        None \<Rightarrow> Some (SYSERR_INVAL, k)
      | Some victim \<Rightarrow>
          if victim = me then Some (SYSERR_INVAL, k)
          else do {
            v \<leftarrow> proc k victim;
            mine \<leftarrow> ancestor_loop k me (p_parent v);
            if \<not> mine then Some (SYSERR_INVAL, k)
            else do {
              k \<leftarrow> mark_dead victim k;
              k \<leftarrow> notify_parent victim k;
              Some (0, k)
            }
          })
   }"

definition proc_sys_threads :: "u64 \<Rightarrow> u64 \<Rightarrow> u64 \<Rightarrow> u64 \<Rightarrow> u64 \<Rightarrow> kernel \<Rightarrow> (u64 \<times> kernel) option" where
  "proc_sys_threads me pid buf cap after k =
     (if cap = 0 \<or> cap > VM_ENUM_BATCH then Some (SYSERR_INVAL, k)
      else do {
        target \<leftarrow> resource_subject k me pid;
        (case target of
           None \<Rightarrow> Some (SYSERR_PERM, k)
         | Some target \<Rightarrow> do {
             t \<leftarrow> proc k target;
             umem_enum_copyout me buf cap (enum_keys (p_threads t) cap after) k
           })
      })"

definition proc_sys_children :: "u64 \<Rightarrow> u64 \<Rightarrow> u64 \<Rightarrow> u64 \<Rightarrow> u64 \<Rightarrow> kernel \<Rightarrow> (u64 \<times> kernel) option" where
  "proc_sys_children me pid buf cap after k =
     (if cap = 0 \<or> cap > VM_ENUM_BATCH then Some (SYSERR_INVAL, k)
      else do {
        target \<leftarrow> resource_subject k me pid;
        (case target of
           None \<Rightarrow> Some (SYSERR_PERM, k)
         | Some target \<Rightarrow> do {
             t \<leftarrow> proc k target;
             umem_enum_copyout me buf cap (enum_keys (p_children t) cap after) k
           })
      })"

text \<open>Winning a blocked thread for destruction: \<open>False\<close> is \<open>SYSERR_AGAIN\<close>.\<close>

definition reap_blocked :: "u64 \<Rightarrow> kernel \<Rightarrow> (bool \<times> kernel) option" where
  "reap_blocked tid k = do {
     victim \<leftarrow> thr k tid;
     if t_on_cpu victim \<or> t_status victim \<noteq> THREAD_BLOCKED then Some (False, k)
     else if t_wake_state victim = FUTEX_PARKED then do {
       (claimed, k) \<leftarrow> futex_try_claim tid k;
       if \<not> claimed then Some (False, k)
       else do { k \<leftarrow> futex_reap_claimed tid k; Some (True, k) }
     }
     else Some (t_wake_state victim = FUTEX_REAPABLE, k)
   }"

definition proc_sys_thread_destroy :: "u64 \<Rightarrow> u64 \<Rightarrow> u64 \<Rightarrow> kernel \<Rightarrow> (u64 \<times> kernel) option" where
  "proc_sys_thread_destroy me pid tid k = do {
     target \<leftarrow> resource_subject k me pid;
     (case target of
        None \<Rightarrow> Some (SYSERR_PERM, k)
      | Some target \<Rightarrow> do {
          dead \<leftarrow> process_is_dead k (Some target);
          if target \<noteq> me \<and> \<not> dead then Some (SYSERR_PERM, k)
          else do {
            t \<leftarrow> proc k target;
            if om_lookup (p_threads t) tid = None then Some (SYSERR_INVAL, k)
            else do {
              (won, k) \<leftarrow> reap_blocked tid k;
              if \<not> won then Some (SYSERR_AGAIN, k)
              else do {
                k \<leftarrow> thread_complete tid False k;
                k \<leftarrow> thread_free target tid k;
                Some (0, k)
              }
            }
          }
        })
   }"

definition PROC_DESTROY_DONE :: u64 where "PROC_DESTROY_DONE = 0"
definition PROC_DESTROY_MORE :: u64 where "PROC_DESTROY_MORE = 1"

definition as_loaded :: "kernel \<Rightarrow> u64 \<Rightarrow> bool" where
  "as_loaded k pid = list_ex (\<lambda>c. c_current_as c = Some pid) (g_cpus k)"

definition proc_sys_destroy :: "u64 \<Rightarrow> u64 \<Rightarrow> kernel \<Rightarrow> (u64 \<times> kernel) option" where
  "proc_sys_destroy me pid k = (case proc_lookup_any k pid of
     None \<Rightarrow> Some (SYSERR_PERM, k)
   | Some target \<Rightarrow> do {
       ok \<leftarrow> process_reaper_authorized k me target;
       if \<not> ok then Some (SYSERR_PERM, k)
       else do {
         t \<leftarrow> proc k target;
         if om_len (p_blocks t) \<noteq> 0 \<or> om_len (p_views t) \<noteq> 0 \<or> om_len (p_children t) \<noteq> 0 \<or> om_len (p_threads t) \<noteq> 0
         then Some (SYSERR_EXIST, k)
         else (case p_as t of
             Some v \<Rightarrow>
               if view_pins v \<noteq> 0 \<or> as_loaded k target then Some (SYSERR_AGAIN, k)
               else Some (PROC_DESTROY_MORE, upd_proc target (\<lambda>p. p\<lparr>p_as := None\<rparr>) k)
           | None \<Rightarrow> do {
               parent \<leftarrow> p_parent t;
               q \<leftarrow> proc k parent;
               asserts (om_lookup (p_children q) target \<noteq> None);
               let k = upd_proc parent (\<lambda>p. p\<lparr>p_children := om_remove target (p_children p)\<rparr>) k;
               (t, k) \<leftarrow> umem_proc_unregister target k;
               _ \<leftarrow> umem_process_finish t;
               Some (PROC_DESTROY_DONE, k)
             })
       }
     })"

definition proc_sys_vm_move :: "u64 \<Rightarrow> u64 \<Rightarrow> u64 \<Rightarrow> kernel \<Rightarrow> (u64 \<times> kernel) option" where
  "proc_sys_vm_move me base pid k = do {
     found \<leftarrow> proc_lookup k pid;
     (case found of
        None \<Rightarrow> Some (SYSERR_INVAL, k)
      | Some target \<Rightarrow> do {
          t \<leftarrow> proc k target;
          if p_parent t \<noteq> Some me then Some (SYSERR_INVAL, k)
          else do {
            owned \<leftarrow> umem_owned k me base;
            (case owned of
               None \<Rightarrow> Some (SYSERR_INVAL, k)
             | Some b \<Rightarrow> if ub_ring b \<noteq> None then Some (SYSERR_INVAL, k) else umem_move base me target True k)
          }
        })
   }"

definition proc_sys_vm_protect_for :: "u64 \<Rightarrow> u64 \<Rightarrow> u64 \<Rightarrow> paging_flags \<Rightarrow> u64 \<Rightarrow> kernel \<Rightarrow> (u64 \<times> kernel) option" where
  "proc_sys_vm_protect_for me base nb prot pid k = do {
     found \<leftarrow> proc_lookup k pid;
     (case found of
        None \<Rightarrow> Some (SYSERR_INVAL, k)
      | Some target \<Rightarrow> do {
          t \<leftarrow> proc k target;
          if p_parent t \<noteq> Some me then Some (SYSERR_INVAL, k)
          else do {
            (ok, k) \<leftarrow> umem_protect target base nb prot k;
            Some (if ok then 0 else SYSERR_PERM, k)
          }
        })
   }"

end
