(* ===== verification/Futex_Sys.thy ===== *)
theory Futex_Sys
  imports Process
begin

text \<open>
  The futex system calls of \<^verbatim>\<open>kernel/src/futex.c\<close>: wake, compare-and-park with an optional fused wake and
  deadline, and compare-and-requeue.  A call that parks has no return value; the saved frame carries it.
\<close>

definition futex_sys_wake :: "u64 \<Rightarrow> u64 \<Rightarrow> u64 \<Rightarrow> kernel \<Rightarrow> (u64 \<times> kernel) option" where
  "futex_sys_wake me addr count k = do {
     found \<leftarrow> umem_view k me addr 1;
     (case found of
        None \<Rightarrow> Some (SYSERR_INVAL, k)
      | Some base \<Rightarrow> do {
          b \<leftarrow> block k base;
          if ub_ring b \<noteq> None then channel_ring_drain me addr k else wake_batch addr count k
        })
   }"

text \<open>The part of \<open>futex_sys_wait\<close> under the bucket: \<open>None\<close> as result is a park.\<close>

definition compare_and_park :: "u64 \<Rightarrow> u64 \<Rightarrow> u64 \<Rightarrow> u64 \<Rightarrow> kernel \<Rightarrow> (u64 option \<times> kernel) option" where
  "compare_and_park tid addr expected deadline k = do {
     let bk = bucket_of k addr;
     word \<leftarrow> load32 k addr;
     if word \<noteq> ucast expected then Some (Some SYSERR_AGAIN, k)
     else do {
       let fk = Futex_Key addr (g_futex_seq k);
       let k = k\<lparr>g_futex_seq := g_futex_seq k + 1\<rparr>;
       (case slab_alloc k of
          (False, k) \<Rightarrow> Some (Some SYSERR_NOMEM, k)
        | (True, k) \<Rightarrow>
            if om_lookup (g_futex k bk) fk \<noteq> None then Some (Some SYSERR_NOMEM, k)
            else do {
              let k = upd_bucket bk (om_insert fk tid) k;
              let k = upd_thread tid (\<lambda>t. t\<lparr>t_wait_key := fk, t_deadline := 0\<rparr>) k;
              let (armed, k) = (if deadline \<noteq> 0 then timer_deadline_arm tid deadline k else (True, k));
              if \<not> armed then Some (Some SYSERR_NOMEM, upd_bucket bk (om_remove fk) k)
              else do {
                let k = upd_thread tid (\<lambda>t. t\<lparr>t_wake_state := FUTEX_PARKED\<rparr>) k;
                k \<leftarrow> uthread_park THREAD_BLOCKED False k;
                Some (None, k)
              }
            })
     }
   }"

definition futex_sys_wait :: "u64 \<Rightarrow> u64 \<Rightarrow> u64 \<Rightarrow> u64 \<Rightarrow> u64 \<Rightarrow> u64 \<Rightarrow> kernel \<Rightarrow> (u64 option \<times> kernel) option" where
  "futex_sys_wait me tid addr expected wake_addr deadline k =
     (if addr mod 4 \<noteq> 0 then Some (Some SYSERR_INVAL, k)
      else do {
        k \<leftarrow> (if wake_addr \<noteq> 0 then map_option snd (futex_sys_wake me wake_addr 1 k) else Some k);
        dead \<leftarrow> process_is_dead k (Some me);
        if dead then do { k \<leftarrow> uthread_park THREAD_DEAD False k; Some (None, k) }
        else do {
          ok \<leftarrow> user_range_ok k me addr 4 False;
          if \<not> ok then Some (Some SYSERR_INVAL, k)
          else compare_and_park tid addr expected deadline k
        }
      })"

partial_function (option) requeue_loop ::
    "nat \<Rightarrow> nat \<Rightarrow> u64 \<Rightarrow> u64 \<Rightarrow> u32 \<Rightarrow> u32 \<Rightarrow> u64 \<Rightarrow> kernel \<Rightarrow> (u32 \<times> kernel) option" where
  "requeue_loop bfrom bto src dst cap moved next_seq k = (
     if moved < cap then
       (case om_from (g_futex k bfrom) (Futex_Key src next_seq) of
          [] \<Rightarrow> Some (moved, k)
        | (fk, t) # _ \<Rightarrow>
            if fk_address fk \<noteq> src then Some (moved, k)
            else do {
              th \<leftarrow> thr k t;
              if t_wake_state th \<noteq> FUTEX_PARKED then requeue_loop bfrom bto src dst cap moved (fk_seq fk + 1) k
              else do {
                let k = upd_thread t (\<lambda>th. th\<lparr>t_wake_state := FUTEX_MOVING\<rparr>) k;
                asserts (om_lookup (g_futex k bfrom) fk = Some t);
                let k = upd_bucket bfrom (om_remove fk) k;
                let newkey = Futex_Key dst (g_futex_seq k);
                let k = k\<lparr>g_futex_seq := g_futex_seq k + 1\<rparr>;
                let k = upd_thread t (\<lambda>th. th\<lparr>t_wait_key := newkey\<rparr>) k;
                asserts (om_lookup (g_futex k bto) newkey = None);
                let k = upd_bucket bto (om_insert newkey t) k;
                let k = upd_thread t (\<lambda>th. th\<lparr>t_wake_state := FUTEX_PARKED\<rparr>) k;
                requeue_loop bfrom bto src dst cap (moved + 1) (fk_seq fk + 1) k
              }
            })
     else Some (moved, k))"

definition futex_sys_requeue :: "u64 \<Rightarrow> u64 \<Rightarrow> u64 \<Rightarrow> u64 \<Rightarrow> u64 \<Rightarrow> kernel \<Rightarrow> (u64 \<times> kernel) option" where
  "futex_sys_requeue me src dst expected count k =
     (if src mod 4 \<noteq> 0 \<or> dst mod 4 \<noteq> 0 \<or> src = dst then Some (SYSERR_INVAL, k)
      else do {
        src_ok \<leftarrow> user_range_ok k me src 4 False;
        dst_ok \<leftarrow> (if src_ok then user_range_ok k me dst 4 False else Some False);
        if \<not> src_ok \<or> \<not> dst_ok then Some (SYSERR_INVAL, k)
        else do {
          word \<leftarrow> load32 k src;
          if word \<noteq> ucast expected then Some (SYSERR_AGAIN, k)
          else do {
            let cap = (if count < FUTEX_REQUEUE_BATCH then ucast count else ucast FUTEX_REQUEUE_BATCH);
            (moved, k) \<leftarrow> requeue_loop (bucket_of k src) (bucket_of k dst) src dst cap 0 0 k;
            Some (ucast moved, k)
          }
        }
      })"

end
