(* ===== verification/Syscall.thy ===== *)
theory Syscall
  imports Futex_Sys
begin

text \<open>
  The system-call dispatcher of \<^verbatim>\<open>kernel/src/syscall.c\<close> with the checks that stand between user arguments
  and the back ends, device mapping through a capability token, and one iteration of the scheduler loop.
\<close>

section \<open>Checked wrappers\<close>

definition sys_debug_write :: "u64 \<Rightarrow> u64 \<Rightarrow> u64 \<Rightarrow> kernel \<Rightarrow> (u64 \<times> kernel) option" where
  "sys_debug_write me uptr nb k =
     (if nb > 4096 then Some (SYSERR_INVAL, k)
      else do {
        ok \<leftarrow> user_range_ok k me uptr nb False;
        if \<not> ok then Some (SYSERR_FAULT, k)
        else do {
          bs \<leftarrow> load_bytes k uptr (unat nb);
          Some (nb, k\<lparr>g_serial := g_serial k @ bs\<rparr>)
        }
      })"

definition vm_prot_to_flags :: "u64 \<Rightarrow> paging_flags" where
  "vm_prot_to_flags prot =
     (if prot AND 1 \<noteq> 0 then PAGE_R else 0) OR (if prot AND 2 \<noteq> 0 then PAGE_W else 0) OR
     (if prot AND 4 \<noteq> 0 then PAGE_X else 0)"

definition vm_prot_ok :: "u64 \<Rightarrow> bool \<Rightarrow> bool" where
  "vm_prot_ok prot allow_none \<longleftrightarrow>
     prot AND NOT 7 = 0 \<and> (if prot = 0 then allow_none else prot AND 1 \<noteq> 0)"

definition sys_vm_alloc :: "u64 \<Rightarrow> u64 \<Rightarrow> u64 \<Rightarrow> kernel \<Rightarrow> (u64 \<times> kernel) option" where
  "sys_vm_alloc me nb prot k =
     (if nb = 0 \<or> nb > push_bit 20 64 \<or> \<not> vm_prot_ok prot False then Some (SYSERR_INVAL, k)
      else do {
        (base, k) \<leftarrow> umem_alloc me nb (vm_prot_to_flags prot) k;
        Some (if base = 0 then SYSERR_NOMEM else base, k)
      })"

definition sys_vm_size :: "u64 \<Rightarrow> u64 \<Rightarrow> kernel \<Rightarrow> (u64 \<times> kernel) option" where
  "sys_vm_size me base k = do {
     bytes \<leftarrow> umem_size me base k;
     Some (if bytes = 0 then SYSERR_PERM else bytes, k)
   }"

definition sys_vm_protect :: "u64 \<Rightarrow> u64 \<Rightarrow> u64 \<Rightarrow> u64 \<Rightarrow> u64 \<Rightarrow> kernel \<Rightarrow> (u64 \<times> kernel) option" where
  "sys_vm_protect me base nb prot pid k =
     (if \<not> vm_prot_ok prot True then Some (SYSERR_INVAL, k)
      else if pid \<noteq> 0 \<and> pid \<noteq> me then proc_sys_vm_protect_for me base nb (vm_prot_to_flags prot) pid k
      else do {
        (ok, k) \<leftarrow> umem_protect me base nb (vm_prot_to_flags prot) k;
        Some (if ok then 0 else SYSERR_PERM, k)
      })"

definition sys_vm_share :: "u64 \<Rightarrow> u64 \<Rightarrow> u64 \<Rightarrow> u64 \<Rightarrow> kernel \<Rightarrow> (u64 \<times> kernel) option" where
  "sys_vm_share me base target prot k =
     (if sint target < 0 then channel_scheme_create me base target k
      else if \<not> vm_prot_ok prot False then Some (SYSERR_INVAL, k)
      else umem_share me base target (vm_prot_to_flags prot) k)"

definition cap_map_device :: "u64 \<Rightarrow> u64 \<Rightarrow> u64 \<Rightarrow> u32 \<Rightarrow> kernel \<Rightarrow> (u64 \<times> kernel) option" where
  "cap_map_device me token_ptr token_len flags k =
     (if token_len \<noteq> CAP_TOKEN_SIZE then Some (SYSERR_INVAL, k)
      else do {
        ok \<leftarrow> user_range_ok k me token_ptr token_len False;
        if \<not> ok then Some (SYSERR_FAULT, k)
        else do {
          bs \<leftarrow> load_bytes k token_ptr 32;
          (rc, gid) \<leftarrow> token_resolve k (token_of_bytes bs) True KCAP_GRANT_DEVMEM;
          if rc \<noteq> 0 then Some (rc, k)
          else do {
            g \<leftarrow> gnt k gid;
            if gr_wildcard g \<or> flags AND NOT (dm_flags (gr_body g)) \<noteq> 0 then Some (SYSERR_PERM, k)
            else umem_map_device me (dm_base (gr_body g)) (dm_len (gr_body g)) flags k
          }
        }
      })"

text \<open>\<open>arch_uthread_set_bases\<close> writes the two segment bases when both are canonical.\<close>

definition arch_uthread_set_bases :: "u64 \<Rightarrow> u64 \<Rightarrow> u64 \<Rightarrow> kernel \<Rightarrow> u64 \<times> kernel" where
  "arch_uthread_set_bases tid fs gs k =
     (if \<not> canonical48 fs \<or> \<not> canonical48 gs then (SYSERR_INVAL, k)
      else (0, upd_thread tid (\<lambda>t. t\<lparr>t_fs_base := fs, t_gs_base := gs\<rparr>) k))"

section \<open>The scheduler loop\<close>

definition SCHED_QUANTUM_NS :: u64 where "SCHED_QUANTUM_NS = 10000 * 1000"

text \<open>The loop's half of a switch out: a thread that exited is disposed of.\<close>

definition switched_out :: "u64 \<Rightarrow> kernel \<Rightarrow> kernel option" where
  "switched_out tid k = do {
     t \<leftarrow> thr k tid;
     if t_status t = THREAD_DEAD then process_thread_exited tid k else Some k
   }"

text \<open>From the top of the loop to the switch into a thread, or to the halt.\<close>

definition scheduler_iterate :: "kernel \<Rightarrow> kernel option" where
  "scheduler_iterate k = do {
     let i = g_this_cpu k;
     _ \<leftarrow> cpu_of k i;
     (case scheduler_pop_local i k of
        (None, k) \<Rightarrow>
          let k = upd_cpu i (\<lambda>c. c\<lparr>c_idle := True, c_current_as := None\<rparr>) k
          in Some (timer_cpu_idle k)
      | (Some tid, k) \<Rightarrow> do {
          t \<leftarrow> thr k tid;
          dead \<leftarrow> process_is_dead k (Some (t_proc t));
          if dead then process_thread_exited tid (upd_thread tid (\<lambda>t. t\<lparr>t_status := THREAD_DEAD\<rparr>) k)
          else do {
            let k = upd_thread tid (\<lambda>t. t\<lparr>t_status := THREAD_RUNNING, t_on_cpu := True\<rparr>) k;
            let k = upd_cpu i (\<lambda>c. c\<lparr>c_current_thread := Some tid, c_current_as := Some (t_proc t)\<rparr>) k;
            Some (timer_cpu_dispatch SCHED_QUANTUM_NS k)
          }
        })
   }"

definition scheduler_wake_from_idle :: "kernel \<Rightarrow> kernel" where
  "scheduler_wake_from_idle k = upd_cpu (g_this_cpu k) (\<lambda>c. c\<lparr>c_idle := False\<rparr>) k"

section \<open>Dispatch\<close>

definition returns :: "(u64 \<times> kernel) option \<Rightarrow> (u64 option \<times> kernel) option" where
  "returns r = map_option (\<lambda>(v, k). (Some v, k)) r"

definition park_exit :: "u64 \<Rightarrow> kernel \<Rightarrow> (u64 option \<times> kernel) option" where
  "park_exit tid k = do {
     k \<leftarrow> uthread_park THREAD_DEAD False k;
     k \<leftarrow> switched_out tid k;
     Some (None, k)
   }"

definition sys_futex_wait :: "u64 \<Rightarrow> u64 \<Rightarrow> u64 \<Rightarrow> u64 \<Rightarrow> u64 \<Rightarrow> u64 \<Rightarrow> kernel \<Rightarrow> (u64 option \<times> kernel) option" where
  "sys_futex_wait me tid a0 a1 a2 a3 k = do {
     (r, k) \<leftarrow> futex_sys_wait me tid a0 a1 a2 a3 (upd_thread tid (\<lambda>t. t\<lparr>t_rax := 0\<rparr>) k);
     k \<leftarrow> (if r = None then switched_out tid k else Some k);
     Some (r, k)
   }"

text \<open>The arguments are the registers rax, rcx, rdx, r8 and r9; \<open>None\<close> as result is a call that parks.\<close>

definition syscall_entry :: "u64 \<Rightarrow> u64 \<Rightarrow> u64 \<Rightarrow> u64 \<Rightarrow> u64 \<Rightarrow> kernel \<Rightarrow> (u64 option \<times> kernel) option" where
  "syscall_entry nr a0 a1 a2 a3 k = do {
     c \<leftarrow> cpu_of k (g_this_cpu k);
     tid \<leftarrow> c_current_thread c;
     t \<leftarrow> thr k tid;
     let me = t_proc t;
     dead \<leftarrow> process_is_dead k (Some me);
     if dead then park_exit tid k
     else if nr = 0 then returns (sys_debug_write me a0 a1 k)
     else if nr = 1 then do {
       k \<leftarrow> uthread_park THREAD_RUNNABLE True (upd_thread tid (\<lambda>t. t\<lparr>t_rax := 0\<rparr>) k);
       Some (None, k)
     }
     else if nr = 2 then returns (Some (me, k))
     else if nr = 3 then returns (Some (tid, k))
     else if nr = 4 then returns (Some (g_clock k, k))
     else if nr = 5 then returns (sys_vm_alloc me a0 a1 k)
     else if nr = 6 then returns (umem_free me a0 k)
     else if nr = 7 then returns (sys_vm_protect me a0 a1 a2 a3 k)
     else if nr = 8 then returns (sys_vm_size me a0 k)
     else if nr = 9 then returns (sys_vm_share me a0 a1 a2 k)
     else if nr = 10 then returns (umem_dropshare me a0 a1 k)
     else if nr = 11 then returns (umem_unshare me a0 a1 k)
     else if nr = 12 then returns (proc_sys_vm_move me a0 a1 k)
     else if nr = 13 then returns (cap_map_device me a0 a1 (ucast a2) k)
     else if nr = 14 then returns (umem_enum_sharers me a0 a1 a2 a3 k)
     else if nr = 15 then returns (umem_enum_blocks me a0 a1 a2 a3 k)
     else if nr = 16 then returns (umem_enum_views me a0 a1 a2 a3 k)
     else if nr = 17 then returns (iommu_enum_maps me a0 a1 a2 a3 k)
     else if nr = 18 then returns (iommu_revoke_map me a0 a1 k)
     else if nr = 19 then returns (futex_sys_wake me a0 a1 k)
     else if nr = 20 then sys_futex_wait me tid a0 a1 a2 a3 k
     else if nr = 21 then returns (futex_sys_requeue me a0 a1 a2 a3 k)
     else if nr = 22 then returns (proc_sys_create me k)
     else if nr = 23 then returns (proc_sys_thread_spawn me a0 a1 a2 k)
     else if nr = 24 then returns (Some (arch_uthread_set_bases tid a0 a1 k))
     else if nr = 25 then park_exit tid k
     else if nr = 26 then returns (proc_sys_kill me a0 k)
     else if nr = 27 then returns (proc_sys_threads me a0 a1 a2 a3 k)
     else if nr = 28 then returns (proc_sys_thread_destroy me a0 a1 k)
     else if nr = 29 then returns (proc_sys_children me a0 a1 a2 a3 k)
     else if nr = 30 then returns (proc_sys_destroy me a0 k)
     else if nr = 31 then do {
       k \<leftarrow> proc_sys_process_exit me a0 k;
       k \<leftarrow> switched_out tid k;
       Some (None, k)
     }
     else returns (Some (SYSERR_NOSYS, k))
   }"

end
