(* ===== verification/Frames.thy ===== *)
theory Frames
  imports Kernel_State
begin

text \<open>
  What the accessors and updates of the kernel state do to each other, declared for simplification, and
  the memory lemmas: loading back what was stored, and where a store has no effect.
\<close>

named_theorems upd_defs \<open>the update functions, unfolded\<close>

declare upd_proc_def [upd_defs] upd_block_def [upd_defs] upd_thread_def [upd_defs] upd_cpu_def [upd_defs]
  upd_ring_def [upd_defs]

section \<open>Lookups after updates\<close>

lemma proc_upd_proc [simp]: "proc (upd_proc pid f k) q = (if q = pid then map_option f (proc k q) else proc k q)"
  by (simp add: proc_def upd_proc_def)

lemma block_upd_block [simp]:
  "block (upd_block base f k) b = (if b = base then map_option f (block k b) else block k b)"
  by (simp add: block_def upd_block_def)

lemma thr_upd_thread [simp]: "thr (upd_thread tid f k) t = (if t = tid then map_option f (thr k t) else thr k t)"
  by (simp add: thr_def upd_thread_def)

lemma proc_cong [simp]:
  "proc (upd_block base g k) q = proc k q" "proc (upd_thread t h k) q = proc k q" "proc (upd_cpu i c k) q = proc k q"
  "proc (upd_ring base r k) q = proc k q"
  by (simp_all add: proc_def upd_defs)

lemma block_cong [simp]:
  "block (upd_proc pid f k) q = block k q" "block (upd_thread t h k) q = block k q" "block (upd_cpu i c k) q = block k q"
  by (simp_all add: block_def upd_defs)

lemma thr_cong [simp]:
  "thr (upd_proc pid f k) q = thr k q" "thr (upd_block base g k) q = thr k q" "thr (upd_cpu i c k) q = thr k q"
  "thr (upd_ring base r k) q = thr k q"
  by (simp_all add: thr_def upd_defs)

lemma proc_fields [simp]:
  "proc (k\<lparr>g_ublocks := x1\<rparr>) = proc k" "proc (k\<lparr>g_threads := x2\<rparr>) = proc k" "proc (k\<lparr>g_as_kernel := x3\<rparr>) = proc k"
  "proc (k\<lparr>g_allocator := x4\<rparr>) = proc k" "proc (k\<lparr>g_mem := x5\<rparr>) = proc k" "proc (k\<lparr>g_cpus := x6\<rparr>) = proc k"
  "proc (k\<lparr>g_next_target := x7\<rparr>) = proc k" "proc (k\<lparr>g_futex := x8\<rparr>) = proc k" "proc (k\<lparr>g_futex_seq := x9\<rparr>) = proc k"
  "proc (k\<lparr>g_oom := x10\<rparr>) = proc k" "proc (k\<lparr>g_routes := x11\<rparr>) = proc k" "proc (k\<lparr>g_ioapic := x12\<rparr>) = proc k"
  "proc (k\<lparr>g_grants := x13\<rparr>) = proc k" "proc (k\<lparr>g_domains := x14\<rparr>) = proc k" "proc (k\<lparr>g_vtd := x15\<rparr>) = proc k"
  "proc (k\<lparr>g_next_pid := x16\<rparr>) = proc k" "proc (k\<lparr>g_next_tid := x17\<rparr>) = proc k" "proc (k\<lparr>g_serial := x18\<rparr>) = proc k"
  "proc (k\<lparr>g_nmappings := x19\<rparr>) = proc k" "proc (k\<lparr>g_ndevices := x20\<rparr>) = proc k" "proc (k\<lparr>g_fault_devices := x21\<rparr>) = proc k"
  "proc (k\<lparr>g_next_grant_id := x22\<rparr>) = proc k"
  by (simp_all add: proc_def fun_eq_iff)

lemma block_fields [simp]:
  "block (k\<lparr>g_procs := x1\<rparr>) = block k" "block (k\<lparr>g_threads := x2\<rparr>) = block k" "block (k\<lparr>g_as_kernel := x3\<rparr>) = block k"
  "block (k\<lparr>g_allocator := x4\<rparr>) = block k" "block (k\<lparr>g_mem := x5\<rparr>) = block k" "block (k\<lparr>g_cpus := x6\<rparr>) = block k"
  "block (k\<lparr>g_next_target := x7\<rparr>) = block k" "block (k\<lparr>g_futex := x8\<rparr>) = block k" "block (k\<lparr>g_futex_seq := x9\<rparr>) = block k"
  "block (k\<lparr>g_oom := x10\<rparr>) = block k" "block (k\<lparr>g_routes := x11\<rparr>) = block k" "block (k\<lparr>g_ioapic := x12\<rparr>) = block k"
  "block (k\<lparr>g_grants := x13\<rparr>) = block k" "block (k\<lparr>g_domains := x14\<rparr>) = block k" "block (k\<lparr>g_vtd := x15\<rparr>) = block k"
  "block (k\<lparr>g_next_pid := x16\<rparr>) = block k" "block (k\<lparr>g_next_tid := x17\<rparr>) = block k" "block (k\<lparr>g_serial := x18\<rparr>) = block k"
  "block (k\<lparr>g_nmappings := x19\<rparr>) = block k" "block (k\<lparr>g_ndevices := x20\<rparr>) = block k" "block (k\<lparr>g_fault_devices := x21\<rparr>) = block k"
  "block (k\<lparr>g_next_grant_id := x22\<rparr>) = block k"
  by (simp_all add: block_def fun_eq_iff)

lemma thr_fields [simp]:
  "thr (k\<lparr>g_procs := x1\<rparr>) = thr k" "thr (k\<lparr>g_ublocks := x2\<rparr>) = thr k" "thr (k\<lparr>g_as_kernel := x3\<rparr>) = thr k"
  "thr (k\<lparr>g_allocator := x4\<rparr>) = thr k" "thr (k\<lparr>g_mem := x5\<rparr>) = thr k" "thr (k\<lparr>g_cpus := x6\<rparr>) = thr k"
  "thr (k\<lparr>g_next_target := x7\<rparr>) = thr k" "thr (k\<lparr>g_futex := x8\<rparr>) = thr k" "thr (k\<lparr>g_futex_seq := x9\<rparr>) = thr k"
  "thr (k\<lparr>g_oom := x10\<rparr>) = thr k" "thr (k\<lparr>g_routes := x11\<rparr>) = thr k" "thr (k\<lparr>g_next_pid := x12\<rparr>) = thr k"
  "thr (k\<lparr>g_serial := x13\<rparr>) = thr k"
  by (simp_all add: thr_def fun_eq_iff)

section \<open>The allocation oracle\<close>

lemma slab_alloc_ok [simp]: "g_oom k = [] \<Longrightarrow> slab_alloc k = (True, k)"
  by (simp add: slab_alloc_def)

lemma must_alloc_ok [simp]: "g_oom k = [] \<Longrightarrow> must_alloc k = Some k"
  by (simp add: must_alloc_def)

lemma slab_alloc_frame: "slab_alloc k = (ok, k') \<Longrightarrow> \<exists>x. k' = k\<lparr>g_oom := x\<rparr>"
  by (auto simp: slab_alloc_def split: list.splits intro: exI [of _ "g_oom k"])

lemma must_alloc_frame: "must_alloc k = Some k' \<Longrightarrow> \<exists>x. k' = k\<lparr>g_oom := x\<rparr>"
  using slab_alloc_frame by (auto simp: must_alloc_def split: prod.splits bool.splits)

section \<open>Little-endian integers\<close>

lemma length_le_bytes [simp]: "length (le_bytes n w) = n"
  by (simp add: le_bytes_def)

lemma le_bytes_Suc: "le_bytes (Suc n) w = ucast w # le_bytes n (drop_bit 8 w)"
  by (simp add: le_bytes_def upt_conv_Cons map_Suc_upt [symmetric] comp_def add.commute del: upt_Suc)

lemma le_word_Cons: "le_word (b # bs) = push_bit 8 (le_word bs) OR ucast b"
  by (simp add: le_word_def)

lemma le_word_le_bytes: "le_word (le_bytes n w) = take_bit (8 * n) w"
proof (induction n arbitrary: w)
  case 0
  then show ?case by (simp add: le_bytes_def le_word_def)
next
  case (Suc n)
  have "push_bit 8 (take_bit (8 * n) (drop_bit 8 w)) OR ucast (ucast w :: u8) = take_bit (8 * Suc n) w"
    by (rule bit_eqI) (auto simp: bit_simps)
  then show ?case by (simp only: le_bytes_Suc le_word_Cons Suc.IH)
qed

lemma le_word_u32 [simp]: "le_word (le_bytes 4 (w :: u32)) = w"
  by (simp add: le_word_le_bytes take_bit_word_eq_self)

lemma le_word_u64 [simp]: "le_word (le_bytes 8 (w :: u64)) = w"
  by (simp add: le_word_le_bytes take_bit_word_eq_self)

section \<open>Memory\<close>

lemma cur_view_fields [simp]:
  "cur_view (k\<lparr>g_mem := x1\<rparr>) = cur_view k" "cur_view (k\<lparr>g_oom := x2\<rparr>) = cur_view k"
  "cur_view (k\<lparr>g_ublocks := x3\<rparr>) = cur_view k" "cur_view (k\<lparr>g_threads := x4\<rparr>) = cur_view k"
  "cur_view (k\<lparr>g_futex := x5\<rparr>) = cur_view k" "cur_view (k\<lparr>g_allocator := x6\<rparr>) = cur_view k"
  "cur_view (upd_block base g k) = cur_view k" "cur_view (upd_thread t h k) = cur_view k"
  "cur_view (upd_ring base r k) = cur_view k"
  by (simp_all add: cur_view_def upd_defs split: option.split)

lemma kaccess_fields [simp]:
  "kaccess (k\<lparr>g_mem := x1\<rparr>) = kaccess k" "kaccess (k\<lparr>g_oom := x2\<rparr>) = kaccess k"
  "kaccess (k\<lparr>g_ublocks := x3\<rparr>) = kaccess k" "kaccess (k\<lparr>g_threads := x4\<rparr>) = kaccess k"
  "kaccess (k\<lparr>g_futex := x5\<rparr>) = kaccess k" "kaccess (k\<lparr>g_allocator := x6\<rparr>) = kaccess k"
  "kaccess (upd_block base g k) = kaccess k" "kaccess (upd_thread t h k) = kaccess k"
  "kaccess (upd_ring base r k) = kaccess k"
  by (simp_all add: kaccess_def fun_eq_iff)

lemma load_after_store:
  assumes "store_bytes a bs k = Some k'" "length bs < 2 ^ 64"
  shows "load_bytes k' a (length bs) = Some bs"
proof -
  have k': "k' = k\<lparr>g_mem := \<lambda>x. if unat (x - a) < length bs then bs ! unat (x - a) else g_mem k x\<rparr>"
    and acc: "kaccess k a (length bs)" using assms(1) by (auto simp: store_bytes_def)
  have "kaccess k' a (length bs)" using acc by (simp add: k')
  moreover have "map (\<lambda>i. g_mem k' (a + of_nat i)) [0 ..< length bs] = bs"
    using assms(2) by (intro nth_equalityI) (simp_all add: k' unat_of_nat take_bit_eq_mod)
  ultimately show ?thesis by (simp add: load_bytes_def)
qed

lemma load32_after_store32: "store32 a w k = Some k' \<Longrightarrow> load32 k' a = Some w"
  using load_after_store [of a "le_bytes 4 w" k k'] by (simp add: store32_def load32_def)

lemma store_bytes_mem:
  "store_bytes a bs k = Some k' \<Longrightarrow> \<exists>x. k' = k\<lparr>g_mem := x\<rparr> \<and> (\<forall>y. length bs \<le> unat (y - a) \<longrightarrow> x y = g_mem k y)"
  by (auto simp: store_bytes_def intro!: exI)

end
