(* ===== verification/Tree_Correct.thy ===== *)
theory Tree_Correct
  imports Process Frames
begin

text \<open>
  What the loops over \<open>parent\<close> pointers compute.  Pids are handed out in increasing order, so a parent's is
  smaller than its child's and every walk ends; effective death is reachability of a dead ancestor, and
  reaping authority is a path of dead processes.
\<close>

definition ptree_ok :: "kernel \<Rightarrow> bool" where
  "ptree_ok k \<longleftrightarrow> (\<forall>pid p q. proc k pid = Some p \<longrightarrow> p_parent p = Some q \<longrightarrow> q < pid \<and> proc k q \<noteq> None)"

definition par :: "kernel \<Rightarrow> (u64 \<times> u64) set" where
  "par k = {(c, q). \<exists>p. proc k c = Some p \<and> p_parent p = Some q}"

definition eff_dead :: "kernel \<Rightarrow> u64 \<Rightarrow> bool" where
  "eff_dead k pid \<longleftrightarrow> (\<exists>a p. (pid, a) \<in> (par k)\<^sup>* \<and> proc k a = Some p \<and> p_dead p)"

lemma ptree_okD:
  assumes "ptree_ok k" "proc k pid = Some p" "p_parent p = Some q"
  shows "q < pid" "\<exists>r. proc k q = Some r"
  using assms by (auto simp: ptree_ok_def)

lemma par_iff: "proc k c = Some p \<Longrightarrow> (c, q) \<in> par k \<longleftrightarrow> p_parent p = Some q"
  by (simp add: par_def)

lemma par_rtrancl_iff:
  assumes "proc k c = Some p"
  shows "(c, a) \<in> (par k)\<^sup>* \<longleftrightarrow> a = c \<or> (\<exists>q. p_parent p = Some q \<and> (q, a) \<in> (par k)\<^sup>*)"
proof
  assume "(c, a) \<in> (par k)\<^sup>*"
  then show "a = c \<or> (\<exists>q. p_parent p = Some q \<and> (q, a) \<in> (par k)\<^sup>*)"
    by (cases rule: converse_rtranclE) (auto simp: par_iff [OF assms])
qed (auto simp: par_iff [OF assms] intro: converse_rtrancl_into_rtrancl)

lemma par_trancl_iff:
  assumes "proc k c = Some p"
  shows "(c, a) \<in> (par k)\<^sup>+ \<longleftrightarrow> (\<exists>q. p_parent p = Some q \<and> (q, a) \<in> (par k)\<^sup>*)"
  by (auto simp: par_iff [OF assms] trancl_unfold_left)

lemma par_less:
  assumes "ptree_ok k" "(c, a) \<in> (par k)\<^sup>+"
  shows "a < c"
  using assms(2)
proof (induction rule: trancl_induct)
  case (base y)
  then show ?case using ptree_okD(1) [OF assms(1)] by (auto simp: par_def)
next
  case (step y z)
  then have "z < y" using ptree_okD(1) [OF assms(1)] by (auto simp: par_def)
  then show ?case using step.IH by (rule order.strict_trans)
qed

lemma eff_dead_iff:
  assumes "proc k pid = Some p"
  shows "eff_dead k pid \<longleftrightarrow> p_dead p \<or> (\<exists>q. p_parent p = Some q \<and> eff_dead k q)"
  using assms by (auto simp: eff_dead_def par_rtrancl_iff [OF assms])

lemma eff_dead_ancestor: "(pid, a) \<in> (par k)\<^sup>* \<Longrightarrow> eff_dead k a \<Longrightarrow> eff_dead k pid"
  by (auto simp: eff_dead_def dest: rtrancl_trans)

lemmas u64_less_induct = less_induct [where 'a = u64, case_names less]

lemma process_is_dead_None [simp]: "process_is_dead k None = Some False"
  by (subst process_is_dead.simps) simp

lemma is_dead_eq:
  assumes "ptree_ok k" "proc k pid = Some p"
  shows "process_is_dead k (Some pid) = Some (eff_dead k pid)"
  using assms(2)
proof (induction pid arbitrary: p rule: u64_less_induct)
  case (less pid)
  show ?case
  proof (cases "p_parent p")
    case None
    then show ?thesis
      using less.prems by (subst process_is_dead.simps) (simp add: eff_dead_iff)
  next
    case (Some q)
    obtain r where "proc k q = Some r" "q < pid" using ptree_okD [OF assms(1) less.prems Some] by blast
    then show ?thesis
      using less.prems Some less.IH by (subst process_is_dead.simps) (simp add: eff_dead_iff)
  qed
qed

lemma parent_is_dead_eq:
  assumes "ptree_ok k" "proc k pid = Some p"
  shows "process_is_dead k (p_parent p) = Some (\<exists>q. p_parent p = Some q \<and> eff_dead k q)"
  using is_dead_eq [OF assms(1)] ptree_okD [OF assms] by (cases "p_parent p") auto

lemma ancestor_loop_eq:
  assumes "ptree_ok k" "proc k a = Some p"
  shows "ancestor_loop k me (Some a) = Some ((a, me) \<in> (par k)\<^sup>*)"
  using assms(2)
proof (induction a arbitrary: p rule: u64_less_induct)
  case (less a)
  show ?case
  proof (cases "p_parent p")
    case None
    then show ?thesis
      using less.prems by (subst ancestor_loop.simps) (auto simp: par_rtrancl_iff ancestor_loop.simps [of k me None])
  next
    case (Some q)
    obtain r where "proc k q = Some r" "q < a" using ptree_okD [OF assms(1) less.prems Some] by blast
    then show ?thesis
      using less.prems Some less.IH by (subst ancestor_loop.simps) (auto simp: par_rtrancl_iff)
  qed
qed

lemma parent_ancestor_eq:
  assumes "ptree_ok k" "proc k pid = Some p"
  shows "ancestor_loop k me (p_parent p) = Some ((pid, me) \<in> (par k)\<^sup>+)"
proof (cases "p_parent p")
  case None
  then show ?thesis using assms(2) by (simp add: ancestor_loop.simps [of k me None] par_trancl_iff)
next
  case (Some q)
  then show ?thesis
    using assms ancestor_loop_eq [OF assms(1)] ptree_okD [OF assms] by (auto simp: par_trancl_iff)
qed

text \<open>A path of effectively dead processes from \<open>target\<close> up to a child of \<open>caller\<close>.\<close>

definition reap_path :: "kernel \<Rightarrow> u64 \<Rightarrow> u64 \<Rightarrow> bool" where
  "reap_path k caller target \<longleftrightarrow> (target, caller) \<in> (par k)\<^sup>+ \<and>
     (\<forall>x. (target, x) \<in> (par k)\<^sup>* \<longrightarrow> (x, caller) \<in> (par k)\<^sup>+ \<longrightarrow> eff_dead k x)"

lemma reaper_loop_eq:
  assumes "ptree_ok k" "proc k target = Some p"
  shows "reaper_loop k caller (Some target) = Some (reap_path k caller target)"
  using assms(2)
proof (induction target arbitrary: p rule: u64_less_induct)
  case (less target)
  note d = is_dead_eq [OF assms(1) less.prems]
  have irr: "(target, target) \<notin> (par k)\<^sup>+" using par_less [OF assms(1)] by blast
  show ?case
  proof (cases "p_parent p")
    case None
    then show ?thesis
      using less.prems d
      by (subst reaper_loop.simps) (auto simp: reap_path_def par_trancl_iff reaper_loop.simps [of k caller None])
  next
    case (Some q)
    obtain r where q: "proc k q = Some r" "q < target" using ptree_okD [OF assms(1) less.prems Some] by blast
    have cyc: False if "(x, caller) \<in> (par k)\<^sup>+" "(caller, x) \<in> (par k)\<^sup>*" for x
      using par_less [OF assms(1), of caller caller] rtrancl_trancl_trancl [OF that(2,1)] by blast
    have step: "reap_path k caller target \<longleftrightarrow> target \<noteq> caller \<and> eff_dead k target \<and> (q = caller \<or> reap_path k caller q)"
    proof (cases "q = caller")
      case True
      then show ?thesis
        using less.prems Some irr cyc by (auto simp: reap_path_def par_trancl_iff par_rtrancl_iff)
    next
      case False
      then show ?thesis
        using less.prems Some irr by (auto simp: reap_path_def par_trancl_iff par_rtrancl_iff rtrancl_eq_or_trancl)
    qed
    show ?thesis
      using less.prems Some q less.IH [OF q(2,1)] d step by (subst reaper_loop.simps) auto
  qed
qed

lemma reaper_authorized_eq:
  assumes "ptree_ok k" "proc k target = Some p"
  shows "process_reaper_authorized k caller target = Some (reap_path k caller target)"
proof -
  have "\<not> reap_path k caller target" if "caller = target \<or> \<not> eff_dead k target"
    using that par_less [OF assms(1), of target target] by (auto simp: reap_path_def)
  then show ?thesis
    using is_dead_eq [OF assms] reaper_loop_eq [OF assms]
    by (auto simp: process_reaper_authorized_def)
qed

end
