(* ===== verification/Sample.thy ===== *)
theory Sample
  imports Frames
begin

text \<open>
  Small concrete kernel states: one processor, no blocks, no grants, memory of zeros.  The theorems about
  system calls are instantiated on states built from these.
\<close>

definition sample_view :: view where
  "sample_view = \<lparr>page_flags = \<lambda>_. 0, view_pins = 0\<rparr>"

definition sample_cpu :: cpu where
  "sample_cpu = \<lparr>c_current_thread = None, c_queue = [], c_idle = True, c_deadlines = om_empty, c_quantum = 0,
     c_current_as = None, c_shot = None, c_ipis = 0\<rparr>"

definition sample_process :: "u64 \<Rightarrow> u64 option \<Rightarrow> process" where
  "sample_process pid parent = \<lparr>p_pid = pid, p_as = Some sample_view, p_dead = False, p_parent = parent,
     p_children = om_empty, p_death_notified = False, p_exit_status = 0, p_nthreads = 0, p_threads = om_empty,
     p_blocks = om_empty, p_views = om_empty, p_unnotified = [], p_share_ch = None, p_tree_ch = None,
     p_iommu_ch = None\<rparr>"

definition sample_thread :: "u64 \<Rightarrow> u64 \<Rightarrow> thread" where
  "sample_thread tid pid = \<lparr>t_tid = tid, t_proc = pid, t_status = THREAD_RUNNABLE, t_on_cpu = False,
     t_wait_key = Futex_Key 0 0, t_deadline = 0, t_deadline_cpu = 0, t_wake_state = FUTEX_IDLE,
     t_completion_block = None, t_completion_event = 0, t_rax = 0, t_entry = 0, t_rsp = 0, t_arg = 0,
     t_fs_base = 0, t_gs_base = 0\<rparr>"

definition sample_kernel :: kernel where
  "sample_kernel = \<lparr>g_procs = om_empty, g_ublocks = om_empty, g_threads = om_empty, g_as_kernel = sample_view,
     g_allocator = \<lparr>offset = 0, page_size_log2 = 12, ready = False, max_level = 0, heap = []\<rparr>,
     g_mem = \<lambda>_. 0, g_next_pid = 1, g_next_tid = 1, g_init = None, g_cpus = [sample_cpu], g_this_cpu = 0,
     g_next_target = 0, g_clock = 0, g_futex = \<lambda>_. om_empty, g_futex_key = [], g_futex_seq = 0,
     g_routes = [], g_ioapic = \<lparr>g_ioapics = [], g_isa_override = []\<rparr>, g_bsp_apic_id = 0,
     g_grants = om_empty, g_next_grant_id = 1, g_boot_key = [], g_mmap = [], g_protected = [], g_ecam = [],
     g_domains = [], g_ndomains = 0, g_ndevices = 0, g_nmappings = 0, g_next_domain_id = 1, g_live = False,
     g_fault_devices = \<lambda>_. None,
     g_vtd = \<lparr>g_regs = False, g_superpage_2m = False, g_next_domain = 1, g_domain_used = \<lambda>_. False,
       g_contexts = \<lambda>_. None, sl_oom = [], sl_timeout = []\<rparr>,
     g_serial = [], g_oom = []\<rparr>"

lemmas sample_defs = sample_view_def sample_cpu_def sample_process_def sample_thread_def sample_kernel_def

lemma sample_lookup [simp]:
  "proc sample_kernel pid = None" "block sample_kernel base = None" "thr sample_kernel tid = None"
  by (simp_all add: proc_def block_def thr_def sample_kernel_def)

end
