(* ===== verification/Futex_Correct.thy ===== *)
theory Futex_Correct
  imports Futex_Sys Tree_Correct Sample "HOL-Library.Multiset"
begin

text \<open>
  Correctness of waking.  \<open>futex_ok\<close> ties the three places a parked thread is recorded in (its own wait
  state, the bucket of its address, the deadline tree of a processor) to each other; waking detaches the
  longest-waiting threads of exactly one address and releases each of them once.
\<close>

section \<open>Invariant\<close>

definition deadline_armed :: "kernel \<Rightarrow> u64 \<Rightarrow> thread \<Rightarrow> bool" where
  "deadline_armed k tid th \<longleftrightarrow> t_deadline_cpu th < length (g_cpus k) \<and>
     om_lookup (c_deadlines (g_cpus k ! t_deadline_cpu th)) (Tdeadline_Key (t_deadline th) tid) = Some tid"

definition bucket_linked :: "kernel \<Rightarrow> u64 \<Rightarrow> thread \<Rightarrow> bool" where
  "bucket_linked k tid th \<longleftrightarrow>
     om_lookup (g_futex k (bucket_of k (fk_address (t_wait_key th)))) (t_wait_key th) = Some tid"

text \<open>
  \<open>D\<close> holds the threads a waker has claimed and taken out of their bucket, \<open>E\<close> those the timer has claimed
  and taken out of their deadline tree; both are empty between operations.
\<close>

definition thread_wait_ok :: "u64 set \<Rightarrow> u64 set \<Rightarrow> kernel \<Rightarrow> u64 \<Rightarrow> thread \<Rightarrow> bool" where
  "thread_wait_ok D E k tid th \<longleftrightarrow>
     (if tid \<in> D \<union> E then t_wake_state th = FUTEX_CLAIMED
      else t_wake_state th \<in> {FUTEX_IDLE, FUTEX_PARKED, FUTEX_REAPABLE}) \<and>
     (t_wake_state th \<in> {FUTEX_PARKED, FUTEX_CLAIMED} \<longrightarrow> t_status th = THREAD_BLOCKED \<and> \<not> t_on_cpu th) \<and>
     (t_wake_state th = FUTEX_PARKED \<or> tid \<in> E \<longrightarrow> bucket_linked k tid th) \<and>
     (t_deadline th \<noteq> 0 \<longrightarrow> (t_wake_state th = FUTEX_PARKED \<or> tid \<in> D) \<and> deadline_armed k tid th)"

definition bucket_entry_ok :: "u64 set \<Rightarrow> kernel \<Rightarrow> nat \<Rightarrow> futex_key \<Rightarrow> u64 \<Rightarrow> bool" where
  "bucket_entry_ok D k i fk tid \<longleftrightarrow> i = bucket_of k (fk_address fk) \<and> fk_seq fk < g_futex_seq k \<and> tid \<notin> D \<and>
     (\<exists>th. thr k tid = Some th \<and> t_wake_state th \<in> {FUTEX_PARKED, FUTEX_CLAIMED} \<and> t_wait_key th = fk)"

definition deadline_entry_ok :: "kernel \<Rightarrow> nat \<Rightarrow> tdeadline_key \<Rightarrow> u64 \<Rightarrow> bool" where
  "deadline_entry_ok k i td tid \<longleftrightarrow> td_tid td = tid \<and> td_deadline td \<noteq> 0 \<and>
     (\<exists>th. thr k tid = Some th \<and> t_deadline th = td_deadline td \<and> t_deadline_cpu th = i)"

definition futex_inv :: "u64 set \<Rightarrow> u64 set \<Rightarrow> kernel \<Rightarrow> bool" where
  "futex_inv D E k \<longleftrightarrow> g_cpus k \<noteq> [] \<and> D \<inter> E = {} \<and>
     (\<forall>tid th. thr k tid = Some th \<longrightarrow> t_tid th = tid \<and> proc k (t_proc th) \<noteq> None \<and> thread_wait_ok D E k tid th) \<and>
     (\<forall>i fk tid. om_lookup (g_futex k i) fk = Some tid \<longrightarrow> bucket_entry_ok D k i fk tid) \<and>
     (\<forall>i td tid. i < length (g_cpus k) \<longrightarrow> om_lookup (c_deadlines (g_cpus k ! i)) td = Some tid \<longrightarrow>
        deadline_entry_ok k i td tid)"

definition futex_ok :: "kernel \<Rightarrow> bool" where
  "futex_ok k \<longleftrightarrow> futex_inv {} {} k"

lemma futex_invI:
  assumes "g_cpus k \<noteq> []" "D \<inter> E = {}"
    "\<And>tid th. thr k tid = Some th \<Longrightarrow> t_tid th = tid" "\<And>tid th. thr k tid = Some th \<Longrightarrow> proc k (t_proc th) \<noteq> None"
    "\<And>tid th. thr k tid = Some th \<Longrightarrow> thread_wait_ok D E k tid th"
    "\<And>i fk tid. om_lookup (g_futex k i) fk = Some tid \<Longrightarrow> bucket_entry_ok D k i fk tid"
    "\<And>i td tid. i < length (g_cpus k) \<Longrightarrow> om_lookup (c_deadlines (g_cpus k ! i)) td = Some tid \<Longrightarrow>
      deadline_entry_ok k i td tid"
  shows "futex_inv D E k"
  using assms by (simp add: futex_inv_def)

lemma futex_invD:
  assumes "futex_inv D E k"
  shows "g_cpus k \<noteq> []" "D \<inter> E = {}"
    "thr k tid = Some th \<Longrightarrow> t_tid th = tid" "thr k tid = Some th \<Longrightarrow> \<exists>p. proc k (t_proc th) = Some p"
    "thr k tid = Some th \<Longrightarrow> thread_wait_ok D E k tid th"
    "om_lookup (g_futex k i) fk = Some tid \<Longrightarrow> bucket_entry_ok D k i fk tid"
    "i < length (g_cpus k) \<Longrightarrow> om_lookup (c_deadlines (g_cpus k ! i)) td = Some tid \<Longrightarrow> deadline_entry_ok k i td tid"
  using assms by (auto simp: futex_inv_def)

section \<open>Waiters of an address\<close>

definition waiting :: "kernel \<Rightarrow> nat \<Rightarrow> u64 \<Rightarrow> u64 \<Rightarrow> (futex_key \<times> u64) list" where
  "waiting k bk addr next = filter (\<lambda>e. fk_address (fst e) = addr \<and> next \<le> fk_seq (fst e)) (om_entries (g_futex k bk))"

text \<open>The threads parked on an address, the longest-waiting first.\<close>

definition waiters :: "kernel \<Rightarrow> u64 \<Rightarrow> u64 list" where
  "waiters k addr = map snd (waiting k (bucket_of k addr) addr 0)"

lemma sorted_dropWhile_filter:
  assumes "sorted_wrt (<) (map fst xs)"
  shows "dropWhile (\<lambda>e. fst e < c) xs = filter (\<lambda>e. (c :: 'a :: linorder) \<le> fst e) xs"
  using assms
proof (induction xs)
  case (Cons x xs)
  show ?case
  proof (cases "fst x < c")
    case False
    then have "filter (\<lambda>e. c \<le> fst e) xs = xs"
      using Cons.prems by (auto simp: filter_id_conv)
    then show ?thesis using False by simp
  qed (use Cons in auto)
qed simp

lemma from_Nil_waiting:
  assumes "om_from (g_futex k bk) (Futex_Key addr next) = []"
  shows "waiting k bk addr next = []"
  using assms
  by (auto simp: om.from_ents sorted_dropWhile_filter [OF om.ents_sorted] waiting_def filter_empty_conv
      futex_key_le)

lemma from_other_waiting:
  assumes "om_from (g_futex k bk) (Futex_Key addr next) = (fk, t) # es" "fk_address fk \<noteq> addr"
  shows "waiting k bk addr next = []"
proof -
  let ?xs = "filter (\<lambda>e. Futex_Key addr next \<le> fst e) (om_entries (g_futex k bk))"
  have xs: "?xs = (fk, t) # es"
    using assms(1) by (simp add: om.from_ents sorted_dropWhile_filter [OF om.ents_sorted])
  have s: "sorted_wrt (<) (map fst ?xs)"
    using om.ents_sorted [of "g_futex k bk"] by (simp add: sorted_wrt_map sorted_wrt_filter)
  have lt: "addr < fk_address fk"
  proof -
    have "(fk, t) \<in> set ?xs" by (simp add: xs)
    then show ?thesis using assms(2) by (auto simp: futex_key_le)
  qed
  have "fk_address (fst e) \<noteq> addr" if "e \<in> set ?xs" for e
    using that s lt unfolding xs by (auto simp: futex_key_less)
  then show ?thesis by (auto simp: waiting_def filter_empty_conv futex_key_le)
qed

lemma from_head_waiting:
  assumes "om_from (g_futex k bk) (Futex_Key addr next) = (fk, t) # es" "fk_address fk = addr"
  shows "waiting k bk addr next = (fk, t) # filter (\<lambda>e. fk_address (fst e) = addr) es"
    "next \<le> fk_seq fk" "om_lookup (g_futex k bk) fk = Some t"
    "waiting (upd_bucket bk (om_remove fk) k) bk addr next = filter (\<lambda>e. fk_address (fst e) = addr) es"
    "e \<in> set es \<Longrightarrow> fk < fst e"
proof -
  let ?P = "\<lambda>e. Futex_Key addr next \<le> fst e"
  have xs: "filter ?P (om_entries (g_futex k bk)) = (fk, t) # es"
    using assms(1) by (simp add: om.from_ents sorted_dropWhile_filter [OF om.ents_sorted])
  have w: "waiting k bk addr next = filter (\<lambda>e. fk_address (fst e) = addr) (filter ?P (om_entries (g_futex k bk)))"
    by (auto simp: waiting_def futex_key_le intro!: filter_cong)
  show "waiting k bk addr next = (fk, t) # filter (\<lambda>e. fk_address (fst e) = addr) es"
    using assms(2) by (simp add: w xs)
  have mem: "(fk, t) \<in> set (filter ?P (om_entries (g_futex k bk)))" by (simp add: xs)
  then show "next \<le> fk_seq fk" using assms(2) by (auto simp: futex_key_le)
  show "om_lookup (g_futex k bk) fk = Some t" using mem by (simp add: om.lookup_iff)
  have s: "sorted_wrt (<) (map fst ((fk, t) # es))"
    using om.ents_sorted [of "g_futex k bk"] unfolding xs [symmetric] by (simp add: sorted_wrt_map sorted_wrt_filter)
  then show "e \<in> set es \<Longrightarrow> fk < fst e" by auto
  have "filter (\<lambda>e. fst e \<noteq> fk) (filter ?P (om_entries (g_futex k bk))) = es"
    unfolding xs using s by (auto simp: filter_id_conv)
  moreover have "waiting (upd_bucket bk (om_remove fk) k) bk addr next =
      filter (\<lambda>e. fk_address (fst e) = addr) (filter (\<lambda>e. fst e \<noteq> fk) (filter ?P (om_entries (g_futex k bk))))"
    by (auto simp: waiting_def upd_bucket_def om.ents_remove futex_key_le intro!: filter_cong)
  ultimately show "waiting (upd_bucket bk (om_remove fk) k) bk addr next = filter (\<lambda>e. fk_address (fst e) = addr) es"
    by simp
qed

lemma waiting_upd_thread [simp]: "waiting (upd_thread t f k) = waiting k"
  by (simp add: waiting_def upd_defs fun_eq_iff)

lemma waiting_next:
  assumes "waiting k bk addr next = ws" "\<And>e. e \<in> set ws \<Longrightarrow> m \<le> fk_seq (fst e)" "next \<le> m"
  shows "waiting k bk addr m = ws"
proof -
  have "waiting k bk addr m = filter (\<lambda>e. m \<le> fk_seq (fst e)) (waiting k bk addr next)"
    using assms(3) by (auto simp: waiting_def intro!: filter_cong)
  then show ?thesis using assms(1,2) by (simp add: filter_id_conv)
qed

lemma u64_Suc: "(a :: u64) \<noteq> - 1 \<Longrightarrow> unat (a + 1) = Suc (unat a)"
  by (metis add.commute add_eq_0_iff2 unatSuc)

lemma u64_Suc_le: "(a :: u64) \<noteq> - 1 \<Longrightarrow> a + 1 \<le> b \<longleftrightarrow> a < b"
  by (simp add: word_le_nat_alt word_less_nat_alt u64_Suc Suc_le_eq)

lemma waiting_ConsE:
  assumes "waiting k bk addr next = w # ws" "w = (fk, t)"
  obtains es where "om_from (g_futex k bk) (Futex_Key addr next) = (fk, t) # es" "fk_address fk = addr"
proof (cases "om_from (g_futex k bk) (Futex_Key addr next)")
  case Nil
  then show thesis using assms from_Nil_waiting by simp
next
  case (Cons e es)
  obtain fk' t' where e: "e = (fk', t')" by (cases e)
  have fa: "fk_address fk' = addr" using from_other_waiting [OF Cons [unfolded e]] assms(1) by auto
  then have "(fk', t') = (fk, t)" using from_head_waiting(1) [OF Cons [unfolded e]] assms by simp
  then show thesis using that Cons fa e by simp
qed

section \<open>Detaching\<close>

definition detach_entries :: "nat \<Rightarrow> (futex_key \<times> u64) list \<Rightarrow> kernel \<Rightarrow> kernel" where
  "detach_entries bk es k =
     fold (\<lambda>(fk, t) k. upd_bucket bk (om_remove fk) (upd_thread t (\<lambda>th. th\<lparr>t_wake_state := FUTEX_CLAIMED\<rparr>) k)) es k"

lemma detach_entries_Nil [simp]: "detach_entries bk [] k = k"
  by (simp add: detach_entries_def)

lemma detach_entries_Cons [simp]:
  "detach_entries bk ((fk, t) # es) k =
     detach_entries bk es (upd_bucket bk (om_remove fk) (upd_thread t (\<lambda>th. th\<lparr>t_wake_state := FUTEX_CLAIMED\<rparr>) k))"
  by (simp add: detach_entries_def)

lemma thr_upd_bucket [simp]: "thr (upd_bucket i f k) = thr k"
  by (simp add: upd_bucket_def)

lemma proc_upd_bucket [simp]: "proc (upd_bucket i f k) = proc k"
  by (simp add: upd_bucket_def)

lemma g_futex_upd_thread [simp]: "g_futex (upd_thread t f k) = g_futex k"
  by (simp add: upd_defs)

lemma detach_batch_eq:
  assumes "waiting k bk addr next = ws"
    "\<And>fk t. (fk, t) \<in> set ws \<Longrightarrow> fk_seq fk \<noteq> - 1 \<and> (\<exists>th. thr k t = Some th \<and> t_wake_state th = FUTEX_PARKED)"
    "distinct (map snd ws)" "n \<le> cap"
  shows "detach_batch bk addr cap n next k =
    Some (map snd (take (unat (cap - n)) ws), detach_entries bk (take (unat (cap - n)) ws) k)"
  using assms
proof (induction ws arbitrary: k n "next")
  case Nil
  show ?case
  proof (cases "om_from (g_futex k bk) (Futex_Key addr next)")
    case Nil
    then show ?thesis by (subst detach_batch.simps) simp
  next
    case (Cons e es)
    then have "fk_address (fst e) \<noteq> addr" using Nil.prems(1) from_head_waiting(1) by (metis list.distinct(1) prod.collapse)
    then show ?thesis using Cons by (subst detach_batch.simps) (simp add: case_prod_unfold)
  qed
next
  case (Cons w ws)
  show ?case
  proof (cases "n < cap")
    case False
    then have "n = cap" using Cons.prems(4) by simp
    then show ?thesis by (subst detach_batch.simps) simp
  next
    case True
    obtain fk t where w: "w = (fk, t)" by (cases w)
    obtain es where om: "om_from (g_futex k bk) (Futex_Key addr next) = (fk, t) # es" and fa: "fk_address fk = addr"
      using Cons.prems(1) w by (rule waiting_ConsE)
    note h = from_head_waiting [OF om fa]
    obtain th where th: "thr k t = Some th" "t_wake_state th = FUTEX_PARKED" and sq: "fk_seq fk \<noteq> - 1"
      using Cons.prems(2) w by auto
    let ?k = "upd_bucket bk (om_remove fk) (upd_thread t (\<lambda>th. th\<lparr>t_wake_state := FUTEX_CLAIMED\<rparr>) k)"
    have ws: "ws = filter (\<lambda>e. fk_address (fst e) = addr) es" using h(1) Cons.prems(1) w by simp
    have k: "waiting ?k bk addr (fk_seq fk + 1) = ws"
    proof (rule waiting_next)
      show "waiting ?k bk addr next = ws"
        using h(4) ws by (simp add: waiting_def upd_bucket_def upd_defs)
      show "next \<le> fk_seq fk + 1" using h(2) sq by (simp add: word_le_nat_alt u64_Suc)
      fix e assume "e \<in> set ws"
      then have "fk < fst e" "fk_address (fst e) = addr" using h(5) ws by auto
      then show "fk_seq fk + 1 \<le> fk_seq (fst e)" using fa sq by (simp add: u64_Suc_le futex_key_less)
    qed
    have c: "unat (cap - n) = Suc (unat (cap - (n + 1)))" "n + 1 \<le> cap"
    proof -
      show le: "n + 1 \<le> cap" using True by (rule inc_le)
      have "1 + n \<noteq> 0" using True by (metis add_eq_0_iff word_order.extremum_strict)
      then have "unat (n + 1) = Suc (unat n)" using unatSuc [of n] by (simp add: add.commute)
      then show "unat (cap - n) = Suc (unat (cap - (n + 1)))"
        using True le by (simp add: unat_sub unat_sub [OF order_less_imp_le] word_less_nat_alt)
    qed
    have p: "fk_seq f \<noteq> - 1 \<and> (\<exists>th. thr ?k u = Some th \<and> t_wake_state th = FUTEX_PARKED)" if "(f, u) \<in> set ws" for f u
    proof -
      have "u \<noteq> t" using that Cons.prems(3) w by force
      then show ?thesis using Cons.prems(2) [of f u] that by simp
    qed
    have "detach_batch bk addr cap (n + 1) (fk_seq fk + 1) ?k =
        Some (map snd (take (unat (cap - (n + 1))) ws), detach_entries bk (take (unat (cap - (n + 1))) ws) ?k)"
      using Cons.prems(3) by (intro Cons.IH k p c(2)) simp_all
    then show ?thesis
      using True om fa th h(3) by (subst detach_batch.simps) (simp add: w c)
  qed
qed

lemma bucket_of_cong [simp]:
  "bucket_of (upd_thread t f k) = bucket_of k" "bucket_of (upd_bucket i g k) = bucket_of k"
  "bucket_of (upd_cpu i c k) = bucket_of k" "bucket_of (k\<lparr>g_next_target := x\<rparr>) = bucket_of k"
  by (simp_all add: bucket_of_def fun_eq_iff upd_bucket_def upd_defs)

lemma upd_bucket_fields [simp]:
  "g_cpus (upd_bucket i f k) = g_cpus k" "g_futex_seq (upd_bucket i f k) = g_futex_seq k"
  "g_futex (upd_bucket i f k) = (g_futex k)(i := f (g_futex k i))"
  by (simp_all add: upd_bucket_def)

lemma upd_thread_fields [simp]:
  "g_cpus (upd_thread t f k) = g_cpus k" "g_futex_seq (upd_thread t f k) = g_futex_seq k"
  by (simp_all add: upd_defs)

lemma futex_inv_detach:
  assumes "futex_inv D E k" "om_lookup (g_futex k bk) fk = Some t" "thr k t = Some th" "t_wake_state th = FUTEX_PARKED"
  shows "futex_inv (insert t D) E (upd_bucket bk (om_remove fk) (upd_thread t (\<lambda>th. th\<lparr>t_wake_state := FUTEX_CLAIMED\<rparr>) k))"
    (is "futex_inv _ _ ?k")
proof (rule futex_invI)
  note inv = futex_invD [OF assms(1)]
  have e: "bk = bucket_of k (fk_address fk)" "t_wait_key th = fk" "t \<notin> D"
    using inv(6) [OF assms(2)] assms(3) by (auto simp: bucket_entry_ok_def)
  have tE: "t \<notin> E" using inv(5) [OF assms(3)] assms(4) by (auto simp: thread_wait_ok_def)
  show "g_cpus ?k \<noteq> []" "insert t D \<inter> E = {}" using inv(1,2) tE by simp_all
  fix tid th' assume a: "thr ?k tid = Some th'"
  show "t_tid th' = tid" "proc ?k (t_proc th') \<noteq> None"
    using a inv(3,4) by (auto split: if_splits)
  show "thread_wait_ok (insert t D) E ?k tid th'"
  proof (cases "tid = t")
    case True
    then show ?thesis using a assms(3,4) inv(5) [OF assms(3)] tE
      by (auto simp: thread_wait_ok_def deadline_armed_def)
  next
    case False
    then show ?thesis using a inv(5) [of tid th'] assms(2)
      by (auto simp: thread_wait_ok_def deadline_armed_def bucket_linked_def split: if_splits)
  qed
next
  note inv = futex_invD [OF assms(1)]
  fix i fk' tid assume "om_lookup (g_futex ?k i) fk' = Some tid"
  then have l: "om_lookup (g_futex k i) fk' = Some tid" "(i, fk') \<noteq> (bk, fk)" by (auto split: if_splits)
  then show "bucket_entry_ok (insert t D) ?k i fk' tid"
    using inv(6) [OF l(1)] inv(6) [OF assms(2)] assms(3) by (auto simp: bucket_entry_ok_def)
next
  fix i td tid assume "i < length (g_cpus ?k)" "om_lookup (c_deadlines (g_cpus ?k ! i)) td = Some tid"
  then show "deadline_entry_ok ?k i td tid"
    using futex_invD(7) [OF assms(1), of i td tid] by (auto simp: deadline_entry_ok_def)
qed

section \<open>Releasing\<close>

text \<open>
  What a wake may touch: the thread, bucket and processor tables and the enqueue cursor; of a processor only
  its run queue, deadline tree, programmed shot and interrupt count.
\<close>

definition cpu_core :: "cpu \<Rightarrow> cpu" where
  "cpu_core c = c\<lparr>c_queue := [], c_deadlines := om_empty, c_shot := None, c_ipis := 0\<rparr>"

definition sched_frame :: "kernel \<Rightarrow> kernel \<Rightarrow> bool" where
  "sched_frame k k' \<longleftrightarrow> map cpu_core (g_cpus k') = map cpu_core (g_cpus k) \<and>
     k' = k\<lparr>g_threads := g_threads k', g_futex := g_futex k', g_cpus := g_cpus k', g_next_target := g_next_target k'\<rparr>"

definition run_queued :: "kernel \<Rightarrow> u64 multiset" where
  "run_queued k = sum_list (map (\<lambda>c. mset (c_queue c)) (g_cpus k))"

definition wake_thread :: "kernel \<Rightarrow> u64 \<Rightarrow> thread \<Rightarrow> thread" where
  "wake_thread k res th =
     (if eff_dead k (t_proc th) then th\<lparr>t_deadline := 0, t_wake_state := FUTEX_REAPABLE\<rparr>
      else th\<lparr>t_deadline := 0, t_rax := res, t_status := THREAD_RUNNABLE, t_wake_state := FUTEX_IDLE\<rparr>)"

definition thread_live :: "kernel \<Rightarrow> u64 \<Rightarrow> bool" where
  "thread_live k t \<longleftrightarrow> (\<exists>th. thr k t = Some th \<and> \<not> eff_dead k (t_proc th))"

lemma sched_frame_refl [simp]: "sched_frame k k"
  by (simp add: sched_frame_def)

lemma sched_frame_trans: "sched_frame k k' \<Longrightarrow> sched_frame k' k'' \<Longrightarrow> sched_frame k k''"
  unfolding sched_frame_def by (cases k; cases k'; cases k'') simp

lemma sched_frame_proc: "sched_frame k k' \<Longrightarrow> proc k' = proc k"
  by (cases k; cases k') (simp add: sched_frame_def proc_def fun_eq_iff)

lemma sched_frame_upd_thread [simp]: "sched_frame k (upd_thread t f k)"
  by (simp add: sched_frame_def upd_defs)

lemma sched_frame_upd_bucket [simp]: "sched_frame k (upd_bucket i f k)"
  by (simp add: sched_frame_def upd_bucket_def)

lemma map_update_same: "(\<And>x. g (f x) = g x) \<Longrightarrow> map g (xs[i := f (xs ! i)]) = map g xs"
  by (induction xs arbitrary: i) (auto split: nat.splits)

lemma sched_frame_upd_cpu [intro]:
  "(\<And>c. cpu_core (f c) = cpu_core c) \<Longrightarrow> sched_frame k (upd_cpu i f k)"
  by (simp add: sched_frame_def upd_defs map_update_same)

lemma ptree_ok_cong: "proc k' = proc k \<Longrightarrow> ptree_ok k' = ptree_ok k"
  by (simp add: ptree_ok_def)

lemma eff_dead_cong: "proc k' = proc k \<Longrightarrow> eff_dead k' = eff_dead k"
  by (simp add: eff_dead_def par_def fun_eq_iff)

lemma cancel_ok:
  assumes "futex_inv D E k" "t \<in> D" "thr k t = Some th"
  obtains k' where "timer_deadline_cancel t k = Some k'" "futex_inv D E k'" "sched_frame k k'"
    "thr k' = (thr k)(t \<mapsto> th\<lparr>t_deadline := 0\<rparr>)" "run_queued k' = run_queued k" "g_futex k' = g_futex k"
proof (cases "t_deadline th = 0")
  case True
  then have "th\<lparr>t_deadline := 0\<rparr> = th" by simp
  then show thesis using that [of k] True assms by (simp add: timer_deadline_cancel_def fun_upd_idem)
next
  case False
  note inv = futex_invD [OF assms(1)]
  define k' where "k' = upd_thread t (\<lambda>th. th\<lparr>t_deadline := 0\<rparr>) (upd_cpu (t_deadline_cpu th)
      (\<lambda>c. c\<lparr>c_deadlines := om_remove (Tdeadline_Key (t_deadline th) t) (c_deadlines c)\<rparr>) k)"
  have i: "t_deadline_cpu th < length (g_cpus k)"
    "om_lookup (c_deadlines (g_cpus k ! t_deadline_cpu th)) (Tdeadline_Key (t_deadline th) t) = Some t"
    using inv(5) [OF assms(3)] False by (auto simp: thread_wait_ok_def deadline_armed_def)
  have thr: "thr k' = (thr k)(t \<mapsto> th\<lparr>t_deadline := 0\<rparr>)" using assms(3) by (simp add: fun_eq_iff k'_def)
  have fu: "g_futex k' = g_futex k" "g_futex_seq k' = g_futex_seq k" "proc k' = proc k" "length (g_cpus k') = length (g_cpus k)"
      "bucket_of k' = bucket_of k"
    by (simp_all add: upd_defs fun_eq_iff proc_def k'_def bucket_of_def)
  have dl: "om_lookup (c_deadlines (g_cpus k' ! j)) td =
      (if j = t_deadline_cpu th \<and> td = Tdeadline_Key (t_deadline th) t then None else om_lookup (c_deadlines (g_cpus k ! j)) td)" for j td
    using i(1) by (simp add: upd_defs nth_list_update k'_def)
  have "futex_inv D E k'"
  proof (rule futex_invI)
    show "g_cpus k' \<noteq> []" "D \<inter> E = {}" using inv(1,2) fu(4) by auto
    fix tid th' assume a: "thr k' tid = Some th'"
    show "t_tid th' = tid" "proc k' (t_proc th') \<noteq> None"
      using a inv(3,4) assms(3) unfolding thr fu by (auto split: if_splits)
    show "thread_wait_ok D E k' tid th'"
    proof (cases "tid = t")
      case True
      then show ?thesis using a inv(5) [OF assms(3)] inv(2) assms(2)
        by (auto simp: thread_wait_ok_def bucket_linked_def thr)
    next
      case False
      then show ?thesis using a inv(5) [of tid th']
        by (auto simp: thread_wait_ok_def deadline_armed_def bucket_linked_def thr dl fu)
    qed
  next
    fix i fk tid assume "om_lookup (g_futex k' i) fk = Some tid"
    then show "bucket_entry_ok D k' i fk tid"
      using inv(6) [of i fk tid] assms(2) by (auto simp: bucket_entry_ok_def thr fu)
  next
    fix i td tid assume "i < length (g_cpus k')" "om_lookup (c_deadlines (g_cpus k' ! i)) td = Some tid"
    then show "deadline_entry_ok k' i td tid"
      using inv(7) [of i td tid] assms(3) by (cases td) (auto simp: deadline_entry_ok_def thr dl fu split: if_splits)
  qed
  moreover have "run_queued k' = run_queued k"
    using i(1) by (simp add: run_queued_def upd_defs map_update_same k'_def)
  moreover have "sched_frame k k'"
    unfolding k'_def by (rule sched_frame_trans [OF sched_frame_upd_cpu sched_frame_upd_thread]) (simp add: cpu_core_def)
  ultimately show thesis using that [of k'] False i(1) assms(3) thr fu(1)
    by (simp add: timer_deadline_cancel_def cpu_of_def k'_def)
qed

lemma futex_inv_release:
  assumes "futex_inv D E k" "t \<in> D" "thr k t = Some th" "t_deadline th = 0"
    "t_wake_state th' \<in> {FUTEX_IDLE, FUTEX_REAPABLE}" "t_deadline th' = 0" "t_tid th' = t_tid th" "t_proc th' = t_proc th"
    "proc k' = proc k" "g_futex k' = g_futex k" "g_futex_seq k' = g_futex_seq k" "bucket_of k' = bucket_of k"
    "thr k' = (thr k)(t \<mapsto> th')" "map c_deadlines (g_cpus k') = map c_deadlines (g_cpus k)"
  shows "futex_inv (D - {t}) E k'"
proof (rule futex_invI)
  note inv = futex_invD [OF assms(1)]
  note fr = assms(9-13)
  have len: "length (g_cpus k') = length (g_cpus k)" using assms(14) by (metis length_map)
  have dl: "c_deadlines (g_cpus k' ! j) = c_deadlines (g_cpus k ! j)" if "j < length (g_cpus k)" for j
    using assms(14) that len by (metis nth_map)
  show "g_cpus k' \<noteq> []" "(D - {t}) \<inter> E = {}" using inv(1,2) len by auto
  fix tid u assume a: "thr k' tid = Some u"
  show "t_tid u = tid" "proc k' (t_proc u) \<noteq> None"
    using a inv(3,4) assms(3,7,8) by (auto simp: fr split: if_splits)
  show "thread_wait_ok (D - {t}) E k' tid u"
  proof (cases "tid = t")
    case True
    then show ?thesis using a assms(2,5,6) inv(2) by (auto simp: thread_wait_ok_def fr)
  next
    case False
    then show ?thesis using a inv(5) [of tid u]
      by (auto simp: thread_wait_ok_def bucket_linked_def deadline_armed_def fr len dl)
  qed
next
  note inv = futex_invD [OF assms(1)]
  fix i fk tid assume "om_lookup (g_futex k' i) fk = Some tid"
  then show "bucket_entry_ok (D - {t}) k' i fk tid"
    using inv(6) [of i fk tid] assms(2) by (auto simp: bucket_entry_ok_def assms(9-13))
next
  note inv = futex_invD [OF assms(1)]
  fix i td tid assume a: "i < length (g_cpus k')" "om_lookup (c_deadlines (g_cpus k' ! i)) td = Some tid"
  have "i < length (g_cpus k)" "c_deadlines (g_cpus k' ! i) = c_deadlines (g_cpus k ! i)"
    using a(1) assms(14) by (metis length_map, metis length_map nth_map)
  then show "deadline_entry_ok k' i td tid"
    using inv(7) [of i td tid] a(2) assms(3,4) by (auto simp: deadline_entry_ok_def assms(13))
qed

lemma sum_list_update_mset:
  "i < length xs \<Longrightarrow> (\<And>x. f (g x) = f x + (a :: 'a multiset)) \<Longrightarrow>
     sum_list (map f (xs[i := g (xs ! i)])) = sum_list (map f xs) + a"
  by (induction xs arbitrary: i) (auto simp: algebra_simps split: nat.splits)

lemma enqueue_ok:
  assumes "g_cpus k \<noteq> []"
  obtains k' where "scheduler_enqueue t k = Some k'" "sched_frame k k'" "thr k' = thr k" "g_futex k' = g_futex k"
    "run_queued k' = run_queued k + {#t#}" "map c_deadlines (g_cpus k') = map c_deadlines (g_cpus k)"
proof -
  define i where "i = unat (g_next_target k) mod length (g_cpus k)"
  have i: "i < length (g_cpus k)" using assms by (simp add: i_def)
  define k1 where "k1 = scheduler_push_local i t (k\<lparr>g_next_target := g_next_target k + 1\<rparr>)"
  define k2 where "k2 = (if c_idle (g_cpus k1 ! i) then upd_cpu i (\<lambda>c. c\<lparr>c_ipis := c_ipis c + 1\<rparr>) k1 else k1)"
  have e: "scheduler_enqueue t k = Some k2" using assms by (simp add: scheduler_enqueue_def Let_def k2_def k1_def i_def)
  have r1: "run_queued k1 = run_queued k + {#t#}"
    using sum_list_update_mset [OF i, of "\<lambda>c. mset (c_queue c)" "\<lambda>c. c\<lparr>c_queue := c_queue c @ [t]\<rparr>" "{#t#}"]
    by (simp add: run_queued_def k1_def scheduler_push_local_def upd_defs)
  have r2: "run_queued k2 = run_queued k1"
    by (simp add: run_queued_def k2_def upd_defs map_update_same)
  have "map c_deadlines (g_cpus k1) = map c_deadlines (g_cpus k)"
    by (simp add: k1_def scheduler_push_local_def upd_defs map_update_same)
  then have d: "map c_deadlines (g_cpus k2) = map c_deadlines (g_cpus k)"
    by (simp add: k2_def upd_defs map_update_same)
  have t: "thr k2 = thr k" "g_futex k2 = g_futex k"
    by (simp_all add: k2_def k1_def scheduler_push_local_def upd_defs)
  have "sched_frame k (k\<lparr>g_next_target := g_next_target k + 1\<rparr>)" by (simp add: sched_frame_def)
  moreover have "sched_frame (k\<lparr>g_next_target := g_next_target k + 1\<rparr>) k1"
    unfolding k1_def scheduler_push_local_def by (rule sched_frame_upd_cpu) (simp add: cpu_core_def)
  moreover have "sched_frame k1 k2"
    unfolding k2_def by (auto simp: cpu_core_def)
  ultimately have f: "sched_frame k k2" by (blast intro: sched_frame_trans)
  show thesis by (rule that [OF e f t _ d]) (simp add: r1 r2)
qed

lemma sched_frame_fields:
  assumes "sched_frame k k'"
  shows "g_futex_seq k' = g_futex_seq k" "bucket_of k' = bucket_of k" "g_mem k' = g_mem k" "block k' = block k"
    "g_oom k' = g_oom k" "g_this_cpu k' = g_this_cpu k" "g_clock k' = g_clock k" "length (g_cpus k') = length (g_cpus k)"
  using assms by (cases k; cases k'; simp add: sched_frame_def bucket_of_def fun_eq_iff block_def; metis length_map)+

lemma finish_claimed_ok:
  assumes "futex_inv D E k" "ptree_ok k" "t \<in> D" "thr k t = Some th"
  obtains k' where "finish_claimed t res k = Some k'" "futex_inv (D - {t}) E k'" "sched_frame k k'"
    "thr k' = (thr k)(t \<mapsto> wake_thread k res th)" "g_futex k' = g_futex k"
    "run_queued k' = run_queued k + (if thread_live k t then {#t#} else {#})"
proof -
  obtain k1 where k1: "timer_deadline_cancel t k = Some k1" "futex_inv D E k1" "sched_frame k k1"
    "thr k1 = (thr k)(t \<mapsto> th\<lparr>t_deadline := 0\<rparr>)" "run_queued k1 = run_queued k" "g_futex k1 = g_futex k"
    by (rule cancel_ok [OF assms(1,3,4)])
  have pr: "proc k1 = proc k" by (rule sched_frame_proc [OF k1(3)])
  obtain p where p: "proc k1 (t_proc th) = Some p" using futex_invD(4) [OF assms(1,4)] pr by auto
  have dead: "process_is_dead k1 (Some (t_proc th)) = Some (eff_dead k (t_proc th))"
    using is_dead_eq [OF _ p] assms(2) ptree_ok_cong [OF pr] eff_dead_cong [OF pr] by simp
  have t1: "thr k1 t = Some (th\<lparr>t_deadline := 0\<rparr>)" using k1(4) by simp
  have w: "t_status th = THREAD_BLOCKED" "\<not> t_on_cpu th" "t_wake_state th = FUTEX_CLAIMED"
    using futex_invD(5) [OF assms(1,4)] assms(3) by (auto simp: thread_wait_ok_def)
  note frame = sched_frame_trans [OF k1(3)]
  show thesis
  proof (cases "eff_dead k (t_proc th)")
    case True
    let ?k = "upd_thread t (\<lambda>th. th\<lparr>t_wake_state := FUTEX_REAPABLE\<rparr>) k1"
    have thr: "thr ?k = (thr k1)(t \<mapsto> wake_thread k res th)"
      using True t1 by (simp add: fun_eq_iff wake_thread_def)
    have "futex_inv (D - {t}) E ?k"
      by (rule futex_inv_release [OF k1(2) assms(3) t1, where th' = "wake_thread k res th"])
        (use True thr in \<open>simp_all add: wake_thread_def fun_eq_iff\<close>)
    moreover have "finish_claimed t res k = Some ?k" using True k1(1) dead t1 by (simp add: finish_claimed_def)
    moreover have "run_queued ?k = run_queued k + (if thread_live k t then {#t#} else {#})"
      using k1(5) True assms(4) by (simp add: thread_live_def run_queued_def)
    ultimately show thesis using that [of ?k] frame thr k1(4,6) by simp
  next
    case False
    let ?k = "upd_thread t (\<lambda>th. th\<lparr>t_status := THREAD_RUNNABLE, t_wake_state := FUTEX_IDLE\<rparr>)
        (upd_thread t (\<lambda>th. th\<lparr>t_rax := res\<rparr>) k1)"
    have f: "sched_frame k1 ?k" by (rule sched_frame_trans [OF sched_frame_upd_thread sched_frame_upd_thread])
    have c: "g_cpus ?k = g_cpus k1" by simp
    have nz: "g_cpus ?k \<noteq> []" using futex_invD(1) [OF k1(2)] by simp
    obtain k2 where k2: "scheduler_enqueue t ?k = Some k2" "sched_frame ?k k2" "thr k2 = thr ?k" "g_futex k2 = g_futex ?k"
      "run_queued k2 = run_queued ?k + {#t#}" "map c_deadlines (g_cpus k2) = map c_deadlines (g_cpus ?k)"
      by (rule enqueue_ok [OF nz])
    have f2: "sched_frame k1 k2" by (rule sched_frame_trans [OF f k2(2)])
    have thr: "thr k2 = (thr k1)(t \<mapsto> wake_thread k res th)"
      using False t1 k2(3) by (simp add: fun_eq_iff wake_thread_def)
    have "futex_inv (D - {t}) E k2"
      by (rule futex_inv_release [OF k1(2) assms(3) t1, where th' = "wake_thread k res th"])
        (use False thr k2(4,6) c sched_frame_fields [OF f2] sched_frame_proc [OF f2] in \<open>simp_all add: wake_thread_def\<close>)
    moreover have "finish_claimed t res k = Some k2"
      using False k1(1) dead t1 w k2(1)
      by (simp add: finish_claimed_def thread_unblock_claimed_def thread_deliver_wait_result_def)
    moreover have "run_queued k2 = run_queued k + (if thread_live k t then {#t#} else {#})"
      using k1(5) k2(5) False assms(4) by (simp add: thread_live_def run_queued_def)
    ultimately show thesis using that [of k2] frame [OF f2] thr k1(4,6) k2(4) by simp
  qed
qed

definition wake_all :: "kernel \<Rightarrow> u64 \<Rightarrow> u64 list \<Rightarrow> u64 \<Rightarrow> thread option" where
  "wake_all k res ts t = (if t \<in> set ts then map_option (wake_thread k res) (thr k t) else thr k t)"

lemma wake_thread_cong: "proc k' = proc k \<Longrightarrow> wake_thread k' = wake_thread k"
  using eff_dead_cong [of k' k] by (intro ext) (simp add: wake_thread_def)

lemma wake_thread_proc [simp]: "t_proc (wake_thread k res th) = t_proc th"
  by (simp add: wake_thread_def)

lemma finish_batch_ok:
  assumes "futex_inv D E k" "ptree_ok k" "set ts \<subseteq> D" "distinct ts" "\<And>t. t \<in> set ts \<Longrightarrow> thr k t \<noteq> None"
  shows "\<exists>k'. finish_batch ts res k = Some k' \<and> futex_inv (D - set ts) E k' \<and> sched_frame k k' \<and>
    thr k' = wake_all k res ts \<and> g_futex k' = g_futex k \<and>
    run_queued k' = run_queued k + mset (filter (thread_live k) ts)"
  using assms
proof (induction ts arbitrary: D k)
  case Nil
  then show ?case by (simp add: wake_all_def fun_eq_iff)
next
  case (Cons t ts)
  obtain th where th: "thr k t = Some th" using Cons.prems(5) by fastforce
  have "t \<in> D" using Cons.prems(3) by simp
  then obtain k1 where k1: "finish_claimed t res k = Some k1" "futex_inv (D - {t}) E k1" "sched_frame k k1"
    "thr k1 = (thr k)(t \<mapsto> wake_thread k res th)" "g_futex k1 = g_futex k"
    "run_queued k1 = run_queued k + (if thread_live k t then {#t#} else {#})"
    by (rule finish_claimed_ok [OF Cons.prems(1,2) _ th])
  have pr: "proc k1 = proc k" by (rule sched_frame_proc [OF k1(3)])
  have ts: "set ts \<subseteq> D - {t}" "distinct ts" "t \<notin> set ts" using Cons.prems(3,4) by auto
  have ex: "thr k1 u \<noteq> None" if "u \<in> set ts" for u using that Cons.prems(5) k1(4) by auto
  have "ptree_ok k1" using Cons.prems(2) ptree_ok_cong [OF pr] by simp
  from Cons.IH [OF k1(2) this ts(1,2) ex]
  obtain k2 where k2: "finish_batch ts res k1 = Some k2" "futex_inv (D - {t} - set ts) E k2" "sched_frame k1 k2"
    "thr k2 = wake_all k1 res ts" "g_futex k2 = g_futex k1"
    "run_queued k2 = run_queued k1 + mset (filter (thread_live k1) ts)" by blast
  have "filter (thread_live k1) ts = filter (thread_live k) ts"
    using ts(3) k1(4) by (intro filter_cong) (auto simp: thread_live_def eff_dead_cong [OF pr])
  moreover have "wake_all k1 res ts = wake_all k res (t # ts)"
    using ts(3) th by (auto simp: wake_all_def fun_eq_iff k1(4) wake_thread_cong [OF pr])
  moreover have "D - {t} - set ts = D - set (t # ts)" by auto
  ultimately show ?case
    using k1 k2 sched_frame_trans [OF k1(3) k2(3)] by simp
qed

definition detached :: "nat \<Rightarrow> (futex_key \<times> u64) list \<Rightarrow> kernel \<Rightarrow> kernel \<Rightarrow> bool" where
  "detached bk es k k' \<longleftrightarrow> sched_frame k k' \<and> run_queued k' = run_queued k \<and>
     (\<forall>t. thr k' t =
       (if t \<in> snd ` set es then map_option (\<lambda>th. th\<lparr>t_wake_state := FUTEX_CLAIMED\<rparr>) (thr k t) else thr k t)) \<and>
     (\<forall>i. i \<noteq> bk \<longrightarrow> g_futex k' i = g_futex k i) \<and>
     om_entries (g_futex k' bk) = filter (\<lambda>e. fst e \<notin> fst ` set es) (om_entries (g_futex k bk))"

lemma detached_Nil: "detached bk [] k k"
  by (simp add: detached_def)

lemma detached_Cons:
  assumes "detached bk es (upd_bucket bk (om_remove fk) (upd_thread t (\<lambda>th. th\<lparr>t_wake_state := FUTEX_CLAIMED\<rparr>) k)) k'"
    (is "detached _ _ ?k _") and "t \<notin> snd ` set es"
  shows "detached bk ((fk, t) # es) k k'"
proof -
  have f: "sched_frame k ?k" by (rule sched_frame_trans [OF sched_frame_upd_thread sched_frame_upd_bucket])
  have d: "sched_frame ?k k'" "run_queued k' = run_queued ?k"
    "\<And>u. thr k' u = (if u \<in> snd ` set es then map_option (\<lambda>th. th\<lparr>t_wake_state := FUTEX_CLAIMED\<rparr>) (thr ?k u) else thr ?k u)"
    "\<And>i. i \<noteq> bk \<Longrightarrow> g_futex k' i = g_futex ?k i"
    "om_entries (g_futex k' bk) = filter (\<lambda>e. fst e \<notin> fst ` set es) (om_entries (g_futex ?k bk))"
    using assms(1) unfolding detached_def by blast+
  have "sched_frame k k'" by (rule sched_frame_trans [OF f d(1)])
  moreover have "run_queued k' = run_queued k" using d(2) by (simp add: run_queued_def)
  moreover have "thr k' u = (if u \<in> snd ` set ((fk, t) # es)
      then map_option (\<lambda>th. th\<lparr>t_wake_state := FUTEX_CLAIMED\<rparr>) (thr k u) else thr k u)" for u
    using d(3) [of u] assms(2) by (simp split: if_splits)
  moreover have "g_futex k' i = g_futex k i" if "i \<noteq> bk" for i using d(4) [OF that] that by simp
  moreover have "om_entries (g_futex k' bk) = filter (\<lambda>e. fst e \<notin> fst ` set ((fk, t) # es)) (om_entries (g_futex k bk))"
    using d(5) by (simp add: om.ents_remove)
  ultimately show ?thesis unfolding detached_def by blast
qed

lemma detach_entries_ok:
  assumes "futex_inv D E k" "\<And>fk t. (fk, t) \<in> set es \<Longrightarrow> om_lookup (g_futex k bk) fk = Some t"
    "\<And>fk t. (fk, t) \<in> set es \<Longrightarrow> \<exists>th. thr k t = Some th \<and> t_wake_state th = FUTEX_PARKED"
    "distinct (map fst es)" "distinct (map snd es)"
  shows "futex_inv (D \<union> snd ` set es) E (detach_entries bk es k) \<and> detached bk es k (detach_entries bk es k)"
  using assms
proof (induction es arbitrary: D k)
  case Nil
  then show ?case by (simp add: detached_Nil)
next
  case (Cons e es)
  obtain fk t where e: "e = (fk, t)" by (cases e)
  obtain th where th: "thr k t = Some th" "t_wake_state th = FUTEX_PARKED" using Cons.prems(3) e by auto
  let ?k = "upd_bucket bk (om_remove fk) (upd_thread t (\<lambda>th. th\<lparr>t_wake_state := FUTEX_CLAIMED\<rparr>) k)"
  have ne: "fk' \<noteq> fk \<and> t' \<noteq> t" if "(fk', t') \<in> set es" for fk' t'
    using that Cons.prems(4,5) e by force
  have inv: "futex_inv (insert t D) E ?k"
    using Cons.prems(2) e th by (intro futex_inv_detach [OF Cons.prems(1) _ th]) simp
  have pre: "om_lookup (g_futex ?k bk) fk' = Some t'" "\<exists>th. thr ?k t' = Some th \<and> t_wake_state th = FUTEX_PARKED"
    if "(fk', t') \<in> set es" for fk' t'
    using ne [OF that] that Cons.prems(2) [of fk' t'] Cons.prems(3) [of fk' t'] by simp_all
  have IH: "futex_inv (insert t D \<union> snd ` set es) E (detach_entries bk es ?k) \<and> detached bk es ?k (detach_entries bk es ?k)"
    by (rule Cons.IH [OF inv]) (use pre Cons.prems(4,5) in simp_all)
  have "t \<notin> snd ` set es" using ne by force
  then have "detached bk (e # es) k (detach_entries bk (e # es) k)" using detached_Cons IH e by simp
  then show ?case using IH e by simp
qed

section \<open>Waking\<close>

lemma filter_take_drop:
  "distinct (map fst xs) \<Longrightarrow> filter (\<lambda>e. fst e \<notin> fst ` set (take n xs)) xs = drop n xs"
proof (induction xs arbitrary: n)
  case (Cons x xs)
  have "fst e \<noteq> fst x" if "e \<in> set xs" for e
    using that Cons.prems by (metis distinct.simps(2) image_eqI list.set_map list.simps(9))
  then have "filter (\<lambda>e. fst e \<notin> insert (fst x) (fst ` set (take m xs))) xs = filter (\<lambda>e. fst e \<notin> fst ` set (take m xs)) xs" for m
    by (intro filter_cong) auto
  then show ?case using Cons by (cases n) auto
qed simp

lemma waiting_entry:
  assumes "futex_inv D E k" "(fk, t) \<in> set (waiting k bk addr next)"
  shows "om_lookup (g_futex k bk) fk = Some t" "fk_address fk = addr" "fk_seq fk < g_futex_seq k" "t \<notin> D"
    "\<exists>th. thr k t = Some th \<and> t_wake_state th \<in> {FUTEX_PARKED, FUTEX_CLAIMED} \<and> t_wait_key th = fk"
proof -
  show l: "om_lookup (g_futex k bk) fk = Some t" and "fk_address fk = addr"
    using assms(2) by (auto simp: waiting_def om.lookup_iff)
  show "fk_seq fk < g_futex_seq k" "t \<notin> D"
    "\<exists>th. thr k t = Some th \<and> t_wake_state th \<in> {FUTEX_PARKED, FUTEX_CLAIMED} \<and> t_wait_key th = fk"
    using futex_invD(6) [OF assms(1) l] by (auto simp: bucket_entry_ok_def)
qed

lemma waiting_parked:
  assumes "futex_inv D {} k" "(fk, t) \<in> set (waiting k bk addr next)"
  shows "\<exists>th. thr k t = Some th \<and> t_wake_state th = FUTEX_PARKED"
proof -
  obtain th where th: "thr k t = Some th" "t \<notin> D" using waiting_entry(4,5) [OF assms] by auto
  then show ?thesis
    using futex_invD(5) [OF assms(1) th(1)] waiting_entry(5) [OF assms] by (auto simp: thread_wait_ok_def)
qed

lemma waiting_distinct_fst: "distinct (map fst (waiting k bk addr next))"
  using om.ents_sorted [of "g_futex k bk"] unfolding waiting_def
  by (intro distinct_map_filter) (simp add: strict_sorted_iff)

lemma waiting_distinct_snd:
  assumes "futex_inv D E k"
  shows "distinct (map snd (waiting k bk addr next))"
proof -
  have "inj_on snd (set (waiting k bk addr next))"
  proof (rule inj_onI)
    fix x y assume a: "x \<in> set (waiting k bk addr next)" "y \<in> set (waiting k bk addr next)" "snd x = snd y"
    have "(fst x, snd x) \<in> set (waiting k bk addr next)" "(fst y, snd y) \<in> set (waiting k bk addr next)"
      using a(1,2) by simp_all
    note x = this [THEN waiting_entry(5) [OF assms]]
    have "fst x = fst y" using x a(3) by auto
    then show "x = y" using a(3) by (rule prod_eqI)
  qed
  moreover have "distinct (waiting k bk addr next)" using waiting_distinct_fst distinct_map by blast
  ultimately show ?thesis by (simp add: distinct_map)
qed

lemma waiting_filter:
  assumes "om_entries (g_futex k' bk) = filter Q (om_entries (g_futex k bk))"
  shows "waiting k' bk addr next = filter Q (waiting k bk addr next)"
  using assms by (simp add: waiting_def conj_commute conj_left_commute)

lemma waiters_detached:
  assumes d: "detached bk (take n (waiting k bk addr 0)) k k1" and bk: "bk = bucket_of k addr" and k': "g_futex k' = g_futex k1" "bucket_of k' = bucket_of k"
  shows "waiters k' addr = drop n (waiters k addr)" "a \<noteq> addr \<Longrightarrow> waiters k' a = waiters k a"
proof -
  let ?ws = "waiting k bk addr 0"
  have e: "om_entries (g_futex k' bk) = filter (\<lambda>e. fst e \<notin> fst ` set (take n ?ws)) (om_entries (g_futex k bk))"
    and o: "i \<noteq> bk \<Longrightarrow> g_futex k' i = g_futex k i" for i
    using d unfolding detached_def k'(1) by blast+
  show "waiters k' addr = drop n (waiters k addr)"
    using waiting_filter [OF e] filter_take_drop [OF waiting_distinct_fst, of n] bk
    by (simp add: waiters_def k'(2) drop_map)
  assume a: "a \<noteq> addr"
  show "waiters k' a = waiters k a"
  proof (cases "bucket_of k a = bk")
    case True
    have "fst e \<notin> fst ` set (take n ?ws)" if "e \<in> set (waiting k bk a 0)" for e
      using that a by (auto simp: waiting_def dest!: in_set_takeD)
    then show ?thesis using waiting_filter [OF e, of a 0] True
      by (simp add: waiters_def k'(2) filter_id_conv)
  next
    case False
    then show ?thesis using o by (simp add: waiters_def k'(2) waiting_def)
  qed
qed

lemma wake_ok:
  assumes "futex_ok k" "ptree_ok k"
  obtains k1 k' where "detach_batch (bucket_of k addr) addr cap 0 0 k = Some (take (unat cap) (waiters k addr), k1)"
    "finish_batch (take (unat cap) (waiters k addr)) res k1 = Some k'"
    "futex_ok k'" "sched_frame k k'" "waiters k' addr = drop (unat cap) (waiters k addr)"
    "\<And>a. a \<noteq> addr \<Longrightarrow> waiters k' a = waiters k a" "thr k' = wake_all k res (take (unat cap) (waiters k addr))"
    "run_queued k' = run_queued k + mset (filter (thread_live k) (take (unat cap) (waiters k addr)))"
proof -
  let ?bk = "bucket_of k addr" and ?ts = "take (unat cap) (waiters k addr)"
  define es where "es = take (unat cap) (waiting k ?bk addr 0)"
  define k1 where "k1 = detach_entries ?bk es k"
  have inv: "futex_inv {} {} k" using assms(1) by (simp add: futex_ok_def)
  have ts: "map snd es = ?ts" by (simp add: es_def waiters_def take_map)
  have sub: "e \<in> set es \<Longrightarrow> e \<in> set (waiting k ?bk addr 0)" for e by (auto simp: es_def dest: in_set_takeD)
  have dis: "distinct (map fst es)" "distinct (map snd es)"
    using waiting_distinct_fst waiting_distinct_snd [OF inv] by (simp_all add: es_def take_map [symmetric])
  have seq: "fk_seq fk \<noteq> - 1" if "(fk, t) \<in> set (waiting k ?bk addr 0)" for fk t
    using waiting_entry(3) [OF inv that] by (metis word_order.extremum_strict)
  have det: "detach_batch ?bk addr cap 0 0 k = Some (?ts, k1)"
    unfolding k1_def ts [symmetric] es_def
    using detach_batch_eq [OF refl, of k ?bk addr 0 0 cap] seq waiting_parked [OF inv]
      waiting_distinct_snd [OF inv] by simp
  have "futex_inv ({} \<union> snd ` set es) {} k1 \<and> detached ?bk es k k1"
    unfolding k1_def
    by (rule detach_entries_ok [OF inv _ _ dis]) (blast intro: waiting_entry(1) [OF inv] waiting_parked [OF inv] sub)+
  then have d: "futex_inv (snd ` set es) {} k1" "detached ?bk es k k1" by simp_all
  have f1: "sched_frame k k1" and r1: "run_queued k1 = run_queued k"
    and t1: "thr k1 t = (if t \<in> snd ` set es then map_option (\<lambda>th. th\<lparr>t_wake_state := FUTEX_CLAIMED\<rparr>) (thr k t) else thr k t)" for t
    using d(2) unfolding detached_def by blast+
  note pr = sched_frame_proc [OF f1]
  have st: "set ?ts = snd ` set es" by (simp add: ts [symmetric])
  have ex: "thr k1 t \<noteq> None" if "t \<in> set ?ts" for t
    using that waiting_entry(5) [OF inv] sub by (fastforce simp: st t1)
  have "distinct ?ts" "set ?ts \<subseteq> snd ` set es" using dis(2) by (simp_all add: ts [symmetric])
  with finish_batch_ok [OF d(1) _ _ _ ex] obtain k' where k': "finish_batch ?ts res k1 = Some k'"
    "futex_inv (snd ` set es - set ?ts) {} k'" "sched_frame k1 k'" "thr k' = wake_all k1 res ?ts"
    "g_futex k' = g_futex k1" "run_queued k' = run_queued k1 + mset (filter (thread_live k1) ?ts)"
    using assms(2) ptree_ok_cong [OF pr] by blast
  have f: "sched_frame k k'" by (rule sched_frame_trans [OF f1 k'(3)])
  note bo = sched_frame_fields(2) [OF f]
  have w: "waiters k' addr = drop (unat cap) (waiters k addr)" "a \<noteq> addr \<Longrightarrow> waiters k' a = waiters k a" for a
    using waiters_detached [OF d(2) [unfolded es_def] refl k'(5) bo] by blast+
  have lv: "thread_live k1 = thread_live k"
    by (intro ext) (auto simp: thread_live_def t1 eff_dead_cong [OF pr])
  have "wake_thread k1 res (th\<lparr>t_wake_state := FUTEX_CLAIMED\<rparr>) = wake_thread k res th" for th
    by (simp add: wake_thread_def eff_dead_cong [OF pr])
  then have "wake_all k1 res ?ts = wake_all k res ?ts"
    by (intro ext) (simp add: wake_all_def t1 st option.map_comp comp_def)
  then show thesis using that [OF det k'(1) _ f w] k'(2,4,6) st r1 lv by (simp add: futex_ok_def)
qed


definition parked_kernel :: kernel where
  "parked_kernel = sample_kernel\<lparr>g_procs := om_insert 1 (sample_process 1 None) om_empty,
     g_threads := om_insert 7 ((sample_thread 7 1)\<lparr>t_status := THREAD_BLOCKED, t_wake_state := FUTEX_PARKED,
       t_wait_key := Futex_Key 4096 0\<rparr>) om_empty,
     g_futex := (\<lambda>_. om_empty)(bucket_of sample_kernel 4096 := om_insert (Futex_Key 4096 0) 7 om_empty),
     g_futex_seq := 1\<rparr>"

lemma parked_kernel_simps:
  "bucket_of parked_kernel = bucket_of sample_kernel" "g_cpus parked_kernel = [sample_cpu]" "g_futex_seq parked_kernel = 1"
  "proc parked_kernel pid = (if pid = 1 then Some (sample_process 1 None) else None)"
  "thr parked_kernel tid = (if tid = 7 then Some ((sample_thread 7 1)\<lparr>t_status := THREAD_BLOCKED,
     t_wake_state := FUTEX_PARKED, t_wait_key := Futex_Key 4096 0\<rparr>) else None)"
  "om_lookup (g_futex parked_kernel i) fk =
     (if i = bucket_of sample_kernel 4096 \<and> fk = Futex_Key 4096 0 then Some 7 else None)"
  by (simp_all add: parked_kernel_def bucket_of_def fun_eq_iff proc_def thr_def sample_kernel_def)

lemma parked_kernel_ok: "futex_ok parked_kernel" "ptree_ok parked_kernel"
proof -
  show "futex_ok parked_kernel"
    by (auto simp: futex_ok_def futex_inv_def parked_kernel_simps thread_wait_ok_def bucket_linked_def
        bucket_entry_ok_def deadline_armed_def sample_thread_def sample_cpu_def split: if_splits)
  show "ptree_ok parked_kernel"
    by (simp add: ptree_ok_def parked_kernel_simps sample_process_def)
qed


end
