(* ===== verification/Futex_Park.thy ===== *)
theory Futex_Park
  imports Futex_Correct
begin

text \<open>
  Correctness of parking: the compare and the enqueue of \<^verbatim>\<open>futex_sys_wait\<close> are one step, so a thread either
  sees a changed word and returns, or is behind every earlier waiter of the address.
\<close>

section \<open>Appending a waiter\<close>

lemma filter_insort_last:
  assumes "sorted (map f xs)" "\<And>x. x \<in> set xs \<Longrightarrow> P x \<Longrightarrow> f x < f e" "P e"
  shows "filter P (insort_key f e xs) = filter P xs @ [e]"
  using assms
proof (induction xs)
  case (Cons x xs)
  show ?case
  proof (cases "f e \<le> f x")
    case True
    have "\<not> P y" if "y \<in> set (x # xs)" for y
      using that True Cons.prems(1,2) by fastforce
    then have "filter P (x # xs) = []" by (simp add: filter_empty_conv)
    then show ?thesis using True Cons.prems(3) by (simp split: if_splits)
  next
    case False
    then show ?thesis using Cons by simp
  qed
qed simp

lemma waiting_insert:
  assumes "om_lookup (g_futex k bk) (Futex_Key addr s) = None"
    "g_futex k' = (g_futex k)(bk := om_insert (Futex_Key addr s) tid (g_futex k bk))"
    "\<And>fk t. om_lookup (g_futex k bk) fk = Some t \<Longrightarrow> fk_seq fk < s"
  shows "waiting k' bk addr 0 = waiting k bk addr 0 @ [(Futex_Key addr s, tid)]"
    "a \<noteq> addr \<Longrightarrow> waiting k' bk a 0 = waiting k bk a 0" "i \<noteq> bk \<Longrightarrow> waiting k' i a 0 = waiting k i a 0"
proof -
  let ?P = "\<lambda>e :: futex_key \<times> u64. fk_address (fst e) = addr \<and> 0 \<le> fk_seq (fst e)"
  have e: "om_entries (g_futex k' bk) = insort_key fst (Futex_Key addr s, tid) (om_entries (g_futex k bk))"
    using assms(1,2) by (simp add: om.ents_insert)
  have "filter ?P (insort_key fst (Futex_Key addr s, tid) (om_entries (g_futex k bk))) =
      filter ?P (om_entries (g_futex k bk)) @ [(Futex_Key addr s, tid)]"
  proof (rule filter_insort_last)
    show "sorted (map fst (om_entries (g_futex k bk)))"
      using om.ents_sorted [of "g_futex k bk"] by (simp add: strict_sorted_iff)
    fix x assume "x \<in> set (om_entries (g_futex k bk))" "?P x"
    then show "fst x < fst (Futex_Key addr s, tid)"
      using assms(3) [of "fst x" "snd x"] by (simp add: om.lookup_iff futex_key_less)
  qed simp
  then show "waiting k' bk addr 0 = waiting k bk addr 0 @ [(Futex_Key addr s, tid)]"
    by (simp add: waiting_def e)
  show "a \<noteq> addr \<Longrightarrow> waiting k' bk a 0 = waiting k bk a 0"
    by (simp add: waiting_def e filter_insort_triv)
  show "i \<noteq> bk \<Longrightarrow> waiting k' i a 0 = waiting k i a 0"
    by (simp add: waiting_def assms(2))
qed

lemma futex_ok_park:
  assumes "futex_ok k" "thr k tid = Some th" "t_wake_state th = FUTEX_IDLE" "g_futex_seq k \<noteq> - 1"
    and fk: "fk = Futex_Key addr (g_futex_seq k)" and bk: "bk = bucket_of k addr"
    and th': "t_wake_state th' = FUTEX_PARKED" "t_status th' = THREAD_BLOCKED" "\<not> t_on_cpu th'" "t_wait_key th' = fk"
      "t_tid th' = t_tid th" "t_proc th' = t_proc th"
      "t_deadline th' \<noteq> 0 \<Longrightarrow> t_deadline_cpu th' < length (g_cpus k)"
    and k': "proc k' = proc k" "bucket_of k' = bucket_of k" "g_futex_seq k' = g_futex_seq k + 1"
      "thr k' = (thr k)(tid \<mapsto> th')" "g_futex k' = (g_futex k)(bk := om_insert fk tid (g_futex k bk))"
      "length (g_cpus k') = length (g_cpus k)"
      "\<And>i td. i < length (g_cpus k) \<Longrightarrow> om_lookup (c_deadlines (g_cpus k' ! i)) td =
         (if t_deadline th' \<noteq> 0 \<and> i = t_deadline_cpu th' \<and> td = Tdeadline_Key (t_deadline th') tid then Some tid
          else om_lookup (c_deadlines (g_cpus k ! i)) td)"
  shows "futex_ok k'" "waiters k' addr = waiters k addr @ [tid]" "a \<noteq> addr \<Longrightarrow> waiters k' a = waiters k a"
proof -
  have inv: "futex_inv {} {} k" using assms(1) by (simp add: futex_ok_def)
  note I = futex_invD [OF inv]
  have d0: "t_deadline th = 0" using I(5) [OF assms(2)] assms(3) by (auto simp: thread_wait_ok_def)
  have nb: "om_lookup (g_futex k i) f \<noteq> Some tid" for i f
    using I(6) [of i f tid] assms(2,3) by (auto simp: bucket_entry_ok_def)
  have sq: "fk_seq f < g_futex_seq k" if "om_lookup (g_futex k i) f = Some t" for i f t
    using I(6) [OF that] by (simp add: bucket_entry_ok_def)
  have none: "om_lookup (g_futex k i) fk = None" for i
    using sq [of i fk] by (cases "om_lookup (g_futex k i) fk") (auto simp: fk)
  have nd: "om_lookup (c_deadlines (g_cpus k ! i)) td \<noteq> Some tid" if "i < length (g_cpus k)" for i td
    using I(7) [OF that, of td tid] assms(2) d0 by (auto simp: deadline_entry_ok_def)
  have lt: "s < g_futex_seq k \<Longrightarrow> s < g_futex_seq k + 1" for s
    using u64_Suc_le [OF assms(4)] by (meson order_less_trans u64_Suc_le less_le_not_le order_refl assms(4))
  have "futex_inv {} {} k'"
  proof (rule futex_invI)
    show "g_cpus k' \<noteq> []" "{} \<inter> {} = {}" using I(1) k'(6) by auto
    fix t u assume a: "thr k' t = Some u"
    show "t_tid u = t" "proc k' (t_proc u) \<noteq> None"
      using a I(3,4) assms(2) th'(5,6) by (auto simp: k' split: if_splits)
    show "thread_wait_ok {} {} k' t u"
    proof (cases "t = tid")
      case True
      then have "u = th'" using a by (simp add: k')
      then show ?thesis using True th' fk bk none
        by (auto simp: thread_wait_ok_def bucket_linked_def deadline_armed_def k')
    next
      case False
      then have "thr k t = Some u" using a by (simp add: k')
      from I(5) [OF this] False none show ?thesis
        by (auto simp: thread_wait_ok_def bucket_linked_def deadline_armed_def k')
    qed
  next
    fix i f t assume "om_lookup (g_futex k' i) f = Some t"
    then have "i = bk \<and> f = fk \<and> t = tid \<or> t \<noteq> tid \<and> om_lookup (g_futex k i) f = Some t"
      using none nb [of i f] by (auto simp: k' split: if_splits)
    then show "bucket_entry_ok {} k' i f t"
      using I(6) [of i f t] th' lt fk bk u64_Suc_le [OF assms(4), of "g_futex_seq k + 1"]
      by (auto simp: bucket_entry_ok_def k')
  next
    fix i td t assume a: "i < length (g_cpus k')" "om_lookup (c_deadlines (g_cpus k' ! i)) td = Some t"
    then show "deadline_entry_ok k' i td t"
      using I(7) [of i td t] nd [of i td] by (auto simp: deadline_entry_ok_def k' split: if_splits)
  qed
  then show "futex_ok k'" by (simp add: futex_ok_def)
  note w = waiting_insert [OF none [of bk, unfolded fk] k'(5) [unfolded fk] sq]
  show "waiters k' addr = waiters k addr @ [tid]" using w(1) by (simp add: waiters_def k'(2) bk)
  show "a \<noteq> addr \<Longrightarrow> waiters k' a = waiters k a"
    using w(2,3) by (cases "bucket_of k a = bk") (simp_all add: waiters_def k'(2))
qed

section \<open>Compare and park\<close>

lemma program_local_frame: "\<exists>x. program_local i now k = upd_cpu i (\<lambda>c. c\<lparr>c_shot := x\<rparr>) k"
  by (auto simp: program_local_def Let_def split: if_splits)

lemma upd_cpu_shot:
  "thr (upd_cpu i (\<lambda>c. c\<lparr>c_shot := x\<rparr>) k) = thr k" "proc (upd_cpu i (\<lambda>c. c\<lparr>c_shot := x\<rparr>) k) = proc k"
  "g_futex (upd_cpu i (\<lambda>c. c\<lparr>c_shot := x\<rparr>) k) = g_futex k" "g_futex_seq (upd_cpu i (\<lambda>c. c\<lparr>c_shot := x\<rparr>) k) = g_futex_seq k"
  "map (\<lambda>c. (c_deadlines c, c_current_thread c)) (g_cpus (upd_cpu i (\<lambda>c. c\<lparr>c_shot := x\<rparr>) k)) =
     map (\<lambda>c. (c_deadlines c, c_current_thread c)) (g_cpus k)"
  "g_this_cpu (upd_cpu i (\<lambda>c. c\<lparr>c_shot := x\<rparr>) k) = g_this_cpu k"
  by (simp_all add: upd_defs fun_eq_iff thr_def proc_def map_update_same)

text \<open>Arming on the current processor, up to the programmed shot.\<close>

definition armed_at :: "nat \<Rightarrow> u64 \<Rightarrow> u64 \<Rightarrow> kernel \<Rightarrow> kernel \<Rightarrow> bool" where
  "armed_at i t d k k' \<longleftrightarrow> thr k' = (thr k)(t := map_option (\<lambda>th. th\<lparr>t_deadline := d, t_deadline_cpu := i\<rparr>) (thr k t)) \<and>
     proc k' = proc k \<and> g_futex k' = g_futex k \<and> g_futex_seq k' = g_futex_seq k \<and> bucket_of k' = bucket_of k \<and>
     g_this_cpu k' = g_this_cpu k \<and>
     map (\<lambda>c. (c_deadlines c, c_current_thread c)) (g_cpus k') = (map (\<lambda>c. (c_deadlines c, c_current_thread c)) (g_cpus k))
       [i := (om_insert (Tdeadline_Key d t) t (c_deadlines (g_cpus k ! i)), c_current_thread (g_cpus k ! i))]"

lemma arm_ok:
  assumes "timer_deadline_arm t d k = (True, k')" "g_this_cpu k < length (g_cpus k)"
  shows "armed_at (g_this_cpu k) t d k k'"
proof -
  obtain x where "slab_alloc k = (True, k\<lparr>g_oom := x\<rparr>)"
    using assms(1) slab_alloc_frame [of k] by (auto simp: timer_deadline_arm_def Let_def split: prod.splits bool.splits)
  then obtain x where sl: "slab_alloc k = (True, k\<lparr>g_oom := x\<rparr>)" by blast
  let ?i = "g_this_cpu k"
  let ?k = "upd_thread t (\<lambda>th. th\<lparr>t_deadline := d, t_deadline_cpu := ?i\<rparr>)
      (upd_cpu ?i (\<lambda>c. c\<lparr>c_deadlines := om_insert (Tdeadline_Key d t) t (c_deadlines c)\<rparr>) (k\<lparr>g_oom := x\<rparr>))"
  have b: "armed_at ?i t d k ?k"
    using assms(2) by (simp add: armed_at_def fun_eq_iff upd_defs bucket_of_def thr_def proc_def map_update)
  have c: "armed_at ?i t d k (upd_cpu ?i (\<lambda>c. c\<lparr>c_shot := y\<rparr>) ?k)" for y
    using b unfolding armed_at_def upd_cpu_shot bucket_of_cong .
  have "k' = ?k \<or> (\<exists>n. k' = program_local ?i n ?k)"
    using assms(1) sl by (auto simp: timer_deadline_arm_def Let_def split: if_splits list.splits)
  then show ?thesis
  proof (elim disjE exE)
    fix n assume "k' = program_local ?i n ?k"
    moreover obtain y where "program_local ?i n ?k = upd_cpu ?i (\<lambda>c. c\<lparr>c_shot := y\<rparr>) ?k"
      using program_local_frame by blast
    ultimately show ?thesis using c by simp
  qed (simp only: b)
qed

lemma arm_fail: "timer_deadline_arm t d k = (False, k') \<Longrightarrow> \<exists>x. k' = k\<lparr>g_oom := x\<rparr>"
  using slab_alloc_frame [of k] by (auto simp: timer_deadline_arm_def Let_def split: prod.splits bool.splits if_splits)

lemma arm_fail_reason:
  "timer_deadline_arm t d k = (False, k') \<Longrightarrow>
     g_oom k \<noteq> [] \<or> om_lookup (c_deadlines (g_cpus k ! g_this_cpu k)) (Tdeadline_Key d t) \<noteq> None"
  by (auto simp: timer_deadline_arm_def Let_def split: if_splits)

lemma slab_alloc_oom: "slab_alloc k = (ok, k') \<Longrightarrow> g_oom k' \<noteq> [] \<Longrightarrow> g_oom k \<noteq> []"
  by (auto simp: slab_alloc_def)

lemma bucket_of_oom [simp]: "bucket_of (k\<lparr>g_oom := x\<rparr>) = bucket_of k"
  by (simp add: bucket_of_def fun_eq_iff)

lemma remove_insert_entries:
  assumes "om_lookup m ky = None"
  shows "om_entries (om_remove ky (om_insert ky v m)) = om_entries m"
proof -
  have "fst e \<noteq> ky" if "e \<in> set (om_entries m)" for e
    using that assms by (metis om.lookup_iff option.distinct(1) prod.collapse)
  then have "filter (\<lambda>e. fst e \<noteq> ky) (om_entries m) = om_entries m" by (simp add: filter_id_conv)
  then show ?thesis using assms by (simp add: om.ents_remove om.ents_insert filter_insort_triv)
qed

lemma om_lookup_entries: "om_entries m = om_entries m' \<Longrightarrow> om_lookup m = om_lookup m'"
  by (simp add: om.lookup_ents fun_eq_iff)

lemma futex_ok_unparked:
  assumes "futex_ok k" "thr k tid = Some th" "t_wake_state th = FUTEX_IDLE" "t_wake_state th' = FUTEX_IDLE"
    "t_deadline th' = 0" "t_tid th' = t_tid th" "t_proc th' = t_proc th"
    and k': "proc k' = proc k" "bucket_of k' = bucket_of k" "g_futex_seq k \<le> g_futex_seq k'" "thr k' = (thr k)(tid \<mapsto> th')"
      "\<And>i. om_entries (g_futex k' i) = om_entries (g_futex k i)" "g_cpus k' = g_cpus k"
  shows "futex_ok k'" "waiters k' a = waiters k a"
proof -
  have inv: "futex_inv {} {} k" using assms(1) by (simp add: futex_ok_def)
  note I = futex_invD [OF inv]
  note lk = om_lookup_entries [OF k'(5)]
  have "futex_inv {} {} k'"
  proof (rule futex_invI)
    show "g_cpus k' \<noteq> []" "{} \<inter> {} = {}" using I(1) k'(6) by auto
    fix t u assume a: "thr k' t = Some u"
    show "t_tid u = t" "proc k' (t_proc u) \<noteq> None"
      using a I(3,4) assms(2,6,7) by (auto simp: k'(1,4) split: if_splits)
    show "thread_wait_ok {} {} k' t u"
      using a I(5) [of t u] assms(4,5)
      by (auto simp: thread_wait_ok_def bucket_linked_def deadline_armed_def k' lk split: if_splits)
  next
    fix i f t assume "om_lookup (g_futex k' i) f = Some t"
    then show "bucket_entry_ok {} k' i f t"
      using I(6) [of i f t] assms(2,3) k'(3) by (auto simp: bucket_entry_ok_def k' lk intro: order_less_le_trans)
  next
    fix i td t assume a: "i < length (g_cpus k')" "om_lookup (c_deadlines (g_cpus k' ! i)) td = Some t"
    then show "deadline_entry_ok k' i td t"
      using I(7) [of i td t] I(5) [OF assms(2)] assms(2,3) by (auto simp: deadline_entry_ok_def k' thread_wait_ok_def split: if_splits)
  qed
  then show "futex_ok k'" by (simp add: futex_ok_def)
  show "waiters k' a = waiters k a" by (simp add: waiters_def waiting_def k'(2,5))
qed

text \<open>The state in which the thread is queued and recorded, before its deadline and its park.\<close>

definition enqueued :: "u64 \<Rightarrow> u64 \<Rightarrow> bool list \<Rightarrow> kernel \<Rightarrow> kernel" where
  "enqueued tid addr x k = upd_thread tid (\<lambda>t. t\<lparr>t_wait_key := Futex_Key addr (g_futex_seq k), t_deadline := 0\<rparr>)
     (upd_bucket (bucket_of k addr) (om_insert (Futex_Key addr (g_futex_seq k)) tid)
       (k\<lparr>g_futex_seq := g_futex_seq k + 1, g_oom := x\<rparr>))"

lemma enqueued_simps [simp]:
  "proc (enqueued tid addr x k) = proc k" "bucket_of (enqueued tid addr x k) = bucket_of k"
  "g_futex_seq (enqueued tid addr x k) = g_futex_seq k + 1" "g_cpus (enqueued tid addr x k) = g_cpus k"
  "g_this_cpu (enqueued tid addr x k) = g_this_cpu k" "g_oom (enqueued tid addr x k) = x"
  "g_futex (enqueued tid addr x k) = (g_futex k)(bucket_of k addr :=
     om_insert (Futex_Key addr (g_futex_seq k)) tid (g_futex k (bucket_of k addr)))"
  "thr (enqueued tid addr x k) = (thr k)(tid := map_option (\<lambda>t. t\<lparr>t_wait_key := Futex_Key addr (g_futex_seq k), t_deadline := 0\<rparr>) (thr k tid))"
  by (simp_all add: enqueued_def fun_eq_iff upd_bucket_def upd_defs proc_def thr_def bucket_of_def)

text \<open>Parking the queued thread \<open>k3\<close>, with deadline \<open>d\<close> on processor \<open>i\<close> (\<open>d = 0\<close>: none).\<close>

lemma park_enqueued:
  assumes k: "futex_ok k" "thr k tid = Some th" "t_wake_state th = FUTEX_IDLE" "g_futex_seq k \<noteq> - 1"
    and i: "i = g_this_cpu k" "i < length (g_cpus k)" "c_current_thread (g_cpus k ! i) = Some tid"
    and e: "e = enqueued tid addr x k"
    and k3: "if d = 0 then k3 = e else armed_at i tid d e k3"
  shows "\<exists>k'. uthread_park THREAD_BLOCKED False (upd_thread tid (\<lambda>t. t\<lparr>t_wake_state := FUTEX_PARKED\<rparr>) k3) = Some k' \<and>
    futex_ok k' \<and> waiters k' addr = waiters k addr @ [tid] \<and> (\<forall>a. a \<noteq> addr \<longrightarrow> waiters k' a = waiters k a) \<and>
    c_current_thread (g_cpus k' ! i) = None \<and>
    (\<exists>th'. thr k' tid = Some th' \<and> t_wake_state th' = FUTEX_PARKED \<and> t_status th' = THREAD_BLOCKED \<and> t_deadline th' = d)"
proof -
  define th2 where "th2 = (if d = 0 then th\<lparr>t_wait_key := Futex_Key addr (g_futex_seq k), t_deadline := 0\<rparr>
    else th\<lparr>t_wait_key := Futex_Key addr (g_futex_seq k), t_deadline := d, t_deadline_cpu := i\<rparr>)"
  have a: "thr k3 = (thr k)(tid \<mapsto> th2)" "proc k3 = proc k" "bucket_of k3 = bucket_of k" "g_futex_seq k3 = g_futex_seq k + 1"
    "g_futex k3 = g_futex e" "g_this_cpu k3 = i"
    using k3 k(2) i(1) by (auto simp: e armed_at_def th2_def split: if_splits)
  have c: "map (\<lambda>c. (c_deadlines c, c_current_thread c)) (g_cpus k3) = (if d = 0 then map (\<lambda>c. (c_deadlines c, c_current_thread c)) (g_cpus k)
      else (map (\<lambda>c. (c_deadlines c, c_current_thread c)) (g_cpus k))
       [i := (om_insert (Tdeadline_Key d tid) tid (c_deadlines (g_cpus k ! i)), Some tid)])"
    using k3 i(3) by (auto simp: e armed_at_def split: if_splits)
  have len: "length (g_cpus k3) = length (g_cpus k)" using arg_cong [OF c, of length] by (simp split: if_splits)
  have n: "(c_deadlines (g_cpus k3 ! j), c_current_thread (g_cpus k3 ! j)) =
      (if d \<noteq> 0 \<and> j = i then (om_insert (Tdeadline_Key d tid) tid (c_deadlines (g_cpus k ! i)), Some tid)
       else (c_deadlines (g_cpus k ! j), c_current_thread (g_cpus k ! j)))" if "j < length (g_cpus k)" for j
    using arg_cong [OF c, of "\<lambda>xs. xs ! j"] that len i(2) by (simp add: nth_list_update split: if_splits)
  have cur: "c_current_thread (g_cpus k3 ! i) = Some tid" using n [OF i(2)] i(3) by (simp split: if_splits)
  define k' where "k' = upd_thread tid (\<lambda>th. th\<lparr>t_on_cpu := False\<rparr>) (upd_cpu i (\<lambda>c. c\<lparr>c_current_thread := None\<rparr>)
    (upd_thread tid (\<lambda>th. th\<lparr>t_status := THREAD_BLOCKED\<rparr>) (upd_thread tid (\<lambda>t. t\<lparr>t_wake_state := FUTEX_PARKED\<rparr>) k3)))"
  define th' where "th' = th2\<lparr>t_wake_state := FUTEX_PARKED, t_status := THREAD_BLOCKED, t_on_cpu := False\<rparr>"
  have p: "uthread_park THREAD_BLOCKED False (upd_thread tid (\<lambda>t. t\<lparr>t_wake_state := FUTEX_PARKED\<rparr>) k3) = Some k'"
    using cur i(2) len a(6) by (simp add: uthread_park_def cpu_of_def k'_def Let_def) (simp add: upd_defs)
  have inv: "futex_inv {} {} k" using k(1) by (simp add: futex_ok_def)
  have d0: "t_deadline th = 0" using futex_invD(5) [OF inv k(2)] k(3) by (auto simp: thread_wait_ok_def)
  have fr: "proc k' = proc k" "bucket_of k' = bucket_of k" "g_futex_seq k' = g_futex_seq k + 1"
    "g_futex k' = g_futex e" "length (g_cpus k') = length (g_cpus k)"
    using a(2-5) len by (simp_all add: k'_def fun_eq_iff proc_def upd_defs bucket_of_def)
  have tk: "thr k' = (thr k)(tid \<mapsto> th')" using a(1) by (simp add: k'_def fun_eq_iff th'_def)
  have nd: "om_lookup (c_deadlines (g_cpus k ! i)) (Tdeadline_Key d tid) = None"
    using futex_invD(7) [OF inv i(2), of "Tdeadline_Key d tid"] k(2) d0
    by (cases "om_lookup (c_deadlines (g_cpus k ! i)) (Tdeadline_Key d tid)") (auto simp: deadline_entry_ok_def)
  have dl: "om_lookup (c_deadlines (g_cpus k' ! j)) td =
      (if t_deadline th' \<noteq> 0 \<and> j = t_deadline_cpu th' \<and> td = Tdeadline_Key (t_deadline th') tid then Some tid
       else om_lookup (c_deadlines (g_cpus k ! j)) td)" if "j < length (g_cpus k)" for j td
    using n [OF that] nd len i(2) that
    by (auto simp: k'_def upd_defs th'_def th2_def nth_list_update split: if_splits)
  have t: "t_wake_state th' = FUTEX_PARKED" "t_status th' = THREAD_BLOCKED" "\<not> t_on_cpu th'"
    "t_wait_key th' = Futex_Key addr (g_futex_seq k)" "t_tid th' = t_tid th" "t_proc th' = t_proc th"
    "t_deadline th' \<noteq> 0 \<Longrightarrow> t_deadline_cpu th' < length (g_cpus k)"
    using i(2) by (simp_all add: th'_def th2_def split: if_splits)
  have fu: "g_futex k' = (g_futex k)(bucket_of k addr := om_insert (Futex_Key addr (g_futex_seq k)) tid (g_futex k (bucket_of k addr)))"
    using fr(4) by (simp add: e)
  note F = futex_ok_park [OF k(1,2,3,4) refl refl t fr(1,2,3) tk fu fr(5) dl]
  have "futex_ok k'" "waiters k' addr = waiters k addr @ [tid]" "\<forall>b. b \<noteq> addr \<longrightarrow> waiters k' b = waiters k b"
    using F by simp_all
  moreover have "c_current_thread (g_cpus k' ! i) = None" using i(2) len by (simp add: k'_def upd_defs)
  ultimately show ?thesis using p tk by (intro exI [of _ k']) (simp add: th'_def th2_def)
qed


definition running_kernel :: kernel where
  "running_kernel = sample_kernel\<lparr>g_procs := om_insert 1 (sample_process 1 None) om_empty,
     g_threads := om_insert 7 (sample_thread 7 1) om_empty,
     g_as_kernel := sample_view\<lparr>page_flags := \<lambda>_. 1\<rparr>,
     g_cpus := [sample_cpu\<lparr>c_current_thread := Some 7\<rparr>]\<rparr>"

lemma running_kernel_simps:
  "proc running_kernel pid = (if pid = 1 then Some (sample_process 1 None) else None)"
  "thr running_kernel tid = (if tid = 7 then Some (sample_thread 7 1) else None)"
  "g_futex running_kernel = (\<lambda>_. om_empty)" "g_futex_seq running_kernel = 0" "g_oom running_kernel = []"
  "g_cpus running_kernel = [sample_cpu\<lparr>c_current_thread := Some 7\<rparr>]" "g_this_cpu running_kernel = 0"
  by (simp_all add: running_kernel_def proc_def thr_def sample_kernel_def)

lemma running_kernel_ok: "futex_ok running_kernel"
  by (auto simp: futex_ok_def futex_inv_def running_kernel_simps thread_wait_ok_def sample_thread_def sample_cpu_def
      split: if_splits)

lemma running_kernel_load: "load32 running_kernel 4096 = Some 0"
  by (simp add: load32_def load_bytes_def kaccess_def cur_view_def view_access_def canonical_def running_kernel_def
      sample_defs le_word_def PAGE_SIZE_def upt_rec asserts_def)


end
