(* ===== verification/Vm_Frame.thy ===== *)
theory Vm_Frame
  imports Syscall Frames
begin

text \<open>
  What the kernel operations leave alone.  \<open>vm\<close> is the part of the state that memory isolation and the
  process tree depend on: every address space, every index of blocks and views, the parent and child links, and of
  every block its range, owner and sharers.  \<open>core\<close> adds the capability forest.  One lemma per operation
  states which of the two it keeps; they compose by rewriting.
\<close>

section \<open>Projections\<close>

definition proc_vm :: "process \<Rightarrow> (nat \<Rightarrow> paging_flags) option \<times> (u64, unit) omap \<times> (u64, unit) omap \<times> u64 option \<times> (u64, unit) omap" where
  "proc_vm p = (map_option page_flags (p_as p), p_blocks p, p_views p, p_parent p, p_children p)"

definition block_vm :: "ublock \<Rightarrow> u64 \<times> u64 \<times> paging_flags \<times> u64 \<times> u64 set" where
  "block_vm b = (ub_base b, ub_bytes b, ub_kernel_flags b, ub_owner b, {pid. om_lookup (ub_sharers b) pid \<noteq> None})"

definition vm where
  "vm k = (\<lambda>pid. map_option proc_vm (proc k pid), \<lambda>base. map_option block_vm (block k base),
     page_flags (g_as_kernel k), g_next_pid k)"

definition core where
  "core k = (vm k, g_grants k, g_next_grant_id k)"

lemma core_vm: "core k' = core k \<Longrightarrow> vm k' = vm k"
  by (simp add: core_def)

lemma proc_vm_fields [simp]:
  "proc_vm (p\<lparr>p_dead := x1\<rparr>) = proc_vm p"
  "proc_vm (p\<lparr>p_death_notified := x3\<rparr>) = proc_vm p" "proc_vm (p\<lparr>p_exit_status := x4\<rparr>) = proc_vm p"
  "proc_vm (p\<lparr>p_nthreads := x5\<rparr>) = proc_vm p" "proc_vm (p\<lparr>p_threads := x6\<rparr>) = proc_vm p"
  "proc_vm (p\<lparr>p_unnotified := x7\<rparr>) = proc_vm p" "proc_vm (p\<lparr>p_share_ch := x8\<rparr>) = proc_vm p"
  "proc_vm (p\<lparr>p_tree_ch := x9\<rparr>) = proc_vm p" "proc_vm (p\<lparr>p_iommu_ch := x10\<rparr>) = proc_vm p"
  by (simp_all add: proc_vm_def)

lemma block_vm_fields [simp]:
  "block_vm (b\<lparr>ub_ring := x1\<rparr>) = block_vm b" "block_vm (b\<lparr>ub_dma_maps := x2\<rparr>) = block_vm b"
  "block_vm (b\<lparr>ub_thread_pins := x3\<rparr>) = block_vm b"
  "block_vm (b\<lparr>ub_sharers := om_modify pid f (ub_sharers b)\<rparr>) = block_vm b"
  by (auto simp: block_vm_def)

lemma vm_upd_proc [simp]: "(\<And>p. proc_vm (f p) = proc_vm p) \<Longrightarrow> vm (upd_proc pid f k) = vm k"
  by (auto simp: vm_def fun_eq_iff option.map_comp comp_def upd_proc_def proc_def)

lemma vm_upd_block [simp]: "(\<And>b. block_vm (f b) = block_vm b) \<Longrightarrow> vm (upd_block base f k) = vm k"
  by (auto simp: vm_def fun_eq_iff option.map_comp comp_def upd_block_def block_def)

lemma vm_upd [simp]:
  "vm (upd_thread t g k) = vm k" "vm (upd_cpu i h k) = vm k" "vm (upd_bucket j m k) = vm k" "vm (upd_ring base r k) = vm k"
  "vm (upd_edge base pid e k) = vm k" "vm (upd_route i rr k) = vm k" "vm (upd_domain d dd k) = vm k" "vm (upd_device d dv k) = vm k"
  "vm (upd_grant d gg k) = vm k"
  by (simp_all add: vm_def upd_defs upd_bucket_def upd_route_def upd_domain_def upd_device_def upd_grant_def)
    (auto simp: fun_eq_iff option.map_comp comp_def upd_edge_def upd_block_def block_def)

lemma vm_fields [simp]:
  "vm (k\<lparr>g_threads := x1\<rparr>) = vm k" "vm (k\<lparr>g_allocator := x2\<rparr>) = vm k" "vm (k\<lparr>g_mem := x3\<rparr>) = vm k"
  "vm (k\<lparr>g_next_tid := x4\<rparr>) = vm k" "vm (k\<lparr>g_cpus := x5\<rparr>) = vm k" "vm (k\<lparr>g_next_target := x6\<rparr>) = vm k"
  "vm (k\<lparr>g_futex := x7\<rparr>) = vm k" "vm (k\<lparr>g_futex_seq := x8\<rparr>) = vm k" "vm (k\<lparr>g_routes := x9\<rparr>) = vm k"
  "vm (k\<lparr>g_ioapic := x10\<rparr>) = vm k" "vm (k\<lparr>g_grants := x11\<rparr>) = vm k" "vm (k\<lparr>g_next_grant_id := x12\<rparr>) = vm k"
  "vm (k\<lparr>g_domains := x13\<rparr>) = vm k" "vm (k\<lparr>g_ndomains := x14\<rparr>) = vm k" "vm (k\<lparr>g_ndevices := x15\<rparr>) = vm k"
  "vm (k\<lparr>g_nmappings := x16\<rparr>) = vm k" "vm (k\<lparr>g_next_domain_id := x17\<rparr>) = vm k" "vm (k\<lparr>g_fault_devices := x18\<rparr>) = vm k"
  "vm (k\<lparr>g_vtd := x19\<rparr>) = vm k" "vm (k\<lparr>g_serial := x20\<rparr>) = vm k" "vm (k\<lparr>g_oom := x21\<rparr>) = vm k"
  by (simp_all add: vm_def proc_def block_def)

lemma core_upd_proc [simp]: "(\<And>p. proc_vm (f p) = proc_vm p) \<Longrightarrow> core (upd_proc pid f k) = core k"
  using vm_upd_proc [of f pid k] by (simp add: core_def upd_proc_def)

lemma core_upd_block [simp]: "(\<And>b. block_vm (f b) = block_vm b) \<Longrightarrow> core (upd_block base f k) = core k"
  using vm_upd_block [of f base k] by (simp add: core_def upd_block_def)

lemma core_upd [simp]:
  "core (upd_thread t g k) = core k" "core (upd_cpu i h k) = core k" "core (upd_bucket j m k) = core k"
  "core (upd_ring base r k) = core k" "core (upd_edge base pid e k) = core k" "core (upd_route i rr k) = core k"
  "core (upd_domain d dd k) = core k" "core (upd_device d dv k) = core k"
  unfolding core_def vm_upd
  by (simp_all add: upd_defs upd_bucket_def upd_route_def upd_domain_def upd_device_def upd_edge_def)

lemma core_fields [simp]:
  "core (k\<lparr>g_threads := x1\<rparr>) = core k" "core (k\<lparr>g_allocator := x2\<rparr>) = core k" "core (k\<lparr>g_mem := x3\<rparr>) = core k"
  "core (k\<lparr>g_next_tid := x4\<rparr>) = core k" "core (k\<lparr>g_cpus := x5\<rparr>) = core k" "core (k\<lparr>g_next_target := x6\<rparr>) = core k"
  "core (k\<lparr>g_futex := x7\<rparr>) = core k" "core (k\<lparr>g_futex_seq := x8\<rparr>) = core k" "core (k\<lparr>g_routes := x9\<rparr>) = core k"
  "core (k\<lparr>g_ioapic := x10\<rparr>) = core k"
  "core (k\<lparr>g_domains := x13\<rparr>) = core k" "core (k\<lparr>g_ndomains := x14\<rparr>) = core k" "core (k\<lparr>g_ndevices := x15\<rparr>) = core k"
  "core (k\<lparr>g_nmappings := x16\<rparr>) = core k" "core (k\<lparr>g_next_domain_id := x17\<rparr>) = core k" "core (k\<lparr>g_fault_devices := x18\<rparr>) = core k"
  "core (k\<lparr>g_vtd := x19\<rparr>) = core k" "core (k\<lparr>g_serial := x20\<rparr>) = core k" "core (k\<lparr>g_oom := x21\<rparr>) = core k"
  by (simp_all add: core_def)

section \<open>Elimination rules for the option monad\<close>

lemma bind_SomeE:
  assumes "Option.bind m f = Some y"
  obtains x where "m = Some x" "f x = Some y"
  using assms by (cases m) auto

lemma map_option_SomeE:
  assumes "map_option f m = Some y"
  obtains x where "m = Some x" "y = f x"
  using assms by auto

named_theorems keep \<open>operations that keep a projection of the state\<close>

lemma slab_alloc_core [keep]: "slab_alloc k = (ok, k') \<Longrightarrow> core k' = core k"
  using slab_alloc_frame by fastforce

lemma must_alloc_core [keep]: "must_alloc k = Some k' \<Longrightarrow> core k' = core k"
  using must_alloc_frame by fastforce

lemma store_bytes_core [keep]: "store_bytes a bs k = Some k' \<Longrightarrow> core k' = core k"
  by (auto simp: store_bytes_def)

lemma store32_core [keep]: "store32 a w k = Some k' \<Longrightarrow> core k' = core k"
  by (auto simp: store32_def intro: store_bytes_core)

lemma kmemset_core [keep]: "kmemset a c n k = Some k' \<Longrightarrow> core k' = core k"
  by (auto simp: kmemset_def)

section \<open>Scheduling and futexes\<close>

lemma scheduler_enqueue_core [keep]: "scheduler_enqueue t k = Some k' \<Longrightarrow> core k' = core k"
  by (auto simp: scheduler_enqueue_def scheduler_push_local_def Let_def split: if_splits)

lemma thread_unblock_claimed_core [keep]: "thread_unblock_claimed t k = Some k' \<Longrightarrow> core k' = core k"
  by (auto simp: thread_unblock_claimed_def elim!: bind_SomeE dest!: keep)

lemma uthread_spawn_core [keep]: "uthread_spawn pid e sp a fs gs cb ce k = Some (r, k') \<Longrightarrow> core k' = core k"
  by (auto simp: uthread_spawn_def Let_def elim!: bind_SomeE dest!: keep)

lemma uthread_park_core [keep]: "uthread_park s rq k = Some k' \<Longrightarrow> core k' = core k"
  by (auto simp: uthread_park_def scheduler_push_local_def Let_def elim!: bind_SomeE)

lemma program_local_core [simp]: "core (program_local i now k) = core k"
  by (simp add: program_local_def Let_def)

lemma timer_deadline_arm_core [keep]: "timer_deadline_arm t d k = (ok, k') \<Longrightarrow> core k' = core k"
  by (auto simp: timer_deadline_arm_def Let_def split: prod.splits bool.splits if_splits list.splits dest!: keep)

lemma timer_deadline_cancel_core [keep]: "timer_deadline_cancel t k = Some k' \<Longrightarrow> core k' = core k"
  by (auto simp: timer_deadline_cancel_def Let_def elim!: bind_SomeE split: if_splits)

lemma futex_try_claim_core [keep]: "futex_try_claim t k = Some (r, k') \<Longrightarrow> core k' = core k"
  by (auto simp: futex_try_claim_def elim!: bind_SomeE split: if_splits)

lemma finish_claimed_core [keep]: "finish_claimed t r k = Some k' \<Longrightarrow> core k' = core k"
  by (auto simp: finish_claimed_def thread_deliver_wait_result_def elim!: bind_SomeE split: if_splits dest!: keep)

lemma detach_batch_core [keep]: "detach_batch bk a c n s k = Some r \<Longrightarrow> core (snd r) = core k"
  apply (erule detach_batch.raw_induct [where P = "\<lambda>_ _ _ _ _ k r. core (snd r) = core k", rotated])
  subgoal premises prems
    using prems(2) by (auto simp: Let_def elim!: bind_SomeE split: if_splits list.splits prod.splits dest!: prems(1))
  done

lemma finish_batch_core [keep]: "finish_batch ts r k = Some k' \<Longrightarrow> core k' = core k"
  by (induction ts arbitrary: k) (auto elim!: bind_SomeE dest!: keep)

lemma wake_batch_core [keep]: "wake_batch a c k = Some (r, k') \<Longrightarrow> core k' = core k"
  by (auto simp: wake_batch_def Let_def elim!: bind_SomeE split: prod.splits dest!: keep)

lemma futex_wake_one_core [keep]: "futex_wake_one a k = Some k' \<Longrightarrow> core k' = core k"
  by (auto simp: futex_wake_one_def dest!: keep)

lemma futex_publish_wake_core [keep]: "futex_publish_wake a w k = Some k' \<Longrightarrow> core k' = core k"
  by (auto simp: futex_publish_wake_def elim!: bind_SomeE split: prod.splits dest!: keep)

lemma bucket_remove_core [keep]: "bucket_remove t k = Some k' \<Longrightarrow> core k' = core k"
  by (auto simp: bucket_remove_def Let_def elim!: bind_SomeE)

lemma futex_reap_claimed_core [keep]: "futex_reap_claimed t k = Some k' \<Longrightarrow> core k' = core k"
  by (auto simp: futex_reap_claimed_def elim!: bind_SomeE dest!: keep)

lemma requeue_loop_core [keep]: "requeue_loop b1 b2 x y c m s k = Some r \<Longrightarrow> core (snd r) = core k"
  apply (erule requeue_loop.raw_induct [where P = "\<lambda>_ _ _ _ _ _ _ k r. core (snd r) = core k", rotated])
  subgoal premises prems
    using prems(2) by (auto simp: Let_def elim!: bind_SomeE split: if_splits list.splits prod.splits dest!: prems(1))
  done

section \<open>Channels\<close>

lemma ring_post_locked_core [keep]: "ring_post_locked rg e k = Some (r, k') \<Longrightarrow> core k' = core k"
  by (auto simp: ring_post_locked_def Let_def elim!: bind_SomeE split: if_splits dest!: keep)

lemma channel_post_core [keep]: "channel_post rg ty a b st k = Some r \<Longrightarrow> core (snd r) = core k"
  by (cases r) (auto simp: channel_post_def dest!: keep)

lemma channel_post_data_core [keep]: "channel_post_data rg ty a b st k = Some (p, i, k') \<Longrightarrow> core k' = core k"
  by (auto simp: channel_post_data_def elim!: bind_SomeE split: if_splits prod.splits dest!: keep)

lemma pending_link_core [keep]: "pending_link base pid k = Some k' \<Longrightarrow> core k' = core k"
  by (auto simp: pending_link_def elim!: bind_SomeE)

lemma umem_edge_pending_unlink_core [keep]: "umem_edge_pending_unlink base pid k = Some k' \<Longrightarrow> core k' = core k"
  by (auto simp: umem_edge_pending_unlink_def elim!: bind_SomeE split: if_splits)

lemma shares_replay_loop_core [keep]: "shares_replay_loop rg pid k = Some k' \<Longrightarrow> core k' = core k"
  apply (erule shares_replay_loop.raw_induct [where P = "\<lambda>_ _ k k'. core k' = core k", rotated])
  subgoal premises prems
    using prems(2) by (auto simp: Let_def elim!: bind_SomeE split: if_splits list.splits prod.splits dest!: prems(1) keep)
  done

lemma shares_replay_core [keep]: "shares_replay rg k = Some k' \<Longrightarrow> core k' = core k"
  by (auto simp: shares_replay_def elim!: bind_SomeE dest!: keep)

lemma channel_edge_notify_core [keep]: "channel_edge_notify base pid k = Some k' \<Longrightarrow> core k' = core k"
  by (auto simp: channel_edge_notify_def elim!: bind_SomeE split: if_splits option.splits prod.splits dest!: keep)

lemma tree_replay_loop_core [keep]: "tree_replay_loop cs rg k = Some k' \<Longrightarrow> core k' = core k"
  by (induction cs arbitrary: k) (auto elim!: bind_SomeE split: if_splits prod.splits dest!: keep)

lemma tree_replay_core [keep]: "tree_replay rg k = Some k' \<Longrightarrow> core k' = core k"
  by (auto simp: tree_replay_def elim!: bind_SomeE dest!: keep)

lemma channel_child_dead_notify_core [keep]: "channel_child_dead_notify p c k = Some k' \<Longrightarrow> core k' = core k"
  by (auto simp: channel_child_dead_notify_def elim!: bind_SomeE split: if_splits option.splits prod.splits dest!: keep)

lemma umem_enum_copyout_core [keep]: "umem_enum_copyout c b n vs k = Some (r, k') \<Longrightarrow> core k' = core k"
  by (auto simp: umem_enum_copyout_def Let_def elim!: bind_SomeE split: if_splits dest!: keep)

section \<open>Interrupts and DMA\<close>

lemma retire_core [keep]: "retire i k = Some k' \<Longrightarrow> core k' = core k"
  by (auto simp: retire_def Let_def elim!: bind_SomeE split: if_splits option.splits)

lemma post_pending_core [keep]: "post_pending i k = Some k' \<Longrightarrow> core k' = core k"
  by (auto simp: post_pending_def Let_def elim!: bind_SomeE split: if_splits option.splits prod.splits dest!: keep)

lemma ioapic_core [simp]: "core (ioapic_mask i k) = core k" "core (ioapic_unmask i k) = core k" "core (route_detach i k) = core k"
  by (simp_all add: ioapic_mask_def ioapic_unmask_def route_detach_def Let_def)

lemma irq_deliver_core [keep]: "irq_deliver v k = Some k' \<Longrightarrow> core k' = core k"
  by (auto simp: irq_deliver_def Let_def split: if_splits dest!: keep)

lemma claim_core [keep]: "claim rg route c k = Some (r, k') \<Longrightarrow> core k' = core k"
  by (auto simp: claim_def Let_def elim!: bind_SomeE split: if_splits option.splits prod.splits)

lemma release_core [keep]: "release rg g k = Some (r, k') \<Longrightarrow> core k' = core k"
  by (auto simp: release_def Let_def elim!: bind_SomeE split: if_splits option.splits)

lemma ack_core [keep]: "ack rg g s k = Some (r, k') \<Longrightarrow> core k' = core k"
  by (auto simp: ack_def Let_def elim!: bind_SomeE split: if_splits option.splits dest!: keep)

lemma irq_replay_loop_core [keep]: "irq_replay_loop is rg k = Some k' \<Longrightarrow> core k' = core k"
  by (induction "is" arbitrary: k) (auto elim!: bind_SomeE split: if_splits dest!: keep)

lemma irq_replay_core [keep]: "irq_replay rg k = Some k' \<Longrightarrow> core k' = core k"
  by (auto simp: irq_replay_def elim!: bind_SomeE dest!: keep)

lemma irq_endpoint_destroy_core [simp]: "core (irq_endpoint_destroy r k) = core k"
proof -
  have "core (fold route_detach is k) = core k" for "is" by (induction "is" arbitrary: k) simp_all
  then show ?thesis by (simp add: irq_endpoint_destroy_def)
qed

lemma domain_create_core [keep]: "domain_create rg c k = Some (r, k') \<Longrightarrow> core k' = core k"
  by (auto simp: domain_create_def Let_def elim!: bind_SomeE split: if_splits option.splits prod.splits bool.splits dest!: keep)

lemma domain_free_core [simp]: "core (domain_free d k) = core k"
  by (simp add: domain_free_def)

lemma domain_destroy_core [keep]: "domain_destroy rg c k = (r, k') \<Longrightarrow> core k' = core k"
  by (auto simp: domain_destroy_def split: if_splits option.splits)

lemma device_attach_core [keep]: "device_attach d e f k = Some (r, k') \<Longrightarrow> core k' = core k"
  by (auto simp: device_attach_def Let_def elim!: bind_SomeE split: if_splits option.splits prod.splits bool.splits dest!: keep)

lemma device_detach_core [keep]: "device_detach d e k = Some (r, k') \<Longrightarrow> core k' = core k"
  by (auto simp: device_detach_def Let_def elim!: bind_SomeE split: if_splits option.splits prod.splits)

lemma fault_retire_and_post_core [keep]: "fault_retire_and_post e k = Some k' \<Longrightarrow> core k' = core k"
  by (auto simp: fault_retire_and_post_def Let_def elim!: bind_SomeE split: if_splits option.splits prod.splits dest!: keep)

lemma iommu_report_fault_core [keep]: "iommu_report_fault q i r k = Some k' \<Longrightarrow> core k' = core k"
  by (auto simp: iommu_report_fault_def split: if_splits option.splits dest!: keep)

lemma replay_devices_core [keep]: "replay_devices es k = Some k' \<Longrightarrow> core k' = core k"
  by (induction es arbitrary: k) (auto elim!: bind_SomeE dest!: keep)

lemma iommu_replay_core [keep]: "iommu_replay rg k = Some k' \<Longrightarrow> core k' = core k"
  by (auto simp: iommu_replay_def dest!: keep)

lemma map_block_core [keep]: "map_block pid d base pm k = Some (r, k') \<Longrightarrow> core k' = core k"
  by (auto simp: map_block_def Let_def elim!: bind_SomeE split: if_splits option.splits prod.splits bool.splits dest!: keep)

lemma unlink_mapping_core [keep]: "unlink_mapping d base k = Some k' \<Longrightarrow> core k' = core k"
  by (auto simp: unlink_mapping_def Let_def elim!: bind_SomeE)

lemma unmap_mapping_core [keep]: "unmap_mapping d base k = Some k' \<Longrightarrow> core k' = core k"
  by (auto simp: unmap_mapping_def elim!: bind_SomeE split: prod.splits dest!: keep)

lemma unmap_block_core [keep]: "unmap_block d base k = Some (r, k') \<Longrightarrow> core k' = core k"
  by (auto simp: unmap_block_def elim!: bind_SomeE split: if_splits dest!: keep)

lemma iommu_attach_cmd_core [keep]: "iommu_attach_cmd rg sqe k = Some (r, k') \<Longrightarrow> core k' = core k"
  by (auto simp: iommu_attach_cmd_def elim!: bind_SomeE split: if_splits option.splits prod.splits dest!: keep)

lemma iommu_exec_core [keep]: "iommu_exec pid rg sqe k = Some (r, k') \<Longrightarrow> core k' = core k"
  by (auto simp: iommu_exec_def split: if_splits option.splits dest!: keep)

lemma detach_all_core [keep]: "detach_all es d k = Some k' \<Longrightarrow> core k' = core k"
  by (induction es arbitrary: k) (auto elim!: bind_SomeE split: prod.splits dest!: keep)

lemma unmap_all_core [keep]: "unmap_all bs d k = Some k' \<Longrightarrow> core k' = core k"
  by (induction bs arbitrary: k) (auto elim!: bind_SomeE dest!: keep)

lemma destroy_domains_core [keep]: "destroy_domains ds k = Some k' \<Longrightarrow> core k' = core k"
  by (induction ds arbitrary: k) (auto elim!: bind_SomeE dest!: keep)

lemma iommu_endpoint_destroy_core [keep]: "iommu_endpoint_destroy rg k = Some k' \<Longrightarrow> core k' = core k"
  by (auto simp: iommu_endpoint_destroy_def dest!: keep)

lemma iommu_enum_maps_core [keep]: "iommu_enum_maps c b u n a k = Some (r, k') \<Longrightarrow> core k' = core k"
  by (auto simp: iommu_enum_maps_def Let_def elim!: bind_SomeE split: if_splits option.splits dest!: keep)

lemma iommu_revoke_map_core [keep]: "iommu_revoke_map c b d k = Some (r, k') \<Longrightarrow> core k' = core k"
  by (auto simp: iommu_revoke_map_def elim!: bind_SomeE split: if_splits option.splits dest!: keep)

section \<open>Capabilities\<close>

lemma grant_new_vm [keep]: "grant_new p ty w k = Some (r, k') \<Longrightarrow> vm k' = vm k"
  by (auto simp: grant_new_def Let_def elim!: bind_SomeE split: if_splits option.splits prod.splits bool.splits
      dest!: slab_alloc_core [THEN core_vm] must_alloc_core [THEN core_vm])

lemma grant_delete_leaf_vm [keep]: "grant_delete_leaf g k = Some k' \<Longrightarrow> vm k' = vm k"
  by (auto simp: grant_delete_leaf_def Let_def elim!: bind_SomeE split: option.splits)

lemma revoke_step_vm [keep]: "revoke_step g k = Some (r, k') \<Longrightarrow> vm k' = vm k"
  by (auto simp: revoke_step_def Let_def elim!: bind_SomeE dest!: keep)

lemma subgrant_vm [keep]: "subgrant req pg k = Some (r, t, k') \<Longrightarrow> vm k' = vm k"
  by (auto simp: subgrant_def Let_def elim!: bind_SomeE split: if_splits option.splits prod.splits dest!: keep)

lemma cap_create_irq_route_vm [keep]: "cap_create_irq_route pg i k = Some (r, t, k') \<Longrightarrow> vm k' = vm k"
  by (auto simp: cap_create_irq_route_def Let_def elim!: bind_SomeE split: if_splits option.splits prod.splits dest!: keep)

lemma cap_subgrant_cmd_vm [keep]: "cap_subgrant_cmd rg sqe k = Some (r, e, k') \<Longrightarrow> vm k' = vm k"
  by (auto simp: cap_subgrant_cmd_def elim!: bind_SomeE split: if_splits option.splits prod.splits
      dest!: keep store_bytes_core [THEN core_vm])

lemma cap_revoke_cmd_vm [keep]: "cap_revoke_cmd rg sqe k = Some (r, e, k') \<Longrightarrow> vm k' = vm k"
  by (auto simp: cap_revoke_cmd_def elim!: bind_SomeE split: if_splits prod.splits dest!: keep)

lemma cap_query_cmd_core [keep]: "cap_query_cmd rg sqe k = Some (r, e, k') \<Longrightarrow> core k' = core k"
  by (auto simp: cap_query_cmd_def elim!: bind_SomeE split: if_splits prod.splits dest!: keep)

lemma cap_exec_vm [keep]: "cap_exec rg sqe k = Some (r, e, k') \<Longrightarrow> vm k' = vm k"
  by (auto simp: cap_exec_def split: if_splits dest!: keep core_vm)

lemma allocate_msi_on_ring_vm [keep]: "allocate_msi_on_ring rg sqe k = Some (r, e, k') \<Longrightarrow> vm k' = vm k"
  by (auto simp: allocate_msi_on_ring_def Let_def elim!: bind_SomeE split: if_splits option.splits prod.splits
      dest!: cap_create_irq_route_vm store_bytes_core [THEN core_vm])

lemma irq_exec_vm [keep]: "irq_exec rg sqe k = Some (r, e, k') \<Longrightarrow> vm k' = vm k"
  by (auto simp: irq_exec_def Let_def elim!: bind_SomeE split: if_splits prod.splits
      dest!: keep claim_core [THEN core_vm] release_core [THEN core_vm] ack_core [THEN core_vm])

lemma scheme_exec_vm [keep]: "scheme_exec pid rg sqe k = Some (r, e, k') \<Longrightarrow> vm k' = vm k"
  by (auto simp: scheme_exec_def elim!: bind_SomeE split: scheme.splits prod.splits
      dest!: keep iommu_exec_core [THEN core_vm])

lemma ring_replay_core [keep]: "ring_replay rg k = Some k' \<Longrightarrow> core k' = core k"
  by (auto simp: ring_replay_def elim!: bind_SomeE split: scheme.splits dest!: keep)

lemma run_chunk_loop_vm [keep]: "run_chunk_loop n pid rg tail k = Some r \<Longrightarrow> vm (snd r) = vm k"
  by (induction n arbitrary: k r) (fastforce simp: Let_def elim!: bind_SomeE split: if_splits prod.splits
      dest: scheme_exec_vm store32_core [THEN core_vm] channel_post_core [THEN core_vm])+

lemma ring_run_chunk_vm [keep]: "ring_run_chunk pid rg bg k = Some r \<Longrightarrow> vm (snd r) = vm k"
  by (auto simp: ring_run_chunk_def elim!: bind_SomeE split: if_splits dest!: keep)

lemma drain_loop_vm [keep]: "drain_loop pid a bg ff k = Some r \<Longrightarrow> vm (snd r) = vm k"
  apply (erule drain_loop.raw_induct [where P = "\<lambda>_ _ _ _ k r. vm (snd r) = vm k", rotated])
  subgoal premises prems
    using prems(2) by (auto simp: Let_def elim!: bind_SomeE split: if_splits option.splits
        dest!: prems(1) ring_run_chunk_vm ring_replay_core [THEN core_vm])
  done

lemma channel_ring_drain_vm [keep]: "channel_ring_drain pid a k = Some (r, k') \<Longrightarrow> vm k' = vm k"
  by (auto simp: channel_ring_drain_def dest!: keep)

lemma set_anchor_vm [simp]: "proc_vm (set_anchor s r p) = proc_vm p"
  by (cases s) (simp_all add: set_anchor_def)

lemma channel_scheme_create_core [keep]: "channel_scheme_create pid base s k = Some (r, k') \<Longrightarrow> core k' = core k"
  by (auto simp: channel_scheme_create_def Let_def elim!: bind_SomeE split: if_splits option.splits dest!: keep)

lemma channel_ring_destroy_core [keep]: "channel_ring_destroy b k = Some k' \<Longrightarrow> core k' = core k"
  by (auto simp: channel_ring_destroy_def Let_def elim!: bind_SomeE split: option.splits scheme.splits dest!: keep)

lemma channel_thread_complete_core [keep]: "channel_thread_complete pid base e p k = Some k' \<Longrightarrow> core k' = core k"
  by (auto simp: channel_thread_complete_def elim!: bind_SomeE split: if_splits dest!: keep)

section \<open>Processes and threads\<close>

lemma process_spawn_thread_core [keep]: "process_spawn_thread pid e sp a fs gs cb ce k = Some (r, k') \<Longrightarrow> core k' = core k"
  by (auto simp: process_spawn_thread_def Let_def elim!: bind_SomeE split: prod.splits dest!: keep)

lemma remove_thread_ref_core [keep]: "remove_thread_ref pid t k = Some k' \<Longrightarrow> core k' = core k"
  by (auto simp: remove_thread_ref_def elim!: bind_SomeE)

lemma notify_parent_core [keep]: "notify_parent c k = Some k' \<Longrightarrow> core k' = core k"
  by (auto simp: notify_parent_def elim!: bind_SomeE split: option.splits if_splits dest!: keep)

lemma mark_dead_core [keep]: "mark_dead pid k = Some k' \<Longrightarrow> core k' = core k"
  by (auto simp: mark_dead_def elim!: bind_SomeE split: if_splits)

lemma process_kill_subtree_core [keep]: "process_kill_subtree pid k = Some k' \<Longrightarrow> core k' = core k"
  by (auto simp: process_kill_subtree_def elim!: bind_SomeE dest!: keep)

lemma thread_free_core [keep]: "thread_free pid t k = Some k' \<Longrightarrow> core k' = core k"
  by (auto simp: thread_free_def Let_def elim!: bind_SomeE dest!: keep)

lemma thread_complete_core [keep]: "thread_complete t p k = Some k' \<Longrightarrow> core k' = core k"
  by (auto simp: thread_complete_def elim!: bind_SomeE split: option.splits dest!: keep)

lemma process_thread_exited_core [keep]: "process_thread_exited t k = Some k' \<Longrightarrow> core k' = core k"
  by (auto simp: process_thread_exited_def Let_def elim!: bind_SomeE split: if_splits dest!: keep)

lemma proc_sys_thread_spawn_core [keep]: "proc_sys_thread_spawn me pid s n k = Some (r, k') \<Longrightarrow> core k' = core k"
  by (auto simp: proc_sys_thread_spawn_def Let_def elim!: bind_SomeE split: if_splits option.splits dest!: keep)

lemma proc_sys_process_exit_core [keep]: "proc_sys_process_exit me s k = Some k' \<Longrightarrow> core k' = core k"
  by (auto simp: proc_sys_process_exit_def Let_def elim!: bind_SomeE dest!: keep)

lemma proc_sys_kill_core [keep]: "proc_sys_kill me pid k = Some (r, k') \<Longrightarrow> core k' = core k"
  by (auto simp: proc_sys_kill_def elim!: bind_SomeE split: if_splits option.splits dest!: keep)

lemma proc_sys_threads_core [keep]: "proc_sys_threads me pid b c a k = Some (r, k') \<Longrightarrow> core k' = core k"
  by (auto simp: proc_sys_threads_def elim!: bind_SomeE split: if_splits option.splits dest!: keep)

lemma proc_sys_children_core [keep]: "proc_sys_children me pid b c a k = Some (r, k') \<Longrightarrow> core k' = core k"
  by (auto simp: proc_sys_children_def elim!: bind_SomeE split: if_splits option.splits dest!: keep)

lemma reap_blocked_core [keep]: "reap_blocked t k = Some (r, k') \<Longrightarrow> core k' = core k"
  by (auto simp: reap_blocked_def elim!: bind_SomeE split: if_splits prod.splits dest!: keep)

lemma proc_sys_thread_destroy_core [keep]: "proc_sys_thread_destroy me pid t k = Some (r, k') \<Longrightarrow> core k' = core k"
  by (auto simp: proc_sys_thread_destroy_def elim!: bind_SomeE split: if_splits option.splits prod.splits dest!: keep)

lemma umem_enum_blocks_core [keep]: "umem_enum_blocks me pid b c a k = Some (r, k') \<Longrightarrow> core k' = core k"
  by (auto simp: umem_enum_blocks_def elim!: bind_SomeE split: if_splits option.splits dest!: keep)

lemma umem_enum_views_core [keep]: "umem_enum_views me pid b c a k = Some (r, k') \<Longrightarrow> core k' = core k"
  by (auto simp: umem_enum_views_def elim!: bind_SomeE split: if_splits option.splits dest!: keep)

lemma umem_enum_sharers_core [keep]: "umem_enum_sharers me base b c a k = Some (r, k') \<Longrightarrow> core k' = core k"
  by (auto simp: umem_enum_sharers_def elim!: bind_SomeE split: if_splits option.splits dest!: keep)

section \<open>System calls that keep memory\<close>

lemma futex_sys_wake_vm [keep]: "futex_sys_wake me a c k = Some (r, k') \<Longrightarrow> vm k' = vm k"
  by (auto simp: futex_sys_wake_def elim!: bind_SomeE split: if_splits option.splits dest!: keep wake_batch_core [THEN core_vm])

lemma compare_and_park_core [keep]: "compare_and_park t a e d k = Some (r, k') \<Longrightarrow> core k' = core k"
  by (auto simp: compare_and_park_def Let_def elim!: bind_SomeE split: if_splits prod.splits bool.splits dest!: keep)

lemma futex_sys_wait_vm [keep]: "futex_sys_wait me t a e w d k = Some (r, k') \<Longrightarrow> vm k' = vm k"
  by (auto simp: futex_sys_wait_def elim!: bind_SomeE split: if_splits
      dest!: keep uthread_park_core [THEN core_vm] compare_and_park_core [THEN core_vm])

lemma futex_sys_requeue_core [keep]: "futex_sys_requeue me a b e c k = Some (r, k') \<Longrightarrow> core k' = core k"
  by (auto simp: futex_sys_requeue_def Let_def elim!: bind_SomeE split: if_splits prod.splits dest!: keep)

lemma sys_debug_write_core [keep]: "sys_debug_write me p n k = Some (r, k') \<Longrightarrow> core k' = core k"
  by (auto simp: sys_debug_write_def elim!: bind_SomeE split: if_splits)

lemma switched_out_core [keep]: "switched_out t k = Some k' \<Longrightarrow> core k' = core k"
  by (auto simp: switched_out_def elim!: bind_SomeE split: if_splits dest!: keep)

lemma park_exit_core [keep]: "park_exit t k = Some (r, k') \<Longrightarrow> core k' = core k"
  by (auto simp: park_exit_def elim!: bind_SomeE dest!: keep)

lemma sys_futex_wait_vm [keep]: "sys_futex_wait me t a b c d k = Some (r, k') \<Longrightarrow> vm k' = vm k"
  by (auto simp: sys_futex_wait_def elim!: bind_SomeE split: if_splits prod.splits
      dest!: keep switched_out_core [THEN core_vm])

lemma timer_core [simp]: "core (timer_cpu_dispatch q k) = core k" "core (timer_cpu_idle k) = core k"
  by (simp_all add: timer_cpu_dispatch_def timer_cpu_idle_def Let_def)

lemma scheduler_iterate_core [keep]: "scheduler_iterate k = Some k' \<Longrightarrow> core k' = core k"
  by (auto simp: scheduler_iterate_def scheduler_pop_local_def Let_def elim!: bind_SomeE
      split: if_splits prod.splits option.splits list.splits dest!: keep)

lemma expire_loop_core [keep]: "expire_loop i now s n k = Some r \<Longrightarrow> core (snd r) = core k"
  apply (erule expire_loop.raw_induct [where P = "\<lambda>_ _ _ _ k r. core (snd r) = core k", rotated])
  subgoal premises prems
    using prems(2) by (auto simp: Let_def elim!: bind_SomeE split: if_splits list.splits prod.splits dest!: prems(1) keep)
  done

lemma futex_expire_claimed_core [keep]: "futex_expire_claimed t k = Some k' \<Longrightarrow> core k' = core k"
  by (auto simp: futex_expire_claimed_def elim!: bind_SomeE dest!: keep)

lemma expire_batch_core [keep]: "expire_batch ts k = Some k' \<Longrightarrow> core k' = core k"
  by (induction ts arbitrary: k) (auto elim!: bind_SomeE dest!: keep)

lemma timer_cpu_interrupt_core [keep]: "timer_cpu_interrupt k = Some (q, k') \<Longrightarrow> core k' = core k"
  by (auto simp: timer_cpu_interrupt_def Let_def elim!: bind_SomeE split: if_splits prod.splits dest!: keep)

end
