(* ===== verification/Isolation.thy ===== *)
theory Isolation
  imports Vm_Frame
begin

text \<open>
  Memory isolation.  In the single address space a process is kept out of everything it was not given by
  its page tables alone.  \<open>vm_ok\<close> says so: a page is mapped for user access only inside a block the process
  owns or is a sharer of; the kernel's own view and the flags a block falls back to never allow user
  access; and the two indices of a process name only such blocks.  Every operation of \<^verbatim>\<open>umem.c\<close> keeps it.
\<close>

section \<open>The invariant\<close>

definition page_range :: "u64 \<Rightarrow> u64 \<Rightarrow> nat set" where
  "page_range s e = {unat s div PAGE_SIZE ..< unat e div PAGE_SIZE}"

definition block_pages :: "ublock \<Rightarrow> nat set" where
  "block_pages b = page_range (ub_base b) (ub_base b + ub_bytes b)"

text \<open>The process can reach the page in user mode.\<close>

definition maps_page :: "kernel \<Rightarrow> u64 \<Rightarrow> nat \<Rightarrow> bool" where
  "maps_page k pid pg \<longleftrightarrow> (\<exists>p v. proc k pid = Some p \<and> p_as p = Some v \<and> page_flags v pg AND PAGE_U \<noteq> 0)"

definition holds :: "ublock \<Rightarrow> u64 \<Rightarrow> bool" where
  "holds b pid \<longleftrightarrow> ub_owner b = pid \<or> om_lookup (ub_sharers b) pid \<noteq> None"

definition may_access :: "kernel \<Rightarrow> u64 \<Rightarrow> nat \<Rightarrow> bool" where
  "may_access k pid pg \<longleftrightarrow> (\<exists>base b. block k base = Some b \<and> holds b pid \<and> pg \<in> block_pages b)"

text \<open>
  While an operation is under way some pages are mapped ahead of, or left mapped after, the block that
  justifies them; \<open>X\<close> is the set of these.  Between operations it is empty.
\<close>

definition isolated :: "(u64 \<times> nat) set \<Rightarrow> kernel \<Rightarrow> bool" where
  "isolated X k \<longleftrightarrow> (\<forall>pid pg. maps_page k pid pg \<longrightarrow> may_access k pid pg \<or> (pid, pg) \<in> X)"

definition kernel_private :: "kernel \<Rightarrow> bool" where
  "kernel_private k \<longleftrightarrow> (\<forall>pg. page_flags (g_as_kernel k) pg AND PAGE_U = 0)"

definition blocks_ok :: "kernel \<Rightarrow> bool" where
  "blocks_ok k \<longleftrightarrow> (\<forall>base b. block k base = Some b \<longrightarrow> ub_base b = base \<and> ub_kernel_flags b AND PAGE_U = 0)"

definition indexed :: "kernel \<Rightarrow> bool" where
  "indexed k \<longleftrightarrow> (\<forall>pid p base. proc k pid = Some p \<longrightarrow>
     (om_lookup (p_blocks p) base \<noteq> None \<longrightarrow> (\<exists>b. block k base = Some b \<and> ub_owner b = pid)) \<and>
     (om_lookup (p_views p) base \<noteq> None \<longrightarrow> (\<exists>b. block k base = Some b \<and> om_lookup (ub_sharers b) pid \<noteq> None)))"

definition vm_inv :: "(u64 \<times> nat) set \<Rightarrow> kernel \<Rightarrow> bool" where
  "vm_inv X k \<longleftrightarrow> isolated X k \<and> kernel_private k \<and> blocks_ok k \<and> indexed k"

definition vm_ok :: "kernel \<Rightarrow> bool" where
  "vm_ok k \<longleftrightarrow> vm_inv {} k"

section \<open>What the invariant depends on\<close>

lemma vm_eqD:
  assumes "vm k' = vm k"
  shows "map_option proc_vm (proc k' pid) = map_option proc_vm (proc k pid)"
    "map_option block_vm (block k' base) = map_option block_vm (block k base)"
    "page_flags (g_as_kernel k') = page_flags (g_as_kernel k)" "g_next_pid k' = g_next_pid k"
  using assms by (simp_all add: vm_def fun_eq_iff)

lemma vm_maps_page: "vm k' = vm k \<Longrightarrow> maps_page k' = maps_page k"
proof (intro ext)
  fix pid pg assume "vm k' = vm k"
  then have "map_option proc_vm (proc k' pid) = map_option proc_vm (proc k pid)" by (rule vm_eqD)
  then show "maps_page k' pid pg = maps_page k pid pg"
    by (cases "proc k pid"; cases "proc k' pid") (auto simp: maps_page_def proc_vm_def map_option_case split: option.splits)
qed

lemma block_vm_Some:
  assumes "map_option block_vm (block k' base) = map_option block_vm (block k base)" "block k' base = Some b'"
  obtains b where "block k base = Some b" "ub_base b = ub_base b'" "ub_bytes b = ub_bytes b'"
    "ub_kernel_flags b = ub_kernel_flags b'" "ub_owner b = ub_owner b'"
    "\<And>pid. (om_lookup (ub_sharers b) pid \<noteq> None) = (om_lookup (ub_sharers b') pid \<noteq> None)"
  using assms by (cases "block k base") (auto simp: block_vm_def set_eq_iff)

lemma vm_inv_vm_imp:
  assumes "vm k' = vm k" "vm_inv X k"
  shows "vm_inv X k'"
proof -
  note eq = vm_eqD [OF assms(1)]
  have bk: "\<exists>b'. block k' base = Some b' \<and> ub_base b' = ub_base b \<and> ub_bytes b' = ub_bytes b \<and> ub_owner b' = ub_owner b \<and>
      (\<forall>pid. (om_lookup (ub_sharers b') pid \<noteq> None) = (om_lookup (ub_sharers b) pid \<noteq> None))" if "block k base = Some b" for base b
    by (rule block_vm_Some [OF eq(2) [symmetric] that]) auto
  have "may_access k' pid pg" if "may_access k pid pg" for pid pg
    using that bk unfolding may_access_def holds_def block_pages_def by metis
  then have "isolated X k'" using assms(2) vm_maps_page [OF assms(1)] unfolding vm_inv_def isolated_def by auto
  moreover have "kernel_private k'" using assms(2) eq(3) by (simp add: vm_inv_def kernel_private_def)
  moreover have "blocks_ok k'"
    unfolding blocks_ok_def
  proof (intro allI impI)
    fix base b' assume "block k' base = Some b'"
    then obtain b where "block k base = Some b" "ub_base b = ub_base b'" "ub_kernel_flags b = ub_kernel_flags b'"
      by (rule block_vm_Some [OF eq(2)])
    then show "ub_base b' = base \<and> ub_kernel_flags b' AND PAGE_U = 0"
      using assms(2) unfolding vm_inv_def blocks_ok_def by metis
  qed
  moreover have "indexed k'"
    unfolding indexed_def
  proof (intro allI impI)
    fix pid p' base assume "proc k' pid = Some p'"
    then obtain p where "proc k pid = Some p" "p_blocks p = p_blocks p'" "p_views p = p_views p'"
      using eq(1) [of pid] by (cases "proc k pid") (auto simp: proc_vm_def)
    then have "(om_lookup (p_blocks p') base \<noteq> None \<longrightarrow> (\<exists>b. block k base = Some b \<and> ub_owner b = pid)) \<and>
        (om_lookup (p_views p') base \<noteq> None \<longrightarrow> (\<exists>b. block k base = Some b \<and> om_lookup (ub_sharers b) pid \<noteq> None))"
      using assms(2) unfolding vm_inv_def indexed_def by simp
    then show "(om_lookup (p_blocks p') base \<noteq> None \<longrightarrow> (\<exists>b. block k' base = Some b \<and> ub_owner b = pid)) \<and>
        (om_lookup (p_views p') base \<noteq> None \<longrightarrow> (\<exists>b. block k' base = Some b \<and> om_lookup (ub_sharers b) pid \<noteq> None))"
      using bk [of base] by (elim conjE; intro conjI impI; fastforce)
  qed
  ultimately show ?thesis by (simp add: vm_inv_def)
qed

lemma vm_inv_cong: "vm k' = vm k \<Longrightarrow> vm_inv X k' = vm_inv X k"
  using vm_inv_vm_imp [of k' k] vm_inv_vm_imp [of k k'] by auto

lemma vm_inv_core: "core k' = core k \<Longrightarrow> vm_inv X k' = vm_inv X k"
  by (rule vm_inv_cong [OF core_vm])

section \<open>Flags\<close>

lemma page_flag_bits [simp]:
  "PAGE_U AND PAGE_U = PAGE_U" "PAGE_U \<noteq> 0" "PAGE_R AND PAGE_U = 0" "PAGE_W AND PAGE_U = 0" "PAGE_X AND PAGE_U = 0"
  "PAGE_UC AND PAGE_U = 0" "PAGE_WT AND PAGE_U = 0" "PAGE_WB AND PAGE_U = 0" "PAGE_CACHE_MASK AND PAGE_U = 0"
  by (simp_all add: PAGE_U_def PAGE_R_def PAGE_W_def PAGE_X_def PAGE_UC_def PAGE_WT_def PAGE_WB_def PAGE_CACHE_MASK_def)

lemma and_or_U [simp]: "(a OR b) AND PAGE_U = 0 \<longleftrightarrow> a AND PAGE_U = 0 \<and> b AND PAGE_U = 0"
  by (simp add: bit.conj_disj_distrib2 or_eq_0_iff)

lemma pristine_private [simp]: "PAGE_KERNEL_PRISTINE AND PAGE_U = 0"
  by (simp add: PAGE_KERNEL_PRISTINE_def)

lemma flags_user:
  assumes "leaf_flags_to_pte f = Some pte" "f AND PAGE_U = 0"
  shows "pte_to_flags pte AND PAGE_U = 0"
proof -
  have "pte AND PTE_US = 0"
    using assms by (auto simp: leaf_flags_to_pte_def Let_def PTE_P_def PTE_RW_def PTE_US_def PTE_NX_def PTE_PCD_def PTE_PWT_def
        bit.conj_disj_distrib2 split: if_splits)
  then show ?thesis by (simp add: pte_to_flags_def Let_def)
qed

section \<open>Primitive steps\<close>

lemma vm_invI:
  assumes "\<And>pid pg. maps_page k pid pg \<Longrightarrow> may_access k pid pg \<or> (pid, pg) \<in> X" "kernel_private k"
    "\<And>base b. block k base = Some b \<Longrightarrow> ub_base b = base \<and> ub_kernel_flags b AND PAGE_U = 0"
    "\<And>pid p base. proc k pid = Some p \<Longrightarrow> om_lookup (p_blocks p) base \<noteq> None \<Longrightarrow> \<exists>b. block k base = Some b \<and> ub_owner b = pid"
    "\<And>pid p base. proc k pid = Some p \<Longrightarrow> om_lookup (p_views p) base \<noteq> None \<Longrightarrow>
      \<exists>b. block k base = Some b \<and> om_lookup (ub_sharers b) pid \<noteq> None"
  shows "vm_inv X k"
  using assms unfolding vm_inv_def isolated_def blocks_ok_def indexed_def by blast

lemma vm_invD:
  assumes "vm_inv X k"
  shows "maps_page k pid pg \<Longrightarrow> may_access k pid pg \<or> (pid, pg) \<in> X" "kernel_private k"
    "block k base = Some b \<Longrightarrow> ub_base b = base" "block k base = Some b \<Longrightarrow> ub_kernel_flags b AND PAGE_U = 0"
    "proc k pid = Some p \<Longrightarrow> om_lookup (p_blocks p) base \<noteq> None \<Longrightarrow> \<exists>b. block k base = Some b \<and> ub_owner b = pid"
    "proc k pid = Some p \<Longrightarrow> om_lookup (p_views p) base \<noteq> None \<Longrightarrow>
      \<exists>b. block k base = Some b \<and> om_lookup (ub_sharers b) pid \<noteq> None"
  using assms unfolding vm_inv_def isolated_def blocks_ok_def indexed_def by blast+

lemma vm_inv_owner:
  "vm_inv X k \<Longrightarrow> proc k pid = Some p \<Longrightarrow> om_lookup (p_blocks p) base \<noteq> None \<Longrightarrow> block k base = Some b \<Longrightarrow> ub_owner b = pid"
  using vm_invD(5) by fastforce

lemma may_accessI: "block k base = Some b \<Longrightarrow> holds b pid \<Longrightarrow> pg \<in> block_pages b \<Longrightarrow> may_access k pid pg"
  unfolding may_access_def by blast

lemma vm_inv_mono: "vm_inv X k \<Longrightarrow> X \<subseteq> Y \<Longrightarrow> vm_inv Y k"
  unfolding vm_inv_def isolated_def by blast

text \<open>A page that a block justifies need not be excepted.\<close>

lemma vm_inv_justified: "vm_inv X k \<Longrightarrow> (\<And>pid pg. (pid, pg) \<in> X - Y \<Longrightarrow> may_access k pid pg) \<Longrightarrow> vm_inv Y k"
  unfolding vm_inv_def isolated_def by blast

lemma proc_flagE:
  assumes "proc_flag pid s e f k = Some k'"
  obtains p v pte v' x where "proc k pid = Some p" "p_as p = Some v" "leaf_flags_to_pte f = Some pte \<or> s = e"
    "k' = upd_proc pid (\<lambda>p. p\<lparr>p_as := Some v'\<rparr>) (k\<lparr>g_oom := x\<rparr>)"
    "\<And>pg. page_flags v' pg = (if pg \<in> page_range s e then pte_to_flags pte else page_flags v pg)"
proof -
  obtain p v k1 v' where 1: "proc k pid = Some p" "p_as p = Some v" "must_alloc k = Some k1" "view_flag s e f v = Some v'"
    "k' = upd_proc pid (\<lambda>p. p\<lparr>p_as := Some v'\<rparr>) k1"
    using assms by (auto simp: proc_flag_def elim!: bind_SomeE)
  obtain x where x: "k1 = k\<lparr>g_oom := x\<rparr>" using must_alloc_frame [OF 1(3)] by blast
  have "\<exists>pte. (leaf_flags_to_pte f = Some pte \<or> s = e) \<and>
      (\<forall>pg. page_flags v' pg = (if pg \<in> page_range s e then pte_to_flags pte else page_flags v pg))"
    using 1(4) by (auto simp: view_flag_def page_range_def elim!: bind_SomeE split: if_splits)
  then show thesis using that [OF 1(1,2)] 1(5) x by blast
qed

lemma proc_flag_parts:
  assumes "proc_flag pid s e f k = Some k'"
  shows "maps_page k' q pg \<Longrightarrow> (if q = pid \<and> pg \<in> page_range s e then f AND PAGE_U \<noteq> 0 else maps_page k q pg)"
    "block k' = block k" "g_as_kernel k' = g_as_kernel k"
    "proc k' q = Some p' \<Longrightarrow> \<exists>p. proc k q = Some p \<and> p_blocks p' = p_blocks p \<and> p_views p' = p_views p"
proof -
  obtain p v pte v' x where *: "proc k pid = Some p" "p_as p = Some v" "leaf_flags_to_pte f = Some pte \<or> s = e"
    "k' = upd_proc pid (\<lambda>p. p\<lparr>p_as := Some v'\<rparr>) (k\<lparr>g_oom := x\<rparr>)"
    "\<And>pg. page_flags v' pg = (if pg \<in> page_range s e then pte_to_flags pte else page_flags v pg)"
    using assms by (rule proc_flagE) blast
  have pr: "proc k' q = (if q = pid then Some (p\<lparr>p_as := Some v'\<rparr>) else proc k q)" for q
    using *(1) by (simp add: *(4))
  show "block k' = block k" "g_as_kernel k' = g_as_kernel k" by (simp_all add: *(4) fun_eq_iff upd_proc_def)
  show "proc k' q = Some p' \<Longrightarrow> \<exists>p. proc k q = Some p \<and> p_blocks p' = p_blocks p \<and> p_views p' = p_views p"
    using *(1) by (auto simp: pr split: if_splits)
  assume m: "maps_page k' q pg"
  show "if q = pid \<and> pg \<in> page_range s e then f AND PAGE_U \<noteq> 0 else maps_page k q pg"
  proof (cases "q = pid \<and> pg \<in> page_range s e")
    case True
    then have "s \<noteq> e" by (auto simp: page_range_def)
    then show ?thesis using m True *(3,5) flags_user [of f pte] by (auto simp: maps_page_def pr)
  next
    case False
    then show ?thesis using m *(1,2,5) by (auto simp: maps_page_def pr split: if_splits)
  qed
qed

lemma proc_flag_inv:
  assumes "vm_inv X k" "proc_flag pid s e f k = Some k'"
  shows "vm_inv (X - {pid} \<times> page_range s e \<union> (if f AND PAGE_U \<noteq> 0 then {pid} \<times> page_range s e else {})) k'"
proof (rule vm_invI)
  note P = proc_flag_parts [OF assms(2)] and I = vm_invD [OF assms(1)]
  have ma: "may_access k' = may_access k" by (simp add: may_access_def fun_eq_iff P(2))
  show "may_access k' q pg \<or> (q, pg) \<in> X - {pid} \<times> page_range s e \<union> (if f AND PAGE_U \<noteq> 0 then {pid} \<times> page_range s e else {})"
    if "maps_page k' q pg" for q pg
    using P(1) [OF that] I(1) [of q pg] by (auto simp: ma split: if_splits)
  show "kernel_private k'" using I(2) by (simp add: kernel_private_def P(3))
  show "block k' base = Some b \<Longrightarrow> ub_base b = base \<and> ub_kernel_flags b AND PAGE_U = 0" for base b
    using I(3,4) by (auto simp: P(2))
  fix q p' base assume "proc k' q = Some p'"
  then obtain p where "proc k q = Some p" "p_blocks p' = p_blocks p" "p_views p' = p_views p" using P(4) by blast
  then show "om_lookup (p_blocks p') base \<noteq> None \<Longrightarrow> \<exists>b. block k' base = Some b \<and> ub_owner b = q"
    "om_lookup (p_views p') base \<noteq> None \<Longrightarrow> \<exists>b. block k' base = Some b \<and> om_lookup (ub_sharers b) q \<noteq> None"
    using I(5,6) by (simp_all add: P(2))
qed

lemma kernel_flag_inv:
  assumes "vm_inv X k" "kernel_flag s e f k = Some k'" "f AND PAGE_U = 0"
  shows "vm_inv X k'"
proof -
  obtain k1 v where 1: "must_alloc k = Some k1" "view_flag s e f (g_as_kernel k1) = Some v" "k' = k1\<lparr>g_as_kernel := v\<rparr>"
    using assms(2) by (auto simp: kernel_flag_def elim!: bind_SomeE)
  obtain x where x: "k1 = k\<lparr>g_oom := x\<rparr>" using must_alloc_frame [OF 1(1)] by blast
  have "page_flags v pg AND PAGE_U = 0" for pg
    using 1(2) assms(1,3) x flags_user [of f]
    by (auto simp: view_flag_def vm_inv_def kernel_private_def elim!: bind_SomeE split: if_splits)
  then show ?thesis
    using assms(1) unfolding 1(3) x vm_inv_def isolated_def maps_page_def may_access_def kernel_private_def blocks_ok_def indexed_def
    by simp
qed

lemma flag_all_inv:
  assumes "vm_inv X k" "flag_all pids s e f k = Some k'" "f AND PAGE_U = 0"
  shows "vm_inv X k'"
  using assms(1,2)
proof (induction pids arbitrary: k)
  case (Cons pid pids)
  obtain k1 where 1: "proc_flag pid s e f k = Some k1 \<or> k1 = k" "flag_all pids s e f k1 = Some k'"
    using Cons.prems(2) by (fastforce elim!: bind_SomeE split: if_splits)
  have "vm_inv X k1"
    using 1(1) Cons.prems(1) proc_flag_inv [of X k pid s e f k1] assms(3) by (auto split: if_splits intro: vm_inv_mono)
  then show ?case using Cons.IH 1(2) by blast
qed simp

text \<open>An update of one process whose new index entries name blocks it holds.\<close>

lemma upd_proc_inv:
  assumes "vm_inv X k" "\<And>p. map_option page_flags (p_as (f p)) = map_option page_flags (p_as p)"
    "\<And>p base. proc k pid = Some p \<Longrightarrow> om_lookup (p_blocks (f p)) base \<noteq> None \<Longrightarrow> om_lookup (p_blocks p) base \<noteq> None \<or>
      (\<exists>b. block k base = Some b \<and> ub_owner b = pid)"
    "\<And>p base. proc k pid = Some p \<Longrightarrow> om_lookup (p_views (f p)) base \<noteq> None \<Longrightarrow> om_lookup (p_views p) base \<noteq> None \<or>
      (\<exists>b. block k base = Some b \<and> om_lookup (ub_sharers b) pid \<noteq> None)"
  shows "vm_inv X (upd_proc pid f k)"
proof (rule vm_invI)
  note I = vm_invD [OF assms(1)]
  let ?k = "upd_proc pid f k"
  have mp: "maps_page ?k q pg = maps_page k q pg" for q pg
  proof (cases "q = pid")
    case True
    have "(\<exists>v. p_as (f p) = Some v \<and> page_flags v pg AND PAGE_U \<noteq> 0) = (\<exists>v. p_as p = Some v \<and> page_flags v pg AND PAGE_U \<noteq> 0)" for p
      using assms(2) [of p] by (cases "p_as p"; cases "p_as (f p)") auto
    then show ?thesis using True by (auto simp: maps_page_def)
  qed (simp add: maps_page_def)
  have ma: "may_access ?k = may_access k" by (simp add: may_access_def fun_eq_iff)
  show "maps_page ?k q pg \<Longrightarrow> may_access ?k q pg \<or> (q, pg) \<in> X" for q pg using I(1) by (simp add: mp ma)
  show "kernel_private ?k" using I(2) by (simp add: kernel_private_def upd_proc_def)
  show "block ?k base = Some b \<Longrightarrow> ub_base b = base \<and> ub_kernel_flags b AND PAGE_U = 0" for base b
    using I(3,4) by auto
  fix q p' base assume a: "proc ?k q = Some p'"
  show "om_lookup (p_blocks p') base \<noteq> None \<Longrightarrow> \<exists>b. block ?k base = Some b \<and> ub_owner b = q"
    using a I(5) [of q] assms(3) [of "the (proc k pid)" base] by (fastforce split: if_splits)
  show "om_lookup (p_views p') base \<noteq> None \<Longrightarrow> \<exists>b. block ?k base = Some b \<and> om_lookup (ub_sharers b) q \<noteq> None"
    using a I(6) [of q] assms(4) [of "the (proc k pid)" base] by (fastforce split: if_splits)
qed

text \<open>A change of the block at one base: new holders are free, lost ones become exceptions.\<close>

lemma upd_block_inv:
  assumes "vm_inv X k" and blk: "block k' = (block k)(base := b')" and pr: "proc k' = proc k" and kv: "g_as_kernel k' = g_as_kernel k"
    and b': "\<And>b. b' = Some b \<Longrightarrow> ub_base b = base \<and> ub_kernel_flags b AND PAGE_U = 0"
    and own: "\<And>pid p. proc k pid = Some p \<Longrightarrow> om_lookup (p_blocks p) base \<noteq> None \<Longrightarrow> \<exists>b. b' = Some b \<and> ub_owner b = pid"
    and view: "\<And>pid p. proc k pid = Some p \<Longrightarrow> om_lookup (p_views p) base \<noteq> None \<Longrightarrow>
      \<exists>b. b' = Some b \<and> om_lookup (ub_sharers b) pid \<noteq> None"
    and lost: "\<And>b pid pg. block k base = Some b \<Longrightarrow> holds b pid \<Longrightarrow> pg \<in> block_pages b \<Longrightarrow>
      (\<exists>c. b' = Some c \<and> holds c pid \<and> pg \<in> block_pages c) \<or> (pid, pg) \<in> Y"
    and rest: "\<And>pid pg. (pid, pg) \<in> X \<Longrightarrow> (\<exists>c. b' = Some c \<and> holds c pid \<and> pg \<in> block_pages c) \<or> (pid, pg) \<in> Y"
  shows "vm_inv Y k'"
proof (rule vm_invI)
  note I = vm_invD [OF assms(1)]
  have new: "may_access k' q pg" if "\<exists>c. b' = Some c \<and> holds c q \<and> pg \<in> block_pages c" for q pg
    using that unfolding may_access_def blk by (metis fun_upd_same)
  have acc: "may_access k' q pg \<or> (q, pg) \<in> Y" if ac: "may_access k q pg" for q pg
  proof -
    obtain a b where ab: "block k a = Some b" "holds b q" "pg \<in> block_pages b" using ac by (auto simp: may_access_def)
    show ?thesis
    proof (cases "a = base")
      case True
      then show ?thesis using lost ab new by blast
    next
      case False
      then show ?thesis using ab unfolding may_access_def blk by (metis fun_upd_other)
    qed
  qed
  show "may_access k' q pg \<or> (q, pg) \<in> Y" if "maps_page k' q pg" for q pg
    using that I(1) [of q pg] acc rest new unfolding maps_page_def pr by blast
  show "kernel_private k'" using I(2) by (simp add: kernel_private_def kv)
  show "ub_base b = a \<and> ub_kernel_flags b AND PAGE_U = 0" if "block k' a = Some b" for a b
    using that b' I(3,4) by (auto simp: blk split: if_splits)
  fix q p a assume "proc k' q = Some p"
  then show "om_lookup (p_blocks p) a \<noteq> None \<Longrightarrow> \<exists>b. block k' a = Some b \<and> ub_owner b = q"
    "om_lookup (p_views p) a \<noteq> None \<Longrightarrow> \<exists>b. block k' a = Some b \<and> om_lookup (ub_sharers b) q \<noteq> None"
    using own view I(5,6) by (auto simp: blk pr)
qed

section \<open>Operations\<close>

lemma index_block_inv:
  assumes "vm_inv X k" "index_block b k = Some k'" "ub_kernel_flags b AND PAGE_U = 0"
  shows "vm_inv (X - {ub_owner b} \<times> block_pages b) k'"
proof -
  let ?f = "\<lambda>p. p\<lparr>p_blocks := om_insert (ub_base b) () (p_blocks p)\<rparr>"
  obtain k1 where 1: "must_alloc k = Some k1" "block k1 (ub_base b) = None"
    "k' = upd_proc (ub_owner b) ?f (k1\<lparr>g_ublocks := om_insert (ub_base b) b (g_ublocks k1)\<rparr>)"
    using assms(2) by (auto simp: index_block_def Let_def upd_proc_def elim!: bind_SomeE)
  have inv: "vm_inv X k1" using assms(1) vm_inv_core [OF must_alloc_core [OF 1(1)]] by simp
  note I = vm_invD [OF inv]
  let ?k = "k1\<lparr>g_ublocks := om_insert (ub_base b) b (g_ublocks k1)\<rparr>"
  have bl: "block ?k = (block k1)(ub_base b \<mapsto> b)" using 1(2) by (auto simp: block_def fun_eq_iff)
  have no: "om_lookup (p_blocks p) (ub_base b) = None" "om_lookup (p_views p) (ub_base b) = None" if "proc k1 pid = Some p" for pid p
    using I(5) [OF that, of "ub_base b"] I(6) [OF that, of "ub_base b"] 1(2) by (metis option.distinct(1))+
  have "vm_inv (X - {ub_owner b} \<times> block_pages b) ?k"
    using assms(3) 1(2) no by (intro upd_block_inv [OF inv bl]) (auto simp: holds_def)
  then show ?thesis unfolding 1(3) using bl by (intro upd_proc_inv) (auto split: if_splits)
qed

lemma umem_alloc_inv:
  assumes "vm_inv {} k" "umem_alloc pid nb prot k = Some (r, k')"
  shows "vm_inv {} k'"
proof (cases "nb = 0")
  case True
  then show ?thesis using assms by (simp add: umem_alloc_def)
next
  case False
  then obtain s where s: "buddy_page_alloc (g_allocator k) (2 ^ find_order 0 ((nb + 4096 - 1) div 4096)) = Some s"
    using assms(2) by (auto simp: umem_alloc_def Let_def elim!: bind_SomeE)
  show ?thesis
  proof (cases s)
    case (Inl a)
    then show ?thesis using assms s False by (simp add: umem_alloc_def Let_def)
  next
    case (Inr a)
    obtain page_id ba where a: "a = (page_id, ba)" by (cases a)
    define order where "order = find_order 0 ((nb + 4096 - 1) div 4096)"
    define base where "base = (of_nat page_id * 4096 :: u64)"
    define bytes where "bytes = (push_bit order 4096 :: u64)"
    define b where "b = new_ublock base order bytes UBLOCK_RAM 0 PAGE_KERNEL_PRISTINE True pid"
    have give: "buddy_give_back page_id k1 = Some k2 \<Longrightarrow> core k2 = core k1" for k1 k2
      by (auto simp: buddy_give_back_def elim!: bind_SomeE split: sum.splits)
    consider (fail) "core k' = core k" | (ok) k1 k2 where "core k1 = core k"
      "proc_flag pid base (base + bytes) (prot OR PAGE_U) k1 = Some k2" "index_block b k2 = Some k'"
      using assms(2) s False Inr
      by (auto simp: umem_alloc_def Let_def a b_def base_def bytes_def order_def elim!: bind_SomeE
          split: prod.splits bool.splits dest!: kmemset_core slab_alloc_core give)
    then show ?thesis
    proof cases
      case fail
      then show ?thesis using assms(1) vm_inv_core by blast
    next
      case ok
      have "vm_inv {} k1" using assms(1) vm_inv_core [OF ok(1)] by simp
      from proc_flag_inv [OF this ok(2)] have "vm_inv ({pid} \<times> page_range base (base + bytes)) k2" by simp
      from index_block_inv [OF this ok(3)] show ?thesis
        by (simp add: b_def new_ublock_def block_pages_def)
    qed
  qed
qed

lemma validate_device_private:
  "platform_mem_validate_device m pr ec base n fl = Some (kf, d) \<Longrightarrow> kf AND PAGE_U = 0"
  by (auto simp: platform_mem_validate_device_def split: option.splits if_splits)

lemma umem_map_device_inv:
  assumes "vm_inv {} k" "umem_map_device pid base nb flags k = Some (r, k')"
  shows "vm_inv {} k'"
proof (cases "platform_mem_validate_device (g_mmap k) (g_protected k) (g_ecam k) base nb flags")
  case None
  then show ?thesis using assms by (simp add: umem_map_device_def)
next
  case (Some a)
  obtain kf dl where a: "a = (kf, dl)" by (cases a)
  have kf: "kf AND PAGE_U = 0" using Some a validate_device_private by blast
  define hi where "hi = base + nb"
  define df where "df = (let df = PAGE_R; df = (if flags AND VM_DEVICE_WRITE \<noteq> 0 then df OR PAGE_W else df)
      in if flags AND VM_DEVICE_FIRMWARE = 0 then df OR PAGE_UC else df)"
  define b where "b = new_ublock base 0 nb UBLOCK_DEVICE df kf dl pid"
  show ?thesis
  proof (cases "device_conflict k base hi")
    case True
    then show ?thesis using assms Some by (simp add: umem_map_device_def a hi_def Let_def)
  next
    case False
    have u: "(do {
               k \<leftarrow> kernel_flag base hi kf k;
               k \<leftarrow> flag_all (map fst (om_entries (g_procs k))) base hi kf k;
               (case slab_alloc k of
                  (False, k) \<Rightarrow> Some (SYSERR_NOMEM, k)
                | (True, k) \<Rightarrow>
                    (case slab_alloc k of
                       (False, k) \<Rightarrow> Some (SYSERR_NOMEM, k)
                     | (True, k) \<Rightarrow> do {
                         k \<leftarrow> proc_flag pid base hi (df OR PAGE_U) k;
                         p \<leftarrow> proc k pid;
                         if om_lookup (p_blocks p) base \<noteq> None then do {
                           k \<leftarrow> proc_flag pid base hi kf k;
                           Some (SYSERR_NOMEM, k)
                         }
                         else do {
                           k \<leftarrow> index_block b k;
                           Some (0, k)
                         }
                       }))
             }) = Some (r, k')"
      using assms(2) Some False unfolding umem_map_device_def a hi_def df_def b_def Let_def by simp
    obtain k1 k2 where 1: "kernel_flag base hi kf k = Some k1"
      "flag_all (map fst (om_entries (g_procs k1))) base hi kf k1 = Some k2"
      using u by (auto elim!: bind_SomeE)
    have 2: "vm_inv {} k2" by (rule flag_all_inv [OF kernel_flag_inv [OF assms(1) 1(1) kf] 1(2) kf])
    consider (fail) "core k' = core k2" | (ok) k3 k4 where "core k3 = core k2" "proc_flag pid base hi (df OR PAGE_U) k3 = Some k4"
      "proc_flag pid base hi kf k4 = Some k' \<or> index_block b k4 = Some k'"
      using u 1 by (auto elim!: bind_SomeE split: prod.splits bool.splits if_splits dest!: slab_alloc_core)
    then show ?thesis
    proof cases
      case fail
      then show ?thesis using 2 vm_inv_core by blast
    next
      case ok
      have "vm_inv {} k3" using 2 vm_inv_core [OF ok(1)] by simp
      from proc_flag_inv [OF this ok(2)] have 4: "vm_inv ({pid} \<times> page_range base hi) k4" by simp
      show ?thesis
        using ok(3) proc_flag_inv [OF 4, of pid base hi kf k'] index_block_inv [OF 4, of b k'] kf
        by (auto simp: b_def new_ublock_def block_pages_def hi_def)
    qed
  qed
qed

lemma umem_ownedD:
  assumes "umem_owned k pid base = Some (Some b)" "vm_inv X k"
  shows "block k base = Some b" "ub_owner b = pid" "ub_base b = base"
proof -
  obtain p where p: "proc k pid = Some p" "om_lookup (p_blocks p) base \<noteq> None" and b: "block k base = Some b"
    using assms(1) by (auto simp: umem_owned_def elim!: bind_SomeE split: if_splits)
  then show "block k base = Some b" "ub_owner b = pid" "ub_base b = base"
    using vm_invD(3,5) [OF assms(2)] by fastforce+
qed

text \<open>Leaving a range of a view is not yet an exception; \<open>umem_view\<close> finds a block the process holds.\<close>

lemma umem_view_holds:
  assumes "umem_view k pid addr nb = Some (Some base)" "vm_inv X k"
  obtains b hi where "block k base = Some b" "holds b pid" "add_overflow addr nb = Some hi"
    "base \<le> addr" "hi \<le> ub_base b + ub_bytes b" "ub_base b = base"
proof -
  obtain p hi where p: "proc k pid = Some p" "add_overflow addr nb = Some hi" "nb \<noteq> 0"
    using assms(1) by (auto simp: umem_view_def elim!: bind_SomeE split: option.splits if_splits)
  obtain b u where b: "block k base = Some b" "hi \<le> ub_base b + ub_bytes b"
    "om_floor (p_blocks p) addr = Some (base, u) \<or> om_floor (p_views p) addr = Some (base, u)"
    using assms(1) p by (auto simp: umem_view_def elim!: bind_SomeE split: option.splits if_splits prod.splits)
  have h: "holds b pid \<and> base \<le> addr"
    using b(1,3) vm_invD(5,6) [OF assms(2) p(1), of base] by (auto simp: holds_def dest: om.floor_SomeD(1,2))
  then show thesis using that b p vm_invD(3) [OF assms(2) b(1)] by blast
qed

lemma page_range_mono: "s' \<le> s \<Longrightarrow> e \<le> e' \<Longrightarrow> page_range s e \<subseteq> page_range s' e'"
  by (auto simp: page_range_def word_le_nat_alt intro: order_trans [OF div_le_mono] order_less_le_trans [OF _ div_le_mono])

lemma umem_protect_inv:
  assumes "vm_inv {} k" "umem_protect pid base nb prot k = Some (r, k')"
  shows "vm_inv {} k'"
proof -
  consider (same) "k' = k" | (ok) at hi f where "umem_view k pid base nb = Some (Some at)" "add_overflow base nb = Some hi"
      "proc_flag pid base hi f k = Some k'"
    using assms(2) by (auto simp: umem_protect_def Let_def elim!: bind_SomeE split: if_splits option.splits)
  then show ?thesis
  proof cases
    case ok
    obtain b where b: "block k at = Some b" "holds b pid" "at \<le> base" "hi \<le> ub_base b + ub_bytes b" "ub_base b = at"
      using umem_view_holds [OF ok(1) assms(1)] ok(2) by auto
    have sub: "page_range base hi \<subseteq> block_pages b"
      using page_range_mono [OF b(3,4)] b(5) by (simp add: block_pages_def)
    have "vm_inv ({pid} \<times> page_range base hi) k'"
      by (rule vm_inv_mono [OF proc_flag_inv [OF assms(1) ok(3)]]) auto
    then show ?thesis
    proof (rule vm_inv_justified)
      fix q pg assume "(q, pg) \<in> {pid} \<times> page_range base hi - {}"
      then show "may_access k' q pg"
        using b(1,2) sub proc_flag_parts(2) [OF ok(3)] unfolding may_access_def by auto
    qed
  qed (use assms in simp)
qed

lemma remove_share_inv:
  assumes "vm_inv {} k" "remove_share base target k = Some k'"
  shows "vm_inv {} k'"
proof -
  let ?k1 = "upd_proc target (\<lambda>p. p\<lparr>p_views := om_remove base (p_views p)\<rparr>) k"
  obtain k2 b where 2: "umem_edge_pending_unlink base target ?k1 = Some k2" "block k2 base = Some b"
    "proc_flag target base (base + ub_bytes b) (ub_kernel_flags b)
       (upd_block base (\<lambda>b. b\<lparr>ub_sharers := om_remove target (ub_sharers b)\<rparr>) k2) = Some k'"
    using assms(2) by (auto simp: remove_share_def Let_def elim!: bind_SomeE)
  let ?k3 = "upd_block base (\<lambda>b. b\<lparr>ub_sharers := om_remove target (ub_sharers b)\<rparr>) k2"
  have vm: "vm k2 = vm ?k1" by (rule core_vm [OF umem_edge_pending_unlink_core [OF 2(1)]])
  have "vm_inv {} ?k1" by (rule upd_proc_inv [OF assms(1)]) (auto split: if_splits)
  then have inv: "vm_inv {} k2" using vm_inv_cong [OF vm] by simp
  note I = vm_invD [OF inv]
  have no: "om_lookup (p_views p) base = None" if "proc k2 target = Some p" for p
    using vm_eqD(1) [OF vm, of target] that by (cases "proc k target") (auto simp: proc_vm_def)
  have bl: "block ?k3 = (block k2)(base \<mapsto> b\<lparr>ub_sharers := om_remove target (ub_sharers b)\<rparr>)"
    using 2(2) by (auto simp: fun_eq_iff)
  have vw: "om_lookup (ub_sharers b) q \<noteq> None \<and> q \<noteq> target" if "proc k2 q = Some p" "om_lookup (p_views p) base \<noteq> None" for q p
    using I(6) [OF that] no that 2(2) by auto
  have "vm_inv ({target} \<times> block_pages b) ?k3"
    by (rule upd_block_inv [OF inv bl])
      (use I(3,4) [OF 2(2)] vm_inv_owner [OF inv _ _ 2(2)] 2(2) vw in \<open>auto simp: fun_eq_iff upd_block_def holds_def block_pages_def\<close>)
  from proc_flag_inv [OF this 2(3)] show ?thesis
    using I(3,4) [OF 2(2)] by (simp add: block_pages_def)
qed

lemma umem_dropshare_inv:
  assumes "vm_inv {} k" "umem_dropshare c base pid k = Some (r, k')"
  shows "vm_inv {} k'"
proof -
  have "k' = k \<or> (\<exists>t. remove_share base t k = Some k')"
    using assms(2) by (auto simp: umem_dropshare_def Let_def elim!: bind_SomeE split: option.splits if_splits)
  then show ?thesis using assms(1) remove_share_inv by blast
qed

lemma umem_unshare_inv:
  assumes "vm_inv {} k" "umem_unshare c base pid k = Some (r, k')"
  shows "vm_inv {} k'"
proof -
  have "k' = k \<or> (\<exists>t. remove_share base t k = Some k')"
    using assms(2) by (auto simp: umem_unshare_def elim!: bind_SomeE split: option.splits if_splits)
  then show ?thesis using assms(1) remove_share_inv by blast
qed

lemma vm_block:
  assumes "vm k' = vm k" "block k base = Some b"
  shows "\<exists>b'. block k' base = Some b' \<and> ub_base b' = ub_base b \<and> ub_bytes b' = ub_bytes b \<and> ub_owner b' = ub_owner b \<and>
    ub_kernel_flags b' = ub_kernel_flags b \<and>
    (\<forall>q. (om_lookup (ub_sharers b') q \<noteq> None) = (om_lookup (ub_sharers b) q \<noteq> None))"
  by (rule block_vm_Some [OF vm_eqD(2) [OF assms(1), symmetric] assms(2)]) auto

lemma umem_share_inv:
  assumes "vm_inv {} k" "umem_share pid base target_pid prot k = Some (r, k')"
  shows "vm_inv {} k'"
proof -
  consider (same) "core k' = core k"
    | (ok) k2 b target k4 k6 f where "core k2 = core k" "umem_owned k2 pid base = Some (Some b)"
      "pending_link base target (add_edge base target k2) = Some k4"
      "proc_flag target base (base + ub_bytes b) f (upd_proc target (\<lambda>p. p\<lparr>p_views := om_insert base () (p_views p)\<rparr>) k4) = Some k6"
      "channel_edge_notify base target k6 = Some k'"
    using assms(2) by (auto simp: umem_share_def Let_def elim!: bind_SomeE split: prod.splits option.splits if_splits dest!: slab_alloc_core)
  then show ?thesis
  proof cases
    case same
    then show ?thesis using assms(1) vm_inv_core by blast
  next
    case ok
    let ?k3 = "add_edge base target k2" and ?f = "\<lambda>p. p\<lparr>p_views := om_insert base () (p_views p)\<rparr>"
    have inv2: "vm_inv {} k2" using assms(1) vm_inv_core [OF ok(1)] by simp
    note b = umem_ownedD [OF ok(2) inv2] and I = vm_invD [OF inv2]
    let ?b = "b\<lparr>ub_sharers := om_insert target \<lparr>e_notified = False\<rparr> (ub_sharers b)\<rparr>"
    have bl: "block ?k3 = (block k2)(base \<mapsto> ?b)" using b(1) by (auto simp: add_edge_def fun_eq_iff)
    have vw: "om_lookup (ub_sharers b) q \<noteq> None" if "proc k2 q = Some p" "om_lookup (p_views p) base \<noteq> None" for q p
      using I(6) [OF that] b(1) by auto
    have sh: "om_lookup (ub_sharers ?b) target \<noteq> None" by simp
    have inv3: "vm_inv {} ?k3"
      by (rule upd_block_inv [OF inv2 bl])
        (use I(3,4) [OF b(1)] vm_inv_owner [OF inv2 _ _ b(1)] b(1) vw in
          \<open>auto simp: fun_eq_iff add_edge_def upd_block_def holds_def block_pages_def\<close>)
    have vm4: "vm k4 = vm ?k3" by (rule core_vm [OF pending_link_core [OF ok(3)]])
    have inv4: "vm_inv {} k4" using inv3 vm_inv_cong [OF vm4] by simp
    obtain b4 where b4: "block k4 base = Some b4" "om_lookup (ub_sharers b4) target \<noteq> None" "ub_bytes b4 = ub_bytes b" "ub_base b4 = base"
      using vm_block [OF vm4, of base ?b] bl sh b(3) by fastforce
    have inv5: "vm_inv {} (upd_proc target ?f k4)"
      using b4(1,2) by (intro upd_proc_inv [OF inv4]) (auto split: if_splits)
    have "vm_inv ({target} \<times> page_range base (base + ub_bytes b)) k6"
      by (rule vm_inv_mono [OF proc_flag_inv [OF inv5 ok(4)]]) auto
    then have "vm_inv {} k6"
    proof (rule vm_inv_justified)
      fix q pg assume "(q, pg) \<in> {target} \<times> page_range base (base + ub_bytes b) - {}"
      then show "may_access k6 q pg"
        using b4 proc_flag_parts(2) [OF ok(4)] by (intro may_accessI [of k6 base b4]) (auto simp: holds_def block_pages_def)
    qed
    then show ?thesis using vm_inv_core [OF channel_edge_notify_core [OF ok(5)]] by simp
  qed
qed

lemma vm_upd_proc_at: "(\<And>p. proc k pid = Some p \<Longrightarrow> proc_vm (f p) = proc_vm p) \<Longrightarrow> vm (upd_proc pid f k) = vm k"
  by (cases "proc k pid") (auto simp: vm_def fun_eq_iff, (simp add: upd_proc_def)+)

lemma pin_view_vm: "vm (pin_view pid k) = vm k"
  unfolding pin_view_def by (rule vm_upd_proc_at) (auto simp: proc_vm_def option.map_comp comp_def)

lemma unpin_view_vm:
  assumes "unpin_view pid k = Some k'"
  shows "vm k' = vm k"
proof -
  obtain p v where p: "proc k pid = Some p" "p_as p = Some v"
    and k': "k' = upd_proc pid (\<lambda>p. p\<lparr>p_as := Some (v\<lparr>view_pins := view_pins v - 1\<rparr>)\<rparr>) k"
    using assms unfolding unpin_view_def by (elim bind_SomeE) (simp only: option.inject)
  show ?thesis unfolding k' by (rule vm_upd_proc_at) (use p in \<open>simp add: proc_vm_def\<close>)
qed

lemma umem_release_finish_vm: "umem_release_finish b k = Some k' \<Longrightarrow> vm k' = vm k"
  by (auto simp: umem_release_finish_def elim!: bind_SomeE split: if_splits sum.splits dest!: unpin_view_vm)

text \<open>A block without sharers leaves the indices, then its mapping.\<close>

lemma free_locked_inv:
  assumes "vm_inv {} k" "free_locked pid base k = Some (rc, rel, k')"
  shows "vm_inv {} k'"
proof (cases "k' = k")
  case False
  then obtain b k3 where b: "umem_owned k pid base = Some (Some b)" "om_len (ub_sharers b) = 0" and
    p: "block_release_prepare b ((upd_proc pid (\<lambda>p. p\<lparr>p_blocks := om_remove base (p_blocks p)\<rparr>) k)
        \<lparr>g_ublocks := om_remove (ub_base b) (g_ublocks (upd_proc pid (\<lambda>p. p\<lparr>p_blocks := om_remove base (p_blocks p)\<rparr>) k))\<rparr>) = Some k'"
    using assms(2) by (auto simp: free_locked_def Let_def elim!: bind_SomeE split: option.splits if_splits)
  note B = umem_ownedD [OF b(1) assms(1)]
  let ?k1 = "upd_proc pid (\<lambda>p. p\<lparr>p_blocks := om_remove base (p_blocks p)\<rparr>) k"
  let ?k2 = "?k1\<lparr>g_ublocks := om_remove (ub_base b) (g_ublocks ?k1)\<rparr>"
  have sh: "om_lookup (ub_sharers b) q = None" for q
    using b(2) by (simp add: om.count_ents om.lookup_ents)
  have inv1: "vm_inv {} ?k1" by (rule upd_proc_inv [OF assms(1)]) (auto split: if_splits)
  note I = vm_invD [OF inv1]
  have b1: "block ?k1 base = Some b" using B(1) by simp
  have nb: "om_lookup (p_blocks p) base = None" if "proc ?k1 q = Some p" for q p
    using vm_inv_owner [OF inv1 that _ b1] that B(2) by (cases "om_lookup (p_blocks p) base") (auto split: if_splits)
  have nv: "om_lookup (p_views p) base = None" if "proc ?k1 q = Some p" for q p
    using I(6) [OF that, of base] b1 sh by (metis option.inject)
  have bl: "block ?k2 = (block ?k1)(base := None)" by (auto simp: fun_eq_iff block_def B(3))
  have inv2: "vm_inv ({pid} \<times> block_pages b) ?k2"
    by (rule upd_block_inv [OF inv1 bl]) (use nb nv b1 B sh in \<open>auto simp: fun_eq_iff holds_def\<close>)
  obtain k4 k5 k6 where r: "channel_ring_destroy b ?k2 = Some k4" "must_alloc k4 = Some k5"
    "proc_flag (ub_owner b) (ub_base b) (ub_base b + ub_bytes b) (ub_kernel_flags b) k5 = Some k6" "k' = pin_view (ub_owner b) k6"
    using p by (auto simp: block_release_prepare_def elim!: bind_SomeE)
  have inv5: "vm_inv ({pid} \<times> block_pages b) k5"
    using inv2 vm_inv_core [OF channel_ring_destroy_core [OF r(1)]] vm_inv_core [OF must_alloc_core [OF r(2)]] by simp
  have "vm_inv {} k6"
    using proc_flag_inv [OF inv5 r(3)] vm_invD(4) [OF assms(1) B(1)] by (simp add: B(2) block_pages_def)
  then show ?thesis using vm_inv_cong [OF pin_view_vm] by (simp add: r(4))
qed (use assms in simp)

lemma umem_freeE:
  assumes "umem_free c base k = Some (r, k')" "k' \<noteq> k"
  obtains b rc rel k1 where "block k base = Some b" "resource_authorized k c (ub_owner b) = Some True"
    "free_locked (ub_owner b) base k = Some (rc, rel, k1)" "(case rel of None \<Rightarrow> Some k1 | Some b \<Rightarrow> umem_release_finish b k1) = Some k'"
proof -
  obtain b ok where b: "block k base = Some b" "resource_authorized k c (ub_owner b) = Some ok"
    using assms by (auto simp: umem_free_def elim!: bind_SomeE split: option.splits)
  then have ok: ok using assms by (auto simp: umem_free_def split: if_splits)
  then obtain x where x: "free_locked (ub_owner b) base k = Some x"
    using assms(1) b by (auto simp: umem_free_def elim!: bind_SomeE)
  obtain rc rel k1 where "x = (rc, rel, k1)" by (cases x)
  then show thesis using that [OF b(1) _ x [unfolded \<open>x = _\<close>]] assms(1) b ok x
    by (cases "case rel of None \<Rightarrow> Some k1 | Some b \<Rightarrow> umem_release_finish b k1") (auto simp: umem_free_def)
qed

lemma umem_free_inv:
  assumes "vm_inv {} k" "umem_free c base k = Some (r, k')"
  shows "vm_inv {} k'"
proof (cases "k' = k")
  case False
  obtain b rc rel k1 where "block k base = Some b" "resource_authorized k c (ub_owner b) = Some True" and
    f: "free_locked (ub_owner b) base k = Some (rc, rel, k1)" "(case rel of None \<Rightarrow> Some k1 | Some b \<Rightarrow> umem_release_finish b k1) = Some k'"
    by (rule umem_freeE [OF assms(2) False])
  have "vm k' = vm k1" using f(2) umem_release_finish_vm by (auto split: option.splits)
  then show ?thesis using free_locked_inv [OF assms(1) f(1)] vm_inv_cong [of k' k1] by simp
qed (use assms in simp)

text \<open>The first half of a move: the block leaves both indices, and the target's share edge goes.\<close>

lemma move_detach_inv:
  assumes inv: "vm_inv {} k" and s: "proc k src = Some s" "om_lookup (p_blocks s) base \<noteq> None" and b: "block k base = Some b"
    and k2: "k2 = upd_proc dst (\<lambda>p. p\<lparr>p_views := om_remove base (p_views p)\<rparr>) (upd_proc src (\<lambda>p. p\<lparr>p_blocks := om_remove base (p_blocks p)\<rparr>) k)"
    and k3: "k3 = k2 \<or> (\<exists>k2'. umem_edge_pending_unlink base dst k2 = Some k2' \<and>
      k3 = upd_block base (\<lambda>b. b\<lparr>ub_sharers := om_remove dst (ub_sharers b)\<rparr>) k2')"
  shows "vm_inv ({dst} \<times> block_pages b) k3"
    "\<And>q p. proc k3 q = Some p \<Longrightarrow> om_lookup (p_blocks p) base = None"
    "\<exists>b3. block k3 base = Some b3 \<and> ub_base b3 = base \<and> ub_bytes b3 = ub_bytes b \<and> ub_kernel_flags b3 = ub_kernel_flags b \<and> ub_owner b3 = src"
proof -
  let ?f = "\<lambda>p. p\<lparr>p_blocks := om_remove base (p_blocks p)\<rparr>" and ?g = "\<lambda>p. p\<lparr>p_views := om_remove base (p_views p)\<rparr>"
  have ow: "ub_owner b = src" by (rule vm_inv_owner [OF inv s b])
  have i1: "vm_inv {} (upd_proc src ?f k)" by (rule upd_proc_inv [OF inv]) (auto split: if_splits)
  have i2: "vm_inv {} k2" unfolding k2 by (rule upd_proc_inv [OF i1]) (auto split: if_splits)
  have b2: "block k2 base = Some b" using b by (simp add: k2)
  have nb: "om_lookup (p_blocks p) base = None" if "proc k2 q = Some p" for q p
    using vm_inv_owner [OF i2 that _ b2] that ow
    by (cases "om_lookup (p_blocks p) base") (auto simp: k2 split: if_splits)
  have nv: "om_lookup (p_views p) base = None" if "proc k2 dst = Some p" for p
    using that by (auto simp: k2)
  have bb: "ub_base b = base" by (rule vm_invD(3) [OF inv b])
  show "vm_inv ({dst} \<times> block_pages b) k3" "\<And>q p. proc k3 q = Some p \<Longrightarrow> om_lookup (p_blocks p) base = None"
    "\<exists>b3. block k3 base = Some b3 \<and> ub_base b3 = base \<and> ub_bytes b3 = ub_bytes b \<and> ub_kernel_flags b3 = ub_kernel_flags b \<and> ub_owner b3 = src"
  proof (atomize (full), use k3 in \<open>elim disjE exE conjE\<close>)
    assume "k3 = k2"
    then show "vm_inv ({dst} \<times> block_pages b) k3 \<and> (\<forall>q p. proc k3 q = Some p \<longrightarrow> om_lookup (p_blocks p) base = None) \<and>
      (\<exists>b3. block k3 base = Some b3 \<and> ub_base b3 = base \<and> ub_bytes b3 = ub_bytes b \<and> ub_kernel_flags b3 = ub_kernel_flags b \<and> ub_owner b3 = src)"
      using i2 nb b2 bb ow vm_inv_mono [OF i2] by auto
  next
    fix k2' assume u: "umem_edge_pending_unlink base dst k2 = Some k2'"
      and k3: "k3 = upd_block base (\<lambda>b. b\<lparr>ub_sharers := om_remove dst (ub_sharers b)\<rparr>) k2'"
    have vm: "vm k2' = vm k2" by (rule core_vm [OF umem_edge_pending_unlink_core [OF u]])
    have i2': "vm_inv {} k2'" using i2 vm_inv_cong [OF vm] by simp
    have idx: "\<exists>p'. proc k2 q = Some p' \<and> p_blocks p' = p_blocks p \<and> p_views p' = p_views p" if "proc k2' q = Some p" for q p
      using vm_eqD(1) [OF vm, of q] that by (cases "proc k2 q") (auto simp: proc_vm_def)
    obtain b' where b': "block k2' base = Some b'" "ub_base b' = base" "ub_bytes b' = ub_bytes b" "ub_kernel_flags b' = ub_kernel_flags b" "ub_owner b' = src"
      using vm_block [OF vm b2] ow bb by auto
    have bl: "block k3 = (block k2')(base \<mapsto> b'\<lparr>ub_sharers := om_remove dst (ub_sharers b')\<rparr>)"
      using b'(1) by (auto simp: k3 fun_eq_iff)
    have pr: "proc k3 = proc k2'" "g_as_kernel k3 = g_as_kernel k2'" by (simp_all add: k3 fun_eq_iff upd_block_def)
    have vw: "om_lookup (ub_sharers b') q \<noteq> None \<and> q \<noteq> dst" if "proc k2' q = Some p" "om_lookup (p_views p) base \<noteq> None" for q p
      using vm_invD(6) [OF i2' that] idx [OF that(1)] nv that b'(1) by auto
    have "vm_inv ({dst} \<times> block_pages b) k3"
      by (rule upd_block_inv [OF i2' bl pr])
        (use b' vm_invD(4) [OF inv b] vm_inv_owner [OF i2' _ _ b'(1)] vw bb in \<open>auto simp: holds_def block_pages_def\<close>)
    then show "vm_inv ({dst} \<times> block_pages b) k3 \<and> (\<forall>q p. proc k3 q = Some p \<longrightarrow> om_lookup (p_blocks p) base = None) \<and>
      (\<exists>b3. block k3 base = Some b3 \<and> ub_base b3 = base \<and> ub_bytes b3 = ub_bytes b \<and> ub_kernel_flags b3 = ub_kernel_flags b \<and> ub_owner b3 = src)"
      using nb idx bl b' by (auto simp: pr(1)) (metis)
  qed
qed

lemma move_attach_inv:
  assumes inv: "vm_inv ({dst} \<times> block_pages b) k3" and nb: "\<And>q p. proc k3 q = Some p \<Longrightarrow> om_lookup (p_blocks p) base = None"
    and b3: "block k3 base = Some b3" "ub_base b3 = base" "ub_bytes b3 = ub_bytes b" "ub_owner b3 = src" "ub_base b = base"
    and k5: "proc_flag src base (base + ub_bytes b) (ub_kernel_flags b3) (upd_block base (\<lambda>b. b\<lparr>ub_owner := dst\<rparr>) k3) = Some k5"
    and k6: "proc_flag dst base (base + ub_bytes b) f k5 = Some k6"
  shows "vm_inv {} (upd_proc dst (\<lambda>p. p\<lparr>p_blocks := om_insert base () (p_blocks p)\<rparr>) k6)"
proof -
  let ?k4 = "upd_block base (\<lambda>b. b\<lparr>ub_owner := dst\<rparr>) k3" and ?b = "b3\<lparr>ub_owner := dst\<rparr>"
  have bl: "block ?k4 = (block k3)(base \<mapsto> ?b)" using b3(1) by (auto simp: fun_eq_iff)
  have pg: "block_pages b3 = block_pages b" "page_range base (base + ub_bytes b) = block_pages b" "block_pages ?b = block_pages b"
    using b3 by (simp_all add: block_pages_def)
  have vw: "om_lookup (ub_sharers b3) q \<noteq> None" if "proc k3 q = Some p" "om_lookup (p_views p) base \<noteq> None" for q p
    using vm_invD(6) [OF inv that] b3(1) by auto
  have kf: "ub_kernel_flags b3 AND PAGE_U = 0" by (rule vm_invD(4) [OF inv b3(1)])
  have i4: "vm_inv ({src} \<times> block_pages b) ?k4"
    by (rule upd_block_inv [OF inv bl])
      (use b3 kf nb vw in \<open>auto simp: holds_def pg fun_eq_iff upd_block_def\<close>)
  have i5: "vm_inv {} k5" using proc_flag_inv [OF i4 k5] kf by (simp add: pg)
  have b6: "block k6 base = Some ?b" using bl proc_flag_parts(2) [OF k5] proc_flag_parts(2) [OF k6] by simp
  have "vm_inv ({dst} \<times> block_pages b) k6"
    by (rule vm_inv_mono [OF proc_flag_inv [OF i5 k6]]) (auto simp: pg)
  then have "vm_inv {} k6"
    by (rule vm_inv_justified) (use b6 pg in \<open>auto intro!: may_accessI [of k6 base ?b] simp: holds_def\<close>)
  then show ?thesis using b6 by (intro upd_proc_inv) (auto split: if_splits)
qed

lemma umem_move_inv:
  assumes "vm_inv {} k" "umem_move base src dst True k = Some (r, k')"
  shows "vm_inv {} k'"
proof (cases "k' = k")
  case False
  obtain b where b: "block k base = Some b" using assms(2) by (auto simp: umem_move_def elim!: bind_SomeE)
  obtain s t where s: "proc k src = Some s" "om_lookup (p_blocks s) base \<noteq> None" and t: "proc k dst = Some t"
    using assms(2) False b by (auto simp: umem_move_def elim!: bind_SomeE split: if_splits)
  define k2 where "k2 = upd_proc dst (\<lambda>p. p\<lparr>p_views := om_remove base (p_views p)\<rparr>) (upd_proc src (\<lambda>p. p\<lparr>p_blocks := om_remove base (p_blocks p)\<rparr>) k)"
  obtain k3 k5 k6 f where k3: "k3 = k2 \<or> (\<exists>k2'. umem_edge_pending_unlink base dst k2 = Some k2' \<and>
      k3 = upd_block base (\<lambda>b. b\<lparr>ub_sharers := om_remove dst (ub_sharers b)\<rparr>) k2')"
    and k5: "proc_flag src base (base + ub_bytes b) (ub_kernel_flags b) (upd_block base (\<lambda>b. b\<lparr>ub_owner := dst\<rparr>) k3) = Some k5"
    and k6: "proc_flag dst base (base + ub_bytes b) f k5 = Some k6"
    and k': "k' = upd_proc dst (\<lambda>p. p\<lparr>p_blocks := om_insert base () (p_blocks p)\<rparr>) k6"
    using assms(2) False b s t
    by (auto simp: umem_move_def Let_def k2_def elim!: bind_SomeE split: if_splits) (blast | fastforce)+
  note D = move_detach_inv [OF assms(1) s b k2_def k3]
  obtain b3 where b3: "block k3 base = Some b3" "ub_base b3 = base" "ub_bytes b3 = ub_bytes b" "ub_kernel_flags b3 = ub_kernel_flags b" "ub_owner b3 = src"
    using D(3) by blast
  show ?thesis unfolding k'
    by (rule move_attach_inv [OF D(1,2) b3(1,2,3,5) vm_invD(3) [OF assms(1) b] _ k6]) (use k5 b3(4) in simp_all)
qed (use assms in simp)

end
