(* ===== verification/Kernel_Inv.thy ===== *)
theory Kernel_Inv
  imports Isolation Futex_Park
begin

text \<open>
  Invariants of the whole kernel.  \<open>family_ok\<close> is the process tree (parents are older and list their
  children), \<open>vm_ok\<close> memory isolation; both hold after every step the kernel can take: a system call with
  any number and arguments, a timer, device or remapping-fault interrupt, a scheduler iteration, a change
  of the running processor or of the clock, and anything user code does to memory.
\<close>

section \<open>The process tree\<close>

definition tree where
  "tree k = (\<lambda>pid. map_option (\<lambda>p. (p_parent p, p_children p)) (proc k pid), g_next_pid k)"

definition tg where
  "tg k = (tree k, g_grants k, g_next_grant_id k)"

definition family_ok :: "kernel \<Rightarrow> bool" where
  "family_ok k \<longleftrightarrow> (\<forall>pid p. proc k pid = Some p \<longrightarrow> pid < g_next_pid k \<and>
     (\<forall>q. p_parent p = Some q \<longrightarrow> q < pid \<and> (\<exists>r. proc k q = Some r \<and> om_lookup (p_children r) pid \<noteq> None)))"

lemma family_ok_ptree: "family_ok k \<Longrightarrow> ptree_ok k"
  unfolding family_ok_def ptree_ok_def by blast

lemma vm_tree:
  assumes "vm k' = vm k"
  shows "tree k' = tree k"
proof -
  have "map_option (\<lambda>p. (p_parent p, p_children p)) (proc k' pid) = map_option (\<lambda>p. (p_parent p, p_children p)) (proc k pid)" for pid
    using vm_eqD(1) [OF assms, of pid] by (cases "proc k pid"; cases "proc k' pid") (auto simp: proc_vm_def)
  then show ?thesis using vm_eqD(4) [OF assms] by (simp add: tree_def)
qed

lemma family_ok_tree:
  assumes "tree k' = tree k" "family_ok k"
  shows "family_ok k'"
proof -
  have eq: "map_option (\<lambda>p. (p_parent p, p_children p)) (proc k' pid) = map_option (\<lambda>p. (p_parent p, p_children p)) (proc k pid)"
    "g_next_pid k' = g_next_pid k" for pid
    using assms(1) by (simp_all add: tree_def fun_eq_iff)
  have *: "\<exists>p. proc k pid = Some p \<and> p_parent p = p_parent p' \<and> p_children p = p_children p'" if "proc k' pid = Some p'" for pid p'
    using eq(1) [of pid] that by (cases "proc k pid") auto
  have **: "\<exists>p'. proc k' pid = Some p' \<and> p_children p' = p_children p" if "proc k pid = Some p" for pid p
    using eq(1) [of pid] that by (cases "proc k' pid") auto
  show ?thesis unfolding family_ok_def eq(2)
  proof (intro allI impI conjI)
    fix pid p' assume a: "proc k' pid = Some p'"
    then obtain p where p: "proc k pid = Some p" "p_parent p = p_parent p'" using * by blast
    then show "pid < g_next_pid k" using assms(2) unfolding family_ok_def by blast
    fix q assume q: "p_parent p' = Some q"
    then show "q < pid" using assms(2) p unfolding family_ok_def by metis
    obtain r where "proc k q = Some r" "om_lookup (p_children r) pid \<noteq> None"
      using assms(2) p q unfolding family_ok_def by metis
    then show "\<exists>r. proc k' q = Some r \<and> om_lookup (p_children r) pid \<noteq> None" using ** [of q r] by auto
  qed
qed

lemma core_tg: "core k' = core k \<Longrightarrow> tg k' = tg k"
  using vm_tree [of k' k] by (simp add: tg_def core_def)

lemma tg_upd_proc [simp]:
  "(\<And>p. p_parent (f p) = p_parent p) \<Longrightarrow> (\<And>p. p_children (f p) = p_children p) \<Longrightarrow> tg (upd_proc pid f k) = tg k"
  by (auto simp: tg_def tree_def fun_eq_iff option.map_comp comp_def upd_proc_def proc_def)

lemma tg_upd [simp]:
  "tg (upd_block base g k) = tg k" "tg (k\<lparr>g_ublocks := x1\<rparr>) = tg k" "tg (k\<lparr>g_as_kernel := x2\<rparr>) = tg k"
  "tg (k\<lparr>g_oom := x3\<rparr>) = tg k" "tg (k\<lparr>g_allocator := x4\<rparr>) = tg k" "tg (k\<lparr>g_mem := x5\<rparr>) = tg k"
  by (simp_all add: tg_def tree_def upd_block_def)

lemmas keep_tg = slab_alloc_core [THEN core_tg] must_alloc_core [THEN core_tg] kmemset_core [THEN core_tg]
  pending_link_core [THEN core_tg] umem_edge_pending_unlink_core [THEN core_tg] channel_edge_notify_core [THEN core_tg]
  channel_ring_destroy_core [THEN core_tg]

lemma proc_flag_tg [keep]: "proc_flag pid s e f k = Some k' \<Longrightarrow> tg k' = tg k"
  by (auto simp: proc_flag_def elim!: bind_SomeE dest!: keep_tg)

lemma kernel_flag_tg [keep]: "kernel_flag s e f k = Some k' \<Longrightarrow> tg k' = tg k"
  by (auto simp: kernel_flag_def elim!: bind_SomeE dest!: keep_tg)

lemma flag_all_tg [keep]: "flag_all pids s e f k = Some k' \<Longrightarrow> tg k' = tg k"
  by (induction pids arbitrary: k) (auto elim!: bind_SomeE split: if_splits dest!: proc_flag_tg)

lemma index_block_tg [keep]: "index_block b k = Some k' \<Longrightarrow> tg k' = tg k"
  by (auto simp: index_block_def Let_def elim!: bind_SomeE dest!: keep_tg)

lemma buddy_give_back_tg [keep]: "buddy_give_back pg k = Some k' \<Longrightarrow> tg k' = tg k"
  by (auto simp: buddy_give_back_def elim!: bind_SomeE split: sum.splits)

lemma umem_alloc_tg [keep]: "umem_alloc pid nb prot k = Some (r, k') \<Longrightarrow> tg k' = tg k"
  by (auto simp: umem_alloc_def Let_def elim!: bind_SomeE split: if_splits sum.splits prod.splits bool.splits
      dest!: keep_tg proc_flag_tg index_block_tg buddy_give_back_tg)

lemma umem_map_device_tg [keep]: "umem_map_device pid base nb fl k = Some (r, k') \<Longrightarrow> tg k' = tg k"
  by (auto simp: umem_map_device_def Let_def elim!: bind_SomeE split: if_splits option.splits prod.splits bool.splits
      dest!: keep_tg proc_flag_tg kernel_flag_tg flag_all_tg index_block_tg)

lemma unpin_view_tg [keep]: "unpin_view pid k = Some k' \<Longrightarrow> tg k' = tg k"
  by (auto simp: unpin_view_def elim!: bind_SomeE)

lemma umem_release_finish_tg [keep]: "umem_release_finish b k = Some k' \<Longrightarrow> tg k' = tg k"
  by (auto simp: umem_release_finish_def elim!: bind_SomeE split: if_splits sum.splits dest!: unpin_view_tg)

lemma block_release_prepare_tg [keep]: "block_release_prepare b k = Some k' \<Longrightarrow> tg k' = tg k"
  by (auto simp: block_release_prepare_def pin_view_def elim!: bind_SomeE dest!: keep_tg proc_flag_tg)

lemma free_locked_tg [keep]: "free_locked pid base k = Some (rc, rel, k') \<Longrightarrow> tg k' = tg k"
  by (auto simp: free_locked_def Let_def elim!: bind_SomeE split: option.splits if_splits dest!: block_release_prepare_tg)

lemma umem_free_tg [keep]: "umem_free c base k = Some (r, k') \<Longrightarrow> tg k' = tg k"
  by (auto simp: umem_free_def elim!: bind_SomeE split: option.splits if_splits dest!: free_locked_tg umem_release_finish_tg)

lemma umem_protect_tg [keep]: "umem_protect pid base nb prot k = Some (r, k') \<Longrightarrow> tg k' = tg k"
  by (auto simp: umem_protect_def Let_def elim!: bind_SomeE split: if_splits option.splits dest!: proc_flag_tg)

lemma umem_share_tg [keep]: "umem_share pid base t prot k = Some (r, k') \<Longrightarrow> tg k' = tg k"
  by (auto simp: umem_share_def add_edge_def Let_def elim!: bind_SomeE split: if_splits option.splits prod.splits
      dest!: keep_tg proc_flag_tg)

lemma remove_share_tg [keep]: "remove_share base t k = Some k' \<Longrightarrow> tg k' = tg k"
  by (auto simp: remove_share_def Let_def elim!: bind_SomeE dest!: keep_tg proc_flag_tg)

lemma umem_dropshare_tg [keep]: "umem_dropshare c base pid k = Some (r, k') \<Longrightarrow> tg k' = tg k"
  by (auto simp: umem_dropshare_def Let_def elim!: bind_SomeE split: option.splits if_splits dest!: remove_share_tg)

lemma umem_unshare_tg [keep]: "umem_unshare c base pid k = Some (r, k') \<Longrightarrow> tg k' = tg k"
  by (auto simp: umem_unshare_def elim!: bind_SomeE split: option.splits if_splits dest!: remove_share_tg)

lemma umem_move_tg [keep]: "umem_move base s d l k = Some (r, k') \<Longrightarrow> tg k' = tg k"
  by (auto simp: umem_move_def Let_def elim!: bind_SomeE split: if_splits dest!: keep_tg proc_flag_tg)

section \<open>Creation and destruction\<close>

lemma vm_inv_fewer_procs:
  assumes "vm_inv X k" "block k' = block k" "g_as_kernel k' = g_as_kernel k"
    and pr: "\<And>pid p'. proc k' pid = Some p' \<Longrightarrow>
      (\<exists>p. proc k pid = Some p \<and> p_blocks p' = p_blocks p \<and> p_views p' = p_views p \<and> (p_as p' = None \<or> p_as p' = p_as p)) \<or>
      (\<exists>v. p_as p' = Some v \<and> page_flags v = page_flags (g_as_kernel k) \<and> p_blocks p' = om_empty \<and> p_views p' = om_empty)"
  shows "vm_inv X k'"
proof (rule vm_invI)
  note I = vm_invD [OF assms(1)]
  have ma: "may_access k' = may_access k" by (simp add: may_access_def fun_eq_iff assms(2))
  show "kernel_private k'" using I(2) by (simp add: kernel_private_def assms(3))
  show "block k' base = Some b \<Longrightarrow> ub_base b = base \<and> ub_kernel_flags b AND PAGE_U = 0" for base b
    using I(3,4) by (auto simp: assms(2))
  show "may_access k' pid pg \<or> (pid, pg) \<in> X" if m: "maps_page k' pid pg" for pid pg
  proof -
    obtain p' v where p': "proc k' pid = Some p'" "p_as p' = Some v" "page_flags v pg AND PAGE_U \<noteq> 0"
      using m by (auto simp: maps_page_def)
    have "maps_page k pid pg"
      using pr [OF p'(1)] p'(2,3) I(2) unfolding maps_page_def kernel_private_def by (metis option.distinct(1) option.inject)
    then show ?thesis using I(1) by (simp add: ma)
  qed
  fix pid p' base assume "proc k' pid = Some p'"
  from pr [OF this] show "om_lookup (p_blocks p') base \<noteq> None \<Longrightarrow> \<exists>b. block k' base = Some b \<and> ub_owner b = pid"
    "om_lookup (p_views p') base \<noteq> None \<Longrightarrow> \<exists>b. block k' base = Some b \<and> om_lookup (ub_sharers b) pid \<noteq> None"
    using I(5,6) by (auto simp: assms(2))
qed


lemma must_alloc_oom: "must_alloc k = Some k' \<Longrightarrow> k' = k\<lparr>g_oom := g_oom k'\<rparr>"
  by (auto simp: must_alloc_def slab_alloc_def split: bool.splits list.splits)

lemma must_allocE:
  assumes "must_alloc k = Some k'"
  obtains x where "k' = k\<lparr>g_oom := x\<rparr>"
  using must_alloc_oom [OF assms] by (rule that)

definition link_child :: "u64 \<Rightarrow> u64 option \<Rightarrow> kernel \<Rightarrow> kernel" where
  "link_child pid parent k = (case parent of None \<Rightarrow> k
     | Some pp \<Rightarrow> upd_proc pp (\<lambda>p. p\<lparr>p_children := om_insert pid () (p_children p)\<rparr>) k)"

lemma process_createE:
  assumes "process_create parent k = Some (pid, k')"
  obtains x where "pid = g_next_pid k" "proc k pid = None"
    "k' = link_child pid parent (k\<lparr>g_next_pid := pid + 1, g_oom := x,
       g_procs := om_insert pid (new_process pid ((g_as_kernel k)\<lparr>view_pins := 0\<rparr>) parent) (g_procs k)\<rparr>)"
proof -
  have "pid = g_next_pid k \<and> proc k pid = None \<and> k' = link_child pid parent (k\<lparr>g_next_pid := pid + 1, g_oom := g_oom k',
       g_procs := om_insert pid (new_process pid ((g_as_kernel k)\<lparr>view_pins := 0\<rparr>) parent) (g_procs k)\<rparr>)"
    using assms unfolding process_create_def umem_process_register_def Let_def
    by (elim bind_SomeE must_allocE) (auto simp: link_child_def new_process_def proc_def upd_proc_def
        asserts_def elim!: bind_SomeE must_allocE split: option.splits if_splits)
  then show ?thesis using that by blast
qed

lemma proc_create:
  assumes "process_create parent k = Some (pid, k')" "proc k' q = Some p'"
  shows "(q = pid \<and> p_as p' = Some ((g_as_kernel k)\<lparr>view_pins := 0\<rparr>) \<and> p_blocks p' = om_empty \<and> p_views p' = om_empty \<and> p_parent p' = parent) \<or>
    (q \<noteq> pid \<and> (\<exists>p. proc k q = Some p \<and> p_as p' = p_as p \<and> p_blocks p' = p_blocks p \<and> p_views p' = p_views p \<and> p_parent p' = p_parent p \<and>
       p_children p' = (if parent = Some q then om_insert pid () (p_children p) else p_children p)))"
  using assms by (elim process_createE) (auto simp: link_child_def proc_def upd_proc_def new_process_def split: option.splits if_splits)

lemma process_create_vm: 
  assumes "process_create parent k = Some (pid, k')" "vm_inv X k"
  shows "vm_inv X k'"
proof (rule vm_inv_fewer_procs [OF assms(2)])
  show "block k' = block k" "g_as_kernel k' = g_as_kernel k"
    using assms(1) by (auto elim!: process_createE simp: link_child_def block_def upd_proc_def fun_eq_iff split: option.splits)
qed (use proc_create [OF assms(1)] in fastforce)

lemma process_create_tree:
  assumes c: "process_create parent k = Some (pid, k')" and ok: "family_ok k" and n: "g_next_pid k \<noteq> - 1"
    and pp: "\<And>pp. parent = Some pp \<Longrightarrow> proc k pp \<noteq> None"
  shows "family_ok k'"
proof -
  have pid: "pid = g_next_pid k" "g_next_pid k' = pid + 1"
    using c by (auto elim!: process_createE simp: link_child_def upd_proc_def split: option.splits)
  have lt1: "pid < pid + 1" using n pid by (simp add: word_less_nat_alt u64_Suc)
  have lt: "q < pid" if "proc k q \<noteq> None" for q using ok that pid(1) unfolding family_ok_def by blast
  have child: "\<exists>r'. proc k' pp = Some r' \<and> (om_lookup (p_children r) c \<noteq> None \<or> (c = pid \<and> parent = Some pp) \<longrightarrow>
      om_lookup (p_children r') c \<noteq> None)" if "proc k pp = Some r" for pp r c
    using c that by (elim process_createE) (auto simp: link_child_def proc_def upd_proc_def split: option.splits)
  show ?thesis unfolding family_ok_def
  proof (intro allI impI)
    fix q p' assume "proc k' q = Some p'"
    from proc_create [OF c this] show "q < g_next_pid k' \<and>
        (\<forall>pp. p_parent p' = Some pp \<longrightarrow> pp < q \<and> (\<exists>r. proc k' pp = Some r \<and> om_lookup (p_children r) q \<noteq> None))"
    proof (elim disjE conjE exE)
      assume "q = pid" "p_parent p' = parent"
      then show ?thesis using lt1 pid(2) pp lt child by (metis option.exhaust)
    next
      fix p assume "proc k q = Some p" "p_parent p' = p_parent p"
      moreover have "q < pid + 1" using lt [of q] lt1 calculation by (metis option.distinct(1) order.strict_trans)
      ultimately show ?thesis using ok pid(2) child unfolding family_ok_def by metis
    qed
  qed
qed

lemma proc_sys_destroyE:
  assumes "proc_sys_destroy me t k = Some (r, k')"
  obtains (same) "k' = k"
  | (view) "k' = upd_proc t (\<lambda>p. p\<lparr>p_as := None\<rparr>) k"
  | (gone) p pp where "proc k t = Some p" "om_len (p_children p) = 0" "p_parent p = Some pp"
      "k' = (upd_proc pp (\<lambda>p. p\<lparr>p_children := om_remove t (p_children p)\<rparr>) k)\<lparr>g_procs :=
         om_remove t (g_procs (upd_proc pp (\<lambda>p. p\<lparr>p_children := om_remove t (p_children p)\<rparr>) k))\<rparr>"
proof -
  define gone_state where "gone_state pp = (upd_proc pp (\<lambda>p. p\<lparr>p_children := om_remove t (p_children p)\<rparr>) k)\<lparr>g_procs :=
     om_remove t (g_procs (upd_proc pp (\<lambda>p. p\<lparr>p_children := om_remove t (p_children p)\<rparr>) k))\<rparr>" for pp
  have "k' = k \<or> k' = upd_proc t (\<lambda>p. p\<lparr>p_as := None\<rparr>) k \<or>
      (\<exists>p pp. proc k t = Some p \<and> om_len (p_children p) = 0 \<and> p_parent p = Some pp \<and> k' = gone_state pp)"
    using assms by (auto simp: proc_sys_destroy_def Let_def proc_lookup_any_def umem_proc_unregister_def
        umem_process_finish_def asserts_def gone_state_def elim!: bind_SomeE split: option.splits if_splits)
  then show ?thesis using that unfolding gone_state_def by blast
qed

lemma proc_sys_destroy_vm:
  assumes "proc_sys_destroy me t k = Some (r, k')" "vm_inv X k"
  shows "vm_inv X k'"
proof (rule vm_inv_fewer_procs [OF assms(2)])
  show "block k' = block k" "g_as_kernel k' = g_as_kernel k"
    using assms(1) by (auto elim!: proc_sys_destroyE simp: block_def upd_proc_def fun_eq_iff)
  fix q p' assume "proc k' q = Some p'"
  then have "\<exists>p. proc k q = Some p \<and> p_blocks p' = p_blocks p \<and> p_views p' = p_views p \<and> (p_as p' = None \<or> p_as p' = p_as p)"
    using assms(1) by (auto elim!: proc_sys_destroyE simp: proc_def upd_proc_def split: if_splits)
  then show "(\<exists>p. proc k q = Some p \<and> p_blocks p' = p_blocks p \<and> p_views p' = p_views p \<and> (p_as p' = None \<or> p_as p' = p_as p)) \<or>
      (\<exists>v. p_as p' = Some v \<and> page_flags v = page_flags (g_as_kernel k) \<and> p_blocks p' = om_empty \<and> p_views p' = om_empty)" ..
qed

lemma proc_sys_destroy_tree:
  assumes d: "proc_sys_destroy me t k = Some (r, k')" and ok: "family_ok k"
  shows "family_ok k'"
  using d
proof (cases rule: proc_sys_destroyE)
  case same then show ?thesis using ok by simp
next
  case view then show ?thesis
    by (intro family_ok_tree [OF _ ok]) (auto simp: tree_def proc_def upd_proc_def fun_eq_iff option.map_comp comp_def)
next
  case (gone p pp)
  have none: "om_lookup (p_children p) c = None" for c using gone(2) by (simp add: om.count_ents om.lookup_ents)
  have pr: "proc k' q = (if q = t then None else if q = pp
      then map_option (\<lambda>p. p\<lparr>p_children := om_remove t (p_children p)\<rparr>) (proc k q) else proc k q)" for q
    by (simp add: gone(4) proc_def upd_proc_def)
  have nx: "g_next_pid k' = g_next_pid k" by (simp add: gone(4) upd_proc_def)
  show ?thesis unfolding family_ok_def
  proof (intro allI impI)
    fix q p' assume a: "proc k' q = Some p'"
    then obtain p0 where p0: "q \<noteq> t" "proc k q = Some p0" "p_parent p' = p_parent p0" by (auto simp: pr split: if_splits)
    have "\<exists>r. proc k' c = Some r \<and> om_lookup (p_children r) q \<noteq> None" if pc: "p_parent p0 = Some c" for c
    proof -
      obtain r where r: "proc k c = Some r" "om_lookup (p_children r) q \<noteq> None" using ok p0(2) pc unfolding family_ok_def by metis
      then have "c \<noteq> t" using none gone(1) by auto
      then show ?thesis using r p0(1) by (cases "c = pp") (auto simp: pr)
    qed
    then show "q < g_next_pid k' \<and> (\<forall>c. p_parent p' = Some c \<longrightarrow> c < q \<and> (\<exists>r. proc k' c = Some r \<and> om_lookup (p_children r) q \<noteq> None))"
      using ok p0(2,3) nx unfolding family_ok_def by metis
  qed
qed

section \<open>One kernel step\<close>

definition kernel_ok :: "kernel \<Rightarrow> bool" where
  "kernel_ok k \<longleftrightarrow> vm_ok k \<and> family_ok k"

lemma kernel_okI: "vm_inv {} k' \<Longrightarrow> tree k' = tree k \<Longrightarrow> kernel_ok k \<Longrightarrow> kernel_ok k'"
  using family_ok_tree [of k' k] by (simp add: kernel_ok_def vm_ok_def)

lemma kernel_ok_vm: "vm k' = vm k \<Longrightarrow> kernel_ok k \<Longrightarrow> kernel_ok k'"
  using vm_inv_cong [of k' k "{}"] vm_tree [of k' k] family_ok_tree [of k' k] by (simp add: kernel_ok_def vm_ok_def)

lemma tg_tree: "tg k' = tg k \<Longrightarrow> tree k' = tree k"
  by (simp add: tg_def)

lemma kernel_okD: "kernel_ok k \<Longrightarrow> vm_inv {} k" "kernel_ok k \<Longrightarrow> family_ok k"
  by (simp_all add: kernel_ok_def vm_ok_def)

lemmas umem_invs = umem_alloc_inv umem_map_device_inv umem_protect_inv umem_dropshare_inv umem_unshare_inv
  umem_share_inv umem_free_inv umem_move_inv

lemmas umem_tgs = umem_alloc_tg umem_map_device_tg umem_protect_tg umem_dropshare_tg umem_unshare_tg
  umem_share_tg umem_free_tg umem_move_tg

lemma umem_ok:
  assumes "kernel_ok k"
  shows "umem_alloc pid nb prot k = Some (r, k') \<Longrightarrow> kernel_ok k'"
    and "umem_map_device pid base nb dflags k = Some (v, k') \<Longrightarrow> kernel_ok k'"
    and "umem_protect pid base nb prot k = Some (b, k') \<Longrightarrow> kernel_ok k'"
    and "umem_dropshare pid base to k = Some (v, k') \<Longrightarrow> kernel_ok k'"
    and "umem_unshare pid base to k = Some (v, k') \<Longrightarrow> kernel_ok k'"
    and "umem_share pid base to prot k = Some (v, k') \<Longrightarrow> kernel_ok k'"
    and "umem_free pid base k = Some (v, k') \<Longrightarrow> kernel_ok k'"
    and "umem_move base pid to True k = Some (v, k') \<Longrightarrow> kernel_ok k'"
  by (rule kernel_okI [OF _ tg_tree assms]; erule umem_invs [OF kernel_okD(1) [OF assms]] umem_tgs)+

lemma proc_sys_create_ok:
  assumes "kernel_ok k" "proc_sys_create me k = Some (r, k')" "proc k me \<noteq> None" "g_next_pid k \<noteq> - 1"
  shows "kernel_ok k'"
  using process_create_vm [of "Some me" k r k' "{}"] process_create_tree [of "Some me" k r k'] assms
  by (simp add: kernel_ok_def vm_ok_def proc_sys_create_def)

lemma proc_sys_destroy_ok:
  assumes "kernel_ok k" "proc_sys_destroy me t k = Some (r, k')"
  shows "kernel_ok k'"
  using proc_sys_destroy_vm [OF assms(2), of "{}"] proc_sys_destroy_tree [OF assms(2)] assms(1)
  by (simp add: kernel_ok_def vm_ok_def)

lemma sys_vm_ok:
  assumes "kernel_ok k"
  shows "sys_vm_alloc me nb prot k = Some (r, k') \<Longrightarrow> kernel_ok k'"
    and "sys_vm_protect me base nb prot pid k = Some (r, k') \<Longrightarrow> kernel_ok k'"
    and "sys_vm_share me base target prot k = Some (r, k') \<Longrightarrow> kernel_ok k'"
    and "proc_sys_vm_move me base pid k = Some (r, k') \<Longrightarrow> kernel_ok k'"
    and "cap_map_device me base nb dflags k = Some (r, k') \<Longrightarrow> kernel_ok k'"
  using assms by (auto simp: sys_vm_alloc_def sys_vm_protect_def proc_sys_vm_protect_for_def sys_vm_share_def
      proc_sys_vm_move_def cap_map_device_def elim!: bind_SomeE split: if_splits option.splits prod.splits
      dest!: umem_ok [OF assms] kernel_ok_vm [OF channel_scheme_create_core [THEN core_vm] assms])

lemma process_is_dead_proc: "process_is_dead k (Some pid) = Some b \<Longrightarrow> proc k pid \<noteq> None"
  by (subst (asm) process_is_dead.simps) (auto elim!: bind_SomeE)

lemma returnsE:
  assumes "returns m = Some (r, k')"
  obtains v where "m = Some (v, k')"
  using assms by (auto simp: returns_def)

lemmas syscall_frames = umem_enum_sharers_core [THEN core_vm] umem_enum_blocks_core [THEN core_vm] umem_enum_views_core [THEN core_vm]
  iommu_enum_maps_core [THEN core_vm] iommu_revoke_map_core [THEN core_vm] futex_sys_wake_vm sys_futex_wait_vm
  futex_sys_requeue_core [THEN core_vm] proc_sys_thread_spawn_core [THEN core_vm] park_exit_core [THEN core_vm]
  proc_sys_kill_core [THEN core_vm] proc_sys_threads_core [THEN core_vm] proc_sys_thread_destroy_core [THEN core_vm]
  proc_sys_children_core [THEN core_vm] sys_debug_write_core [THEN core_vm] 

lemma sys_vm_size_same: "sys_vm_size me base k = Some (r, k') \<Longrightarrow> k' = k"
  by (auto simp: sys_vm_size_def elim!: bind_SomeE)

lemma exit_vm: "proc_sys_process_exit me s k = Some k1 \<Longrightarrow> switched_out t k1 = Some k' \<Longrightarrow> vm k' = vm k"
  using proc_sys_process_exit_core [THEN core_vm] switched_out_core [THEN core_vm] by metis

lemma yield_vm: "uthread_park st b (upd_thread t f k) = Some k' \<Longrightarrow> vm k' = vm k"
  using uthread_park_core [THEN core_vm] by fastforce

lemma set_bases_vm: "arch_uthread_set_bases t fs gs k = (v, k') \<Longrightarrow> vm k' = vm k"
  by (auto simp: arch_uthread_set_bases_def split: if_splits)

lemma syscall_entry_ok:
  assumes "kernel_ok k" "g_next_pid k \<noteq> - 1" "syscall_entry nr a0 a1 a2 a3 k = Some (r, k')"
  shows "kernel_ok k'"
proof -
  note vm = kernel_ok_vm [OF _ assms(1)]
  note frames = syscall_frames [THEN vm] exit_vm [THEN vm] yield_vm [THEN vm] set_bases_vm [THEN vm]
  show ?thesis
    using assms(1,3) unfolding syscall_entry_def Let_def
    by (auto split: if_splits elim!: bind_SomeE returnsE dest: process_is_dead_proc [simplified] exit_vm [THEN vm]
        dest!: sys_vm_size_same frames umem_ok [OF assms(1)] sys_vm_ok [OF assms(1)] proc_sys_destroy_ok [OF assms(1)]
         proc_sys_create_ok [OF assms(1) _ _ assms(2)])
qed

end
