(* ===== verification/Grant_Correct.thy ===== *)
theory Grant_Correct
  imports Kernel_Inv
begin

text \<open>
  The forest of grants.  \<open>grants_ok\<close> says that parent and child links agree, that ids grow and depths are
  bounded, and that every grant is covered by its parent: same resource type, and unless the parent is a
  wildcard no larger range, no further flags, no other route or device.  Everything that touches grants keeps
  it; revocation cuts a subtree off with its first step and takes it apart leaf by leaf until it is gone.
\<close>

section \<open>Authority\<close>

text \<open>The first body gives no more than the second.\<close>

fun narrower :: "grant_body \<Rightarrow> grant_body \<Rightarrow> bool" where
  "narrower (Devmem b n f) (Devmem b' n' f') \<longleftrightarrow>
     unat b' \<le> unat b \<and> unat b + unat n \<le> unat b' + unat n' \<and> f AND NOT f' = 0"
| "narrower (Irq r i) (Irq r' i') \<longleftrightarrow> r = r' \<and> i = i'"
| "narrower (Iommu q) (Iommu q') \<longleftrightarrow> q = q'"
| "narrower _ _ \<longleftrightarrow> False"

definition covers :: "grant \<Rightarrow> grant \<Rightarrow> bool" where
  "covers p c \<longleftrightarrow> gr_type c = gr_type p \<and> (gr_wildcard p \<or> \<not> gr_wildcard c \<and> narrower (gr_body c) (gr_body p))"

definition typed :: "u8 \<Rightarrow> grant_body \<Rightarrow> bool" where
  "typed ty b \<longleftrightarrow> ty = (case b of Devmem _ _ _ \<Rightarrow> KCAP_GRANT_DEVMEM | Irq _ _ \<Rightarrow> KCAP_GRANT_IRQ_ROUTE | Iommu _ \<Rightarrow> KCAP_GRANT_IOMMU_DEV)"

definition body_ok :: "grant \<Rightarrow> bool" where
  "body_ok g \<longleftrightarrow> typed (gr_type g) (gr_body g) \<and>
     (\<not> gr_wildcard g \<longrightarrow> (case gr_body g of Devmem b n _ \<Rightarrow> n \<noteq> 0 \<and> unat b + unat n < 2 ^ 64 | _ \<Rightarrow> True))"

lemma and_not_trans:
  fixes a b c :: "'a::len word"
  assumes "a AND NOT b = 0" "b AND NOT c = 0"
  shows "a AND NOT c = 0"
proof (rule bit_word_eqI)
  fix i assume i: "i < LENGTH('a)"
  have "\<not> bit (a AND NOT b) i" "\<not> bit (b AND NOT c) i" using assms by simp_all
  then show "bit (a AND NOT c) i = bit (0 :: 'a word) i" using i by (auto simp: bit_simps)
qed

lemma narrower_refl [simp]: "narrower b b"
  by (cases b) (auto simp: bit_eq_iff bit_simps)

lemma narrower_trans: "narrower a b \<Longrightarrow> narrower b c \<Longrightarrow> narrower a c"
  by (cases a; cases b; cases c) (auto intro: and_not_trans)

lemma covers_refl [simp]: "covers g g"
  by (simp add: covers_def)

lemma covers_trans: "covers a b \<Longrightarrow> covers b c \<Longrightarrow> covers a c"
  by (auto simp: covers_def intro: narrower_trans)

lemma covers_cong:
  "gr_type p' = gr_type p \<Longrightarrow> gr_wildcard p' = gr_wildcard p \<Longrightarrow> gr_body p' = gr_body p \<Longrightarrow>
   gr_type c' = gr_type c \<Longrightarrow> gr_wildcard c' = gr_wildcard c \<Longrightarrow> gr_body c' = gr_body c \<Longrightarrow> covers p' c' = covers p c"
  by (simp add: covers_def)

section \<open>The forest\<close>

definition forest_ok :: "(u64 \<Rightarrow> grant option) \<Rightarrow> u64 \<Rightarrow> bool" where
  "forest_ok G nx \<longleftrightarrow> (\<forall>gid g. G gid = Some g \<longrightarrow> gid \<le> nx - 1 \<and> unat (gr_depth g) \<le> KCAP_MAX_DEPTH \<and> body_ok g \<and>
     distinct (gr_children g) \<and> (\<forall>c \<in> set (gr_children g). \<exists>cg. G c = Some cg \<and> gr_parent cg = Some gid) \<and>
     (case gr_parent g of None \<Rightarrow> gr_depth g = 0
      | Some pg \<Rightarrow> pg < gid \<and> (\<exists>p. G pg = Some p \<and> gid \<in> set (gr_children p) \<and>
          unat (gr_depth g) = Suc (unat (gr_depth p)) \<and> covers p g)))"

definition grants_ok :: "kernel \<Rightarrow> bool" where
  "grants_ok k \<longleftrightarrow> forest_ok (gnt k) (g_next_grant_id k)"

lemma forest_okI:
  assumes "\<And>gid g. G gid = Some g \<Longrightarrow> gid \<le> nx - 1" "\<And>gid g. G gid = Some g \<Longrightarrow> unat (gr_depth g) \<le> KCAP_MAX_DEPTH"
    "\<And>gid g. G gid = Some g \<Longrightarrow> body_ok g" "\<And>gid g. G gid = Some g \<Longrightarrow> distinct (gr_children g)"
    "\<And>gid g c. G gid = Some g \<Longrightarrow> c \<in> set (gr_children g) \<Longrightarrow> \<exists>cg. G c = Some cg \<and> gr_parent cg = Some gid"
    "\<And>gid g. G gid = Some g \<Longrightarrow> gr_parent g = None \<Longrightarrow> gr_depth g = 0"
    "\<And>gid g pg. G gid = Some g \<Longrightarrow> gr_parent g = Some pg \<Longrightarrow> pg < gid \<and> (\<exists>p. G pg = Some p \<and> gid \<in> set (gr_children p) \<and>
          unat (gr_depth g) = Suc (unat (gr_depth p)) \<and> covers p g)"
  shows "forest_ok G nx"
  using assms unfolding forest_ok_def by (auto split: option.split)

lemma forest_okD:
  assumes "forest_ok G nx" "G gid = Some g"
  shows "gid \<le> nx - 1" "unat (gr_depth g) \<le> KCAP_MAX_DEPTH" "body_ok g" "distinct (gr_children g)"
    "c \<in> set (gr_children g) \<Longrightarrow> \<exists>cg. G c = Some cg \<and> gr_parent cg = Some gid"
    "gr_parent g = None \<Longrightarrow> gr_depth g = 0"
    "gr_parent g = Some pg \<Longrightarrow> pg < gid"
    "gr_parent g = Some pg \<Longrightarrow> \<exists>p. G pg = Some p \<and> gid \<in> set (gr_children p) \<and>
          unat (gr_depth g) = Suc (unat (gr_depth p)) \<and> covers p g"
  using assms unfolding forest_ok_def by (fastforce split: option.splits)+

lemma u64_pred_less: "nx \<noteq> 0 \<Longrightarrow> gid \<le> nx - 1 \<Longrightarrow> gid < (nx :: u64)"
  using unat_gt_0 [of nx] by (simp add: word_le_nat_alt word_less_nat_alt unat_minus_one)

lemma forest_fresh: "forest_ok G nx \<Longrightarrow> nx \<noteq> 0 \<Longrightarrow> G gid = Some g \<Longrightarrow> gid < nx"
  using u64_pred_less forest_okD(1) by blast

lemma forest_ok_skip: "forest_ok G nx \<Longrightarrow> nx \<noteq> 0 \<Longrightarrow> forest_ok G (nx + 1)"
  using forest_fresh [of G nx] unfolding forest_ok_def by (auto intro: less_imp_le)

lemma forest_ok_root:
  assumes ok: "forest_ok G nx" and nx: "nx \<noteq> 0"
    and g: "gr_parent g = None" "gr_depth g = 0" "gr_children g = []" "body_ok g"
  shows "forest_ok (G(nx \<mapsto> g)) (nx + 1)"
proof (rule forest_okI)
  note D = forest_okD [OF ok]
  fix gid h assume h: "(G(nx \<mapsto> g)) gid = Some h"
  show "gid \<le> nx + 1 - 1" "unat (gr_depth h) \<le> KCAP_MAX_DEPTH" "body_ok h" "distinct (gr_children h)"
    using h g D(2-4) forest_fresh [OF ok nx] by (auto split: if_splits intro: less_imp_le)
  show "\<exists>cg. (G(nx \<mapsto> g)) c = Some cg \<and> gr_parent cg = Some gid" if "c \<in> set (gr_children h)" for c
    using h g that D(5) forest_fresh [OF ok nx] by (fastforce split: if_splits)
  show "gr_parent h = None \<Longrightarrow> gr_depth h = 0" using h g D(6) by (auto split: if_splits)
  fix pg assume pg: "gr_parent h = Some pg"
  then have h': "gid \<noteq> nx" "G gid = Some h" using h g by (auto split: if_splits)
  obtain p where p: "G pg = Some p" "gid \<in> set (gr_children p)" "unat (gr_depth h) = Suc (unat (gr_depth p))" "covers p h"
    using D(8) [OF h'(2) pg] by blast
  then have "pg \<noteq> nx" using forest_fresh [OF ok nx p(1)] by blast
  then show "pg < gid \<and> (\<exists>p. (G(nx \<mapsto> g)) pg = Some p \<and> gid \<in> set (gr_children p) \<and>
      unat (gr_depth h) = Suc (unat (gr_depth p)) \<and> covers p h)"
    using D(7) [OF h'(2) pg] p by auto
qed

lemma body_ok_upd [simp]: "body_ok (g\<lparr>gr_dead := d\<rparr>) = body_ok g" "body_ok (g\<lparr>gr_children := cs\<rparr>) = body_ok g"
  by (simp_all add: body_ok_def)

lemma covers_upd [simp]: "covers (g\<lparr>gr_dead := d\<rparr>) = covers g" "covers (g\<lparr>gr_children := cs\<rparr>) = covers g"
  "covers h (g\<lparr>gr_dead := d\<rparr>) = covers h g" "covers h (g\<lparr>gr_children := cs\<rparr>) = covers h g"
  by (simp_all add: covers_def fun_eq_iff)

lemma forest_ok_mark:
  assumes ok: "forest_ok G nx" and t: "G t = Some g"
  shows "forest_ok (G(t \<mapsto> g\<lparr>gr_dead := True\<rparr>)) nx" (is "forest_ok ?G nx")
proof (rule forest_okI)
  note D = forest_okD [OF ok]
  have up: "\<exists>q. ?G gid = Some q \<and> gr_children q = gr_children p \<and> gr_depth q = gr_depth p \<and> covers q = covers p \<and> gr_parent q = gr_parent p"
    if "G gid = Some p" for gid p using that t by auto
  fix gid h assume "?G gid = Some h"
  then obtain h0 where h: "G gid = Some h0" "gr_children h = gr_children h0" "gr_depth h = gr_depth h0" "body_ok h = body_ok h0"
    "gr_parent h = gr_parent h0" "\<And>p. covers p h = covers p h0" using t by (auto split: if_splits)
  show "gid \<le> nx - 1" "unat (gr_depth h) \<le> KCAP_MAX_DEPTH" "body_ok h" "distinct (gr_children h)"
    "gr_parent h = None \<Longrightarrow> gr_depth h = 0" using D(1-4,6) h by auto
  show "\<exists>cg. ?G c = Some cg \<and> gr_parent cg = Some gid" if "c \<in> set (gr_children h)" for c
    using D(5) [OF h(1), of c] that h(2) up t by auto
  show "pg < gid \<and> (\<exists>p. ?G pg = Some p \<and> gid \<in> set (gr_children p) \<and>
      unat (gr_depth h) = Suc (unat (gr_depth p)) \<and> covers p h)" if "gr_parent h = Some pg" for pg
    using D(7,8) [OF h(1), of pg] that h up [of pg] by auto
qed

lemma forest_ok_add:
  assumes ok: "forest_ok G nx" and nx: "nx \<noteq> 0" and p: "G pg = Some p" "unat (gr_depth p) < KCAP_MAX_DEPTH"
    and g: "gr_parent g = Some pg" "gr_depth g = gr_depth p + 1" "gr_children g = []" "body_ok g" "covers p g"
  shows "forest_ok (G(pg \<mapsto> p\<lparr>gr_children := nx # gr_children p\<rparr>, nx \<mapsto> g)) (nx + 1)" (is "forest_ok ?G _")
proof (rule forest_okI)
  note D = forest_okD [OF ok] and fresh = forest_fresh [OF ok nx]
  have d: "unat (gr_depth g) = Suc (unat (gr_depth p))"
    using p(2) by (simp add: g(2) unat_word_ariths KCAP_MAX_DEPTH_def)
  have pg: "pg < nx" using fresh p(1) by blast
  have up: "\<exists>q. ?G gid = Some q \<and> set (gr_children h) \<subseteq> set (gr_children q) \<and> gr_depth q = gr_depth h \<and> covers q = covers h \<and> gr_parent q = gr_parent h"
    if "G gid = Some h" for gid h using that p fresh by fastforce
  fix gid h assume h: "?G gid = Some h"
  show "gid \<le> nx + 1 - 1" using h pg fresh by (auto split: if_splits intro: less_imp_le)
  show "unat (gr_depth h) \<le> KCAP_MAX_DEPTH" "body_ok h" "gr_parent h = None \<Longrightarrow> gr_depth h = 0"
    using h g p d D(2,3,6) by (auto split: if_splits)
  have nk: "nx \<notin> set (gr_children p)" using D(5) [OF p(1)] fresh by blast
  show "distinct (gr_children h)"
    using h g(3) p(1) D(4) nk by (auto split: if_splits)
  show "\<exists>cg. ?G c = Some cg \<and> gr_parent cg = Some gid" if c: "c \<in> set (gr_children h)" for c
  proof (cases "c = nx")
    case True
    then have "gid = pg" using h c g(3) D(5) fresh by (fastforce split: if_splits)
    then show ?thesis using True g(1) by simp
  next
    case False
    then obtain h0 where "G gid = Some h0" "c \<in> set (gr_children h0)" using h c p(1) g(3) by (auto split: if_splits)
    then obtain cg where "G c = Some cg" "gr_parent cg = Some gid" using D(5) by blast
    then show ?thesis using up [of c cg] by auto
  qed
  fix q assume q: "gr_parent h = Some q"
  show "q < gid \<and> (\<exists>p. ?G q = Some p \<and> gid \<in> set (gr_children p) \<and> unat (gr_depth h) = Suc (unat (gr_depth p)) \<and> covers p h)"
  proof (cases "gid = nx")
    case True
    then show ?thesis using h q g d pg by auto
  next
    case False
    then obtain h0 where h0: "G gid = Some h0" "gr_parent h0 = Some q" "gr_depth h0 = gr_depth h" "\<And>p. covers p h0 = covers p h"
      using h q p(1) by (auto split: if_splits)
    then show ?thesis using D(7,8) [OF h0(1,2)] up [of q] by fastforce
  qed
qed

definition cut :: "u64 \<Rightarrow> (u64 \<Rightarrow> grant option) \<Rightarrow> u64 \<Rightarrow> grant option" where
  "cut l G x = (if x = l then None
     else map_option (\<lambda>p. if G l \<noteq> None \<and> gr_parent (the (G l)) = Some x then p\<lparr>gr_children := remove1 l (gr_children p)\<rparr> else p) (G x))"

lemma forest_ok_cut:
  assumes ok: "forest_ok G nx" and l: "G l = Some g" "gr_children g = []"
  shows "forest_ok (cut l G) nx"
proof (rule forest_okI)
  note D = forest_okD [OF ok]
  have ch: "l \<notin> set (gr_children h')" if c: "cut l G x = Some h'" for x h'
  proof -
    obtain h where h: "G x = Some h" using c by (auto simp: cut_def split: if_splits)
    then have "h' = (if gr_parent g = Some x then h\<lparr>gr_children := remove1 l (gr_children h)\<rparr> else h)"
      using c h l by (auto simp: cut_def split: if_splits)
    then show ?thesis using D(4) [OF h] D(5) [OF h, of l] l(1) by (auto split: if_splits)
  qed
  fix x h' assume h': "cut l G x = Some h'"
  then obtain h where h: "x \<noteq> l" "G x = Some h" "set (gr_children h') \<subseteq> set (gr_children h)" "gr_depth h' = gr_depth h"
     "body_ok h' = body_ok h" "gr_parent h' = gr_parent h" "\<And>p. covers p h' = covers p h" "distinct (gr_children h')"
    using l D(4) by (auto simp: cut_def distinct_remove1 split: if_splits dest: notin_set_remove1 in_set_remove1)
  have up: "\<exists>r. cut l G y = Some r \<and> gr_depth r = gr_depth q \<and> covers r = covers q \<and> gr_parent r = gr_parent q \<and>
      (\<forall>z. z \<noteq> l \<longrightarrow> z \<in> set (gr_children q) \<longrightarrow> z \<in> set (gr_children r))" if "G y = Some q" "y \<noteq> l" for y q
    using that l by (auto simp: cut_def)
  show "x \<le> nx - 1" "unat (gr_depth h') \<le> KCAP_MAX_DEPTH" "body_ok h'" "distinct (gr_children h')"
    "gr_parent h' = None \<Longrightarrow> gr_depth h' = 0" using D(1-3,6) h by auto
  show "\<exists>cg. cut l G c = Some cg \<and> gr_parent cg = Some x" if c: "c \<in> set (gr_children h')" for c
  proof -
    have "c \<noteq> l" using ch [OF h'] c by blast
    moreover obtain cg where "G c = Some cg" "gr_parent cg = Some x" using D(5) [OF h(2)] h(3) c by blast
    ultimately show ?thesis using up [of c cg] by auto
  qed
  fix q assume "gr_parent h' = Some q"
  then have q: "gr_parent h = Some q" using h by simp
  then obtain p where p: "G q = Some p" "x \<in> set (gr_children p)" "unat (gr_depth h) = Suc (unat (gr_depth p))" "covers p h"
    using D(8) [OF h(2)] by blast
  then have "q \<noteq> l" using l by auto
  then show "q < x \<and> (\<exists>p. cut l G q = Some p \<and> x \<in> set (gr_children p) \<and> unat (gr_depth h') = Suc (unat (gr_depth p)) \<and> covers p h')"
    using D(7) [OF h(2) q] up [OF p(1)] p h by auto
qed

section \<open>The operations\<close>

lemma gnt_upd [simp]:
  "gnt (k\<lparr>g_oom := x\<rparr>) = gnt k" "gnt (k\<lparr>g_next_grant_id := n\<rparr>) = gnt k"
  "gnt (upd_grant gid f k) i = (if i = gid then map_option f (gnt k i) else gnt k i)"
  "g_next_grant_id (upd_grant gid f k) = g_next_grant_id k"
  by (simp_all add: gnt_def upd_grant_def fun_eq_iff)

lemma grants_ok_cong: "g_grants k' = g_grants k \<Longrightarrow> g_next_grant_id k' = g_next_grant_id k \<Longrightarrow> grants_ok k' = grants_ok k"
  by (simp add: grants_ok_def gnt_def [abs_def])

lemma grants_ok_core: "core k' = core k \<Longrightarrow> grants_ok k \<Longrightarrow> grants_ok k'"
  using grants_ok_cong [of k' k] by (simp add: core_def)

lemma grants_ok_tg: "tg k' = tg k \<Longrightarrow> grants_ok k \<Longrightarrow> grants_ok k'"
  using grants_ok_cong [of k' k] by (simp add: tg_def)

definition fresh_grant :: "u64 option \<Rightarrow> u8 \<Rightarrow> bool \<Rightarrow> kernel \<Rightarrow> grant" where
  "fresh_grant parent ty wildcard k = \<lparr>gr_id = g_next_grant_id k, gr_type = ty,
     gr_depth = (case parent of None \<Rightarrow> 0 | Some pg \<Rightarrow> gr_depth (the (gnt k pg)) + 1), gr_wildcard = wildcard,
     gr_dead = False, gr_body = zero_body ty, gr_parent = parent, gr_children = []\<rparr>"

lemma grant_new_child:
  assumes "grant_new (Some pg) ty w k = Some (r, k')" "gnt k pg = Some p"
  shows "r = None \<and> gnt k' = gnt k \<and> g_next_grant_id k' = g_next_grant_id k \<or>
    r = Some (g_next_grant_id k) \<and> g_next_grant_id k \<noteq> 0 \<and> g_next_grant_id k' = g_next_grant_id k + 1 \<and>
    unat (gr_depth p) < KCAP_MAX_DEPTH \<and> gnt k (g_next_grant_id k) = None \<and>
    gnt k' = (gnt k)(pg \<mapsto> p\<lparr>gr_children := g_next_grant_id k # gr_children p\<rparr>, g_next_grant_id k \<mapsto> fresh_grant (Some pg) ty w k)"
  using assms
  by (auto simp: grant_new_def Let_def slab_alloc_def asserts_def fresh_grant_def gnt_def upd_grant_def fun_eq_iff elim!: bind_SomeE must_allocE
      split: if_splits list.splits bool.splits prod.splits)

lemma grant_new_root:
  assumes "grant_new None ty w k = Some (r, k')"
  shows "r = None \<and> gnt k' = gnt k \<and> g_next_grant_id k' = g_next_grant_id k \<or>
    r = Some (g_next_grant_id k) \<and> g_next_grant_id k \<noteq> 0 \<and> g_next_grant_id k' = g_next_grant_id k + 1 \<and>
    gnt k' = (gnt k)(g_next_grant_id k \<mapsto> fresh_grant None ty w k)"
  using assms
  by (auto simp: grant_new_def Let_def slab_alloc_def asserts_def fresh_grant_def gnt_def fun_eq_iff elim!: bind_SomeE must_allocE
      split: if_splits list.splits bool.splits prod.splits)

lemma grant_delete_leaf_cut:
  assumes "grant_delete_leaf l k = Some k'"
  shows "gnt k' = cut l (gnt k) \<and> g_next_grant_id k' = g_next_grant_id k \<and> (\<exists>g. gnt k l = Some g \<and> gr_children g = [])"
  using assms
  by (auto simp: grant_delete_leaf_def Let_def asserts_def gnt_def upd_grant_def cut_def fun_eq_iff option.map_ident elim!: bind_SomeE
      split: if_splits option.splits)

lemma cut_add:
  assumes "G nx = None" "G pg = Some p" "gr_parent g = Some pg"
  shows "cut nx (G(pg \<mapsto> p\<lparr>gr_children := nx # gr_children p\<rparr>, nx \<mapsto> g)) = G"
proof -
  have "pg \<noteq> nx" using assms by auto
  then show ?thesis using assms by (auto simp: cut_def fun_eq_iff option.map_ident)
qed

lemma range_sum_Some: "range_sum b n = Some e \<longleftrightarrow> n \<noteq> 0 \<and> unat b + unat n < 2 ^ 64 \<and> e = b + n"
  by (auto simp: range_sum_def add_overflow_def)

lemma range_le: "unat b + unat n < 2 ^ 64 \<Longrightarrow> unat b' + unat n' < 2 ^ 64 \<Longrightarrow> (b + n \<le> b' + n') = (unat b + unat n \<le> unat b' + unat (n' :: u64))"
  by (simp add: word_le_nat_alt unat_word_ariths)

lemma subgrant_devmem_ok:
  assumes "subgrant_devmem req p = (0, body)" "typed (gr_type p) (gr_body p)" "gr_type p = KCAP_GRANT_DEVMEM"
  shows "typed (gr_type p) body \<and> (gr_wildcard p \<or> narrower body (gr_body p)) \<and> dm_len body \<noteq> 0 \<and> unat (dm_base body) + unat (dm_len body) < 2 ^ 64"
proof -
  obtain b n f where p: "gr_body p = Devmem b n f"
    using assms(2,3) by (cases "gr_body p") (auto simp: typed_def grant_types)
  define b' where "b' = (if rq_present req AND KCAP_PARAM_P0 \<noteq> 0 then rq_p0 req else b)"
  define n' where "n' = (if rq_present req AND KCAP_PARAM_P1 \<noteq> 0 then rq_p1 req else n)"
  define f' where "f' = (if rq_present req AND KCAP_PARAM_P2 \<noteq> 0 then ucast (rq_p2 req) else f)"
  have body: "body = Devmem b' n' f'" using assms(1)
    unfolding subgrant_devmem_def Let_def p grant_body.sel b'_def n'_def f'_def by simp
  have "range_sum b' n' \<noteq> None" and
    w: "gr_wildcard p \<or> (\<exists>e. range_sum b n = Some e \<and> b \<le> b' \<and> the (range_sum b' n') \<le> e) \<and> f' AND NOT f = 0"
    using assms(1) unfolding subgrant_devmem_def Let_def p grant_body.sel b'_def [symmetric] n'_def [symmetric] f'_def [symmetric]
    by (auto simp: not_less SYSERR_PERM_def split: if_splits option.splits)
  then obtain e' where e: "range_sum b' n' = Some e'" by auto
  then show ?thesis
    using w [unfolded e option.sel] assms(3) by (auto simp: body p typed_def range_sum_Some range_le word_le_nat_alt [of b b'])
qed

lemma subgrant_irq_ok:
  assumes "subgrant_irq k req p = (0, body)" "typed (gr_type p) (gr_body p)" "gr_type p = KCAP_GRANT_IRQ_ROUTE"
  shows "typed (gr_type p) body \<and> (gr_wildcard p \<or> narrower body (gr_body p))"
  using assms by (auto simp: subgrant_irq_def typed_def Let_def SYSERR_INVAL_def SYSERR_PERM_def split: if_splits option.splits)

lemma ucast_up_down: "ucast (ucast (q :: u32) :: u64) = q"
  by (rule bit_word_eqI) (simp add: bit_simps)

lemma subgrant_iommu_ok:
  assumes "subgrant_iommu req p = (0, body)" "typed (gr_type p) (gr_body p)" "gr_type p = KCAP_GRANT_IOMMU_DEV"
  shows "typed (gr_type p) body \<and> (gr_wildcard p \<or> narrower body (gr_body p))"
proof -
  obtain q where p: "gr_body p = Iommu q"
    using assms(2,3) by (cases "gr_body p") (auto simp: typed_def grant_types)
  show ?thesis
    using assms(1,3) by (auto simp: subgrant_iommu_def typed_def Let_def p SYSERR_PERM_def ucast_up_down split: if_splits)
qed

definition child_of :: "u64 \<Rightarrow> grant \<Rightarrow> grant_body \<Rightarrow> kernel \<Rightarrow> grant" where
  "child_of pg p body k = (fresh_grant (Some pg) (gr_type p) False k)\<lparr>gr_body := body\<rparr>"

text \<open>What \<open>subgrant\<close> can do to the forest: nothing, or one new child with a covered body.\<close>

lemma subgrant_cases:
  assumes "subgrant req pg k = Some (rc, tok, k')" "gnt k pg = Some p" "body_ok p"
  obtains (none) "gnt k' = gnt k" "g_next_grant_id k' = g_next_grant_id k \<or> g_next_grant_id k \<noteq> 0 \<and> g_next_grant_id k' = g_next_grant_id k + 1" "rc \<noteq> 0" "tok = None"
  | (child) body where "rc = 0" "g_next_grant_id k \<noteq> 0" "g_next_grant_id k' = g_next_grant_id k + 1" "unat (gr_depth p) < KCAP_MAX_DEPTH"
      "covers p (child_of pg p body k)" "body_ok (child_of pg p body k)" "tok = Some (token_write k' (g_next_grant_id k))"
      "gnt k' = (gnt k)(pg \<mapsto> p\<lparr>gr_children := g_next_grant_id k # gr_children p\<rparr>, g_next_grant_id k \<mapsto> child_of pg p body k)"
proof -
  define chk where "chk = (\<lambda>k1. if gr_type p = KCAP_GRANT_DEVMEM then subgrant_devmem req p
     else if gr_type p = KCAP_GRANT_IRQ_ROUTE then subgrant_irq k1 req p
     else if gr_type p = KCAP_GRANT_IOMMU_DEV then subgrant_iommu req p else (SYSERR_INVAL, zero_body (gr_type p)))"
  consider (early) "k' = k" "rc \<noteq> 0" "tok = None"
    | (full) k1 where "grant_new (Some pg) (gr_type p) False k = Some (None, k1)" "k' = k1" "rc \<noteq> 0" "tok = None"
    | (made) gid k1 where "grant_new (Some pg) (gr_type p) False k = Some (Some gid, k1)"
       "(if fst (chk k1) \<noteq> 0 then grant_delete_leaf gid (upd_grant gid (\<lambda>g. g\<lparr>gr_body := snd (chk k1)\<rparr>) k1) \<bind> (\<lambda>k. Some (fst (chk k1), None, k))
         else Some (0, Some (token_write (upd_grant gid (\<lambda>g. g\<lparr>gr_body := snd (chk k1)\<rparr>) k1) gid), upd_grant gid (\<lambda>g. g\<lparr>gr_body := snd (chk k1)\<rparr>) k1)) = Some (rc, tok, k')"
    using assms(1,2) unfolding subgrant_def chk_def
    by (auto simp: Let_def SYSERR_INVAL_def SYSERR_NOMEM_def case_prod_unfold elim!: bind_SomeE split: if_splits option.splits)
  then show thesis
  proof cases
    case early then show thesis using none by simp
  next
    case full then show thesis using none grant_new_child [OF full(1) assms(2)] by auto
  next
    case (made gid k1)
    define body where "body = snd (chk k1)"
    define k2 where "k2 = upd_grant gid (\<lambda>g. g\<lparr>gr_body := body\<rparr>) k1"
    have new: "gid = g_next_grant_id k" "g_next_grant_id k \<noteq> 0" "g_next_grant_id k2 = g_next_grant_id k + 1"
      "unat (gr_depth p) < KCAP_MAX_DEPTH" "gnt k gid = None"
      "gnt k2 = (gnt k)(pg \<mapsto> p\<lparr>gr_children := gid # gr_children p\<rparr>, gid \<mapsto> child_of pg p body k)"
      using grant_new_child [OF made(1) assms(2)] by (auto simp: k2_def child_of_def fun_eq_iff)
    have par: "gr_parent (child_of pg p body k) = Some pg" by (simp add: child_of_def fresh_grant_def)
    show thesis
    proof (cases "fst (chk k1) = 0")
      case True
      then have b: "typed (gr_type p) body \<and> (gr_wildcard p \<or> narrower body (gr_body p)) \<and>
          (gr_type p = KCAP_GRANT_DEVMEM \<longrightarrow> dm_len body \<noteq> 0 \<and> unat (dm_base body) + unat (dm_len body) < 2 ^ 64)"
        using subgrant_devmem_ok [of req p body] subgrant_irq_ok [of k1 req p body] subgrant_iommu_ok [of req p body] assms(3)
        unfolding chk_def body_def body_ok_def by (auto simp: SYSERR_INVAL_def grant_types prod_eq_iff split: if_splits)
      have "body_ok (child_of pg p body k)" "covers p (child_of pg p body k)"
        using b by (auto simp: body_ok_def covers_def child_of_def fresh_grant_def typed_def split: grant_body.splits)
      moreover have "rc = 0" "k' = k2" "tok = Some (token_write k2 gid)" using made(2) True by (auto simp: k2_def body_def)
      ultimately show thesis using child [of body] new by simp
    next
      case False
      then obtain "grant_delete_leaf gid k2 = Some k'" "rc \<noteq> 0" "tok = None"
        using made(2) by (auto simp: k2_def body_def elim!: bind_SomeE)
      moreover from this have "gnt k' = gnt k" "g_next_grant_id k' = g_next_grant_id k2"
        using grant_delete_leaf_cut [of gid k2 k'] cut_add [OF new(5) assms(2) par] new(6) by simp_all
      ultimately show thesis using none new by simp
    qed
  qed
qed

lemma subgrant_ok:
  assumes "grants_ok k" "subgrant req pg k = Some (rc, tok, k')"
  shows "grants_ok k'"
proof -
  obtain p where p: "gnt k pg = Some p" using assms(2) by (auto simp: subgrant_def elim!: bind_SomeE)
  note ok = assms(1) [unfolded grants_ok_def]
  show ?thesis using assms(2) p forest_okD(3) [OF ok p]
  proof (cases rule: subgrant_cases)
    case none
    then show ?thesis using ok forest_ok_skip by (auto simp: grants_ok_def)
  next
    case (child body)
    then show ?thesis
      unfolding grants_ok_def child(3,8)
      by (intro forest_ok_add [OF ok _ p]) (simp_all add: child_of_def fresh_grant_def p)
  qed
qed

lemma cap_create_irq_route_ok:
  assumes "grants_ok k" "cap_create_irq_route pg i k = Some (rc, tok, k')"
  shows "grants_ok k'"
proof -
  note ok = assms(1) [unfolded grants_ok_def]
  obtain p where p: "gnt k pg = Some p" using assms(2) by (auto simp: cap_create_irq_route_def elim!: bind_SomeE)
  consider (same) "k' = k" | (full) k1 where "grant_new (Some pg) (gr_type p) False k = Some (None, k1)" "k' = k1"
    | (made) gid k1 where "grant_new (Some pg) (gr_type p) False k = Some (Some gid, k1)" "gr_wildcard p" "gr_type p = KCAP_GRANT_IRQ_ROUTE"
       "k' = upd_grant gid (\<lambda>g. g\<lparr>gr_body := Irq (Some i) (route_id k1 i)\<rparr>) k1"
    using assms(2) p by (auto simp: cap_create_irq_route_def Let_def elim!: bind_SomeE split: if_splits option.splits)
  then show ?thesis
  proof cases
    case same then show ?thesis using assms(1) by simp
  next
    case full then show ?thesis using grant_new_child [OF full(1) p] ok by (simp add: grants_ok_def)
  next
    case (made gid k1)
    define body where "body = Irq (Some i) (route_id k1 i)"
    have new: "gid = g_next_grant_id k" "g_next_grant_id k \<noteq> 0" "g_next_grant_id k' = g_next_grant_id k + 1"
      "unat (gr_depth p) < KCAP_MAX_DEPTH"
      "gnt k' = (gnt k)(pg \<mapsto> p\<lparr>gr_children := gid # gr_children p\<rparr>, gid \<mapsto> child_of pg p body k)"
      using grant_new_child [OF made(1) p] by (auto simp: made(4) child_of_def body_def fun_eq_iff)
    show ?thesis
      unfolding grants_ok_def new(3,5) new(1)
      by (intro forest_ok_add [OF ok new(2) p new(4)])
        (simp_all add: child_of_def fresh_grant_def p covers_def body_ok_def typed_def body_def made(2,3))
  qed
qed

lemma grant_delete_leaf_ok: "grants_ok k \<Longrightarrow> grant_delete_leaf l k = Some k' \<Longrightarrow> grants_ok k'"
  using grant_delete_leaf_cut [of l k k'] forest_ok_cut [of "gnt k"] by (auto simp: grants_ok_def)

lemma revoke_step_ok:
  assumes "grants_ok k" "revoke_step t k = Some (rc, k')"
  shows "grants_ok k'"
proof -
  obtain g l where g: "gnt k t = Some g" and l: "grant_delete_leaf l (upd_grant t (\<lambda>g. g\<lparr>gr_dead := True\<rparr>) k) = Some k'"
    using assms(2) by (auto simp: revoke_step_def Let_def elim!: bind_SomeE)
  have "gnt (upd_grant t (\<lambda>g. g\<lparr>gr_dead := True\<rparr>) k) = (gnt k)(t \<mapsto> g\<lparr>gr_dead := True\<rparr>)" using g by (simp add: fun_eq_iff)
  then have "grants_ok (upd_grant t (\<lambda>g. g\<lparr>gr_dead := True\<rparr>) k)"
    using forest_ok_mark [OF assms(1) [unfolded grants_ok_def] g] by (simp add: grants_ok_def)
  then show ?thesis using l by (rule grant_delete_leaf_ok)
qed

section \<open>Ring commands and system calls\<close>

lemma grants_ok_upd [simp]: "grants_ok (upd_ring rg f k) = grants_ok k" "grants_ok (upd_route i h k) = grants_ok k"
  "grants_ok (upd_thread t j k) = grants_ok k" "grants_ok (upd_proc pid q k) = grants_ok k"
  by (simp_all add: grants_ok_def gnt_def [abs_def] upd_ring_def upd_block_def upd_route_def upd_thread_def upd_proc_def)

lemma subgrant_imp: "subgrant req pg k = Some (rc, tok, k') \<Longrightarrow> grants_ok k \<longrightarrow> grants_ok k'"
  using subgrant_ok by blast

lemma revoke_step_imp: "revoke_step t k = Some (rc, k') \<Longrightarrow> grants_ok k \<longrightarrow> grants_ok k'"
  using revoke_step_ok by blast

lemma cap_create_irq_route_imp: "cap_create_irq_route pg i k = Some (rc, tok, k') \<Longrightarrow> grants_ok k \<longrightarrow> grants_ok k'"
  using cap_create_irq_route_ok by blast

lemma grants_imp: "core k' = core k \<Longrightarrow> grants_ok k \<longrightarrow> grants_ok k'"
  using grants_ok_core by blast

lemma cap_subgrant_cmd_ok: "cap_subgrant_cmd rg sqe k = Some (r, e, k') \<Longrightarrow> grants_ok k \<longrightarrow> grants_ok k'"
  by (auto simp: cap_subgrant_cmd_def elim!: bind_SomeE split: if_splits option.splits prod.splits
      dest!: subgrant_imp store_bytes_core [THEN grants_imp])

lemma cap_revoke_cmd_ok: "cap_revoke_cmd rg sqe k = Some (r, e, k') \<Longrightarrow> grants_ok k \<longrightarrow> grants_ok k'"
  by (auto simp: cap_revoke_cmd_def elim!: bind_SomeE split: if_splits prod.splits dest!: revoke_step_imp)

lemma cap_exec_ok: "cap_exec rg sqe k = Some (r, e, k') \<Longrightarrow> grants_ok k \<longrightarrow> grants_ok k'"
  by (auto simp: cap_exec_def split: if_splits dest!: cap_subgrant_cmd_ok cap_revoke_cmd_ok cap_query_cmd_core [THEN grants_imp])

lemma allocate_msi_on_ring_ok: "allocate_msi_on_ring rg sqe k = Some (r, e, k') \<Longrightarrow> grants_ok k \<longrightarrow> grants_ok k'"
  by (auto simp: allocate_msi_on_ring_def Let_def elim!: bind_SomeE split: if_splits option.splits prod.splits
      dest!: cap_create_irq_route_imp store_bytes_core [THEN grants_imp])

lemma irq_exec_ok: "irq_exec rg sqe k = Some (r, e, k') \<Longrightarrow> grants_ok k \<longrightarrow> grants_ok k'"
  by (auto simp: irq_exec_def Let_def elim!: bind_SomeE split: if_splits prod.splits
      dest!: allocate_msi_on_ring_ok claim_core [THEN grants_imp] release_core [THEN grants_imp] ack_core [THEN grants_imp])

lemma scheme_exec_ok: "scheme_exec pid rg sqe k = Some (r, e, k') \<Longrightarrow> grants_ok k \<longrightarrow> grants_ok k'"
  by (auto simp: scheme_exec_def elim!: bind_SomeE split: scheme.splits prod.splits
      dest!: cap_exec_ok irq_exec_ok iommu_exec_core [THEN grants_imp])

lemma run_chunk_loop_ok: "run_chunk_loop n pid rg tail k = Some r \<Longrightarrow> grants_ok k \<longrightarrow> grants_ok (snd r)"
  by (induction n arbitrary: k r) (auto simp: Let_def elim!: bind_SomeE split: if_splits prod.splits
      dest!: scheme_exec_ok store32_core [THEN grants_imp] channel_post_core [THEN grants_imp])+

lemma ring_run_chunk_ok: "ring_run_chunk pid rg bg k = Some r \<Longrightarrow> grants_ok k \<longrightarrow> grants_ok (snd r)"
  by (auto simp: ring_run_chunk_def elim!: bind_SomeE split: if_splits dest!: run_chunk_loop_ok)

lemma drain_loop_ok: "drain_loop pid a bg ff k = Some r \<Longrightarrow> grants_ok k \<longrightarrow> grants_ok (snd r)"
  apply (erule drain_loop.raw_induct [where P = "\<lambda>_ _ _ _ k r. grants_ok k \<longrightarrow> grants_ok (snd r)", rotated])
  subgoal premises prems
    using prems(2) by (auto simp: Let_def elim!: bind_SomeE split: if_splits option.splits
        dest!: prems(1) ring_run_chunk_ok ring_replay_core [THEN grants_imp])
  done

lemma channel_ring_drain_ok: "channel_ring_drain pid a k = Some (r, k') \<Longrightarrow> grants_ok k \<longrightarrow> grants_ok k'"
  by (auto simp: channel_ring_drain_def dest!: drain_loop_ok)

lemma futex_sys_wake_ok: "futex_sys_wake me a c k = Some (r, k') \<Longrightarrow> grants_ok k \<longrightarrow> grants_ok k'"
  by (auto simp: futex_sys_wake_def elim!: bind_SomeE split: if_splits option.splits
     dest!: channel_ring_drain_ok wake_batch_core [THEN grants_imp])

lemma futex_sys_wait_ok: "futex_sys_wait me t a e w d k = Some (r, k') \<Longrightarrow> grants_ok k \<longrightarrow> grants_ok k'"
  by (auto simp: futex_sys_wait_def elim!: bind_SomeE split: if_splits
      dest!: futex_sys_wake_ok uthread_park_core [THEN grants_imp] compare_and_park_core [THEN grants_imp])

lemma sys_futex_wait_ok: "sys_futex_wait me t a b c d k = Some (r, k') \<Longrightarrow> grants_ok k \<longrightarrow> grants_ok k'"
  by (auto simp: sys_futex_wait_def elim!: bind_SomeE split: if_splits prod.splits
      dest!: futex_sys_wait_ok switched_out_core [THEN grants_imp])

lemma grants_tg: "tg k' = tg k \<Longrightarrow> grants_ok k \<longrightarrow> grants_ok k'"
  using grants_ok_tg by blast

lemma process_create_grants: "process_create parent k = Some (pid, k') \<Longrightarrow> grants_ok k \<longrightarrow> grants_ok k'"
  by (elim process_createE) (auto simp: link_child_def grants_ok_def gnt_def [abs_def] upd_proc_def split: option.splits)

lemma proc_sys_destroy_grants: "proc_sys_destroy me t k = Some (r, k') \<Longrightarrow> grants_ok k \<longrightarrow> grants_ok k'"
  by (elim proc_sys_destroyE) (auto simp: grants_ok_def gnt_def [abs_def] upd_proc_def)

lemmas umem_grants = umem_alloc_tg [THEN grants_tg] umem_map_device_tg [THEN grants_tg] umem_protect_tg [THEN grants_tg]
  umem_dropshare_tg [THEN grants_tg] umem_unshare_tg [THEN grants_tg] umem_share_tg [THEN grants_tg]
  umem_free_tg [THEN grants_tg] umem_move_tg [THEN grants_tg]

lemma sys_vm_grants:
  "sys_vm_alloc me nb prot k = Some (r, k') \<Longrightarrow> grants_ok k \<longrightarrow> grants_ok k'"
  "sys_vm_protect me base nb prot pid k = Some (r, k') \<Longrightarrow> grants_ok k \<longrightarrow> grants_ok k'"
  "sys_vm_share me base target prot k = Some (r, k') \<Longrightarrow> grants_ok k \<longrightarrow> grants_ok k'"
  "proc_sys_vm_move me base pid k = Some (r, k') \<Longrightarrow> grants_ok k \<longrightarrow> grants_ok k'"
  "cap_map_device me base nb dflags k = Some (r, k') \<Longrightarrow> grants_ok k \<longrightarrow> grants_ok k'"
  by (auto simp: sys_vm_alloc_def sys_vm_protect_def proc_sys_vm_protect_for_def sys_vm_share_def
      proc_sys_vm_move_def cap_map_device_def elim!: bind_SomeE split: if_splits option.splits prod.splits
      dest!: umem_grants channel_scheme_create_core [THEN grants_imp])

lemmas syscall_grants = umem_enum_sharers_core [THEN grants_imp] umem_enum_blocks_core [THEN grants_imp] umem_enum_views_core [THEN grants_imp]
  iommu_enum_maps_core [THEN grants_imp] iommu_revoke_map_core [THEN grants_imp] futex_sys_wake_ok sys_futex_wait_ok
  futex_sys_requeue_core [THEN grants_imp] proc_sys_thread_spawn_core [THEN grants_imp] park_exit_core [THEN grants_imp]
  proc_sys_kill_core [THEN grants_imp] proc_sys_threads_core [THEN grants_imp] proc_sys_thread_destroy_core [THEN grants_imp]
  proc_sys_children_core [THEN grants_imp] sys_debug_write_core [THEN grants_imp] proc_sys_process_exit_core [THEN grants_imp]
  switched_out_core [THEN grants_imp] uthread_park_core [THEN grants_imp] process_create_grants proc_sys_destroy_grants

lemma syscall_entry_grants:
  "syscall_entry nr a0 a1 a2 a3 k = Some (r, k') \<Longrightarrow> grants_ok k \<Longrightarrow> grants_ok k'"
  unfolding syscall_entry_def Let_def proc_sys_create_def arch_uthread_set_bases_def
  by (auto split: if_splits elim!: bind_SomeE returnsE dest!: sys_vm_size_same umem_grants sys_vm_grants syscall_grants)

end
