(* ===== verification/Revocation.thy ===== *)
theory Revocation
  imports Grant_Correct Sample
begin

text \<open>
  What the capability walks compute on a well-formed forest: the liveness walk of a token, the descent to a
  leaf, and revocation, which makes a whole subtree unusable with its first step and removes one grant per
  step until the target itself is gone.
\<close>

section \<open>Ancestors\<close>

definition gpar :: "kernel \<Rightarrow> (u64 \<times> u64) set" where
  "gpar k = {(c, q). \<exists>g. gnt k c = Some g \<and> gr_parent g = Some q}"

definition below :: "kernel \<Rightarrow> u64 \<Rightarrow> u64 set" where
  "below k t = {x. gnt k x \<noteq> None \<and> (x, t) \<in> (gpar k)\<^sup>*}"

definition all_alive :: "kernel \<Rightarrow> u64 \<Rightarrow> bool" where
  "all_alive k gid \<longleftrightarrow> (\<forall>a g. (gid, a) \<in> (gpar k)\<^sup>* \<longrightarrow> gnt k a = Some g \<longrightarrow> \<not> gr_dead g)"

lemma gpar_iff: "gnt k c = Some g \<Longrightarrow> (c, q) \<in> gpar k \<longleftrightarrow> gr_parent g = Some q"
  by (simp add: gpar_def)

lemma gpar_rtrancl_iff:
  assumes "gnt k c = Some g"
  shows "(c, a) \<in> (gpar k)\<^sup>* \<longleftrightarrow> a = c \<or> (\<exists>q. gr_parent g = Some q \<and> (q, a) \<in> (gpar k)\<^sup>*)"
proof
  assume "(c, a) \<in> (gpar k)\<^sup>*"
  then show "a = c \<or> (\<exists>q. gr_parent g = Some q \<and> (q, a) \<in> (gpar k)\<^sup>*)"
    by (cases rule: converse_rtranclE) (auto simp: gpar_iff [OF assms])
qed (auto simp: gpar_iff [OF assms] intro: converse_rtrancl_into_rtrancl)

lemma all_alive_iff:
  assumes "gnt k gid = Some g"
  shows "all_alive k gid \<longleftrightarrow> \<not> gr_dead g \<and> (\<forall>q. gr_parent g = Some q \<longrightarrow> all_alive k q)"
  using assms by (auto simp: all_alive_def gpar_rtrancl_iff [OF assms])

lemma grants_okD:
  assumes "grants_ok k" "gnt k gid = Some g"
  shows "unat (gr_depth g) \<le> KCAP_MAX_DEPTH" "gr_parent g = None \<Longrightarrow> gr_depth g = 0"
    "c \<in> set (gr_children g) \<Longrightarrow> \<exists>cg. gnt k c = Some cg \<and> gr_parent cg = Some gid"
    "gr_parent g = Some pg \<Longrightarrow> \<exists>p. gnt k pg = Some p \<and> gid \<in> set (gr_children p) \<and>
      unat (gr_depth g) = Suc (unat (gr_depth p)) \<and> covers p g"
    "gr_parent g = Some pg \<Longrightarrow> pg < gid"
  using forest_okD [OF assms [unfolded grants_ok_def]] by blast+

lemma live_walk_eq:
  assumes "grants_ok k" "gnt k gid = Some g" "unat (gr_depth g) < n"
  shows "live_walk n k (Some gid) = Some (if all_alive k gid then 0 else SYSERR_DEAD)"
  using assms(2,3)
proof (induction n arbitrary: gid g)
  case (Suc n)
  show ?case
  proof (cases "gr_parent g")
    case None
    then show ?thesis using Suc.prems(1) all_alive_iff [OF Suc.prems(1)] by simp
  next
    case (Some q)
    then obtain p where "gnt k q = Some p" "unat (gr_depth g) = Suc (unat (gr_depth p))"
      using grants_okD(4) [OF assms(1) Suc.prems(1)] by blast
    then show ?thesis using Suc Some all_alive_iff [OF Suc.prems(1)] by simp
  qed
qed simp

lemma live_walk_max:
  assumes "grants_ok k" "gnt k gid = Some g"
  shows "live_walk (KCAP_MAX_DEPTH + 1) k (Some gid) = Some (if all_alive k gid then 0 else SYSERR_DEAD)"
  using live_walk_eq [OF assms] grants_okD(1) [OF assms] by simp

lemma covers_ancestor:
  assumes "grants_ok k" "(gid, a) \<in> (gpar k)\<^sup>*" "gnt k gid = Some g"
  shows "\<exists>h. gnt k a = Some h \<and> covers h g"
  using assms(2)
proof (induction rule: rtrancl_induct)
  case base then show ?case using assms(3) by auto
next
  case (step y z)
  then obtain h where h: "gnt k y = Some h" "covers h g" "gr_parent h = Some z" by (auto simp: gpar_def)
  then show ?case using grants_okD(4) [OF assms(1) h(1,3)] covers_trans by blast
qed

section \<open>Descent and removal\<close>

lemma first_leaf_ok:
  assumes "grants_ok k" "gnt k gid = Some g"
  shows "\<exists>l h. first_leaf k gid = Some l \<and> gnt k l = Some h \<and> gr_children h = [] \<and> (l, gid) \<in> (gpar k)\<^sup>*"
  using assms(2)
proof (induction "KCAP_MAX_DEPTH - unat (gr_depth g)" arbitrary: gid g rule: less_induct)
  case less
  show ?case
  proof (cases "gr_children g")
    case Nil
    then show ?thesis using less.prems by (subst first_leaf.simps) auto
  next
    case (Cons c cs)
    then obtain cg where c: "gnt k c = Some cg" "gr_parent cg = Some gid" using grants_okD(3) [OF assms(1) less.prems] by auto
    have "unat (gr_depth cg) = Suc (unat (gr_depth g))" using grants_okD(4) [OF assms(1) c] less.prems by simp
    then have "KCAP_MAX_DEPTH - unat (gr_depth cg) < KCAP_MAX_DEPTH - unat (gr_depth g)"
      using grants_okD(1) [OF assms(1) c(1)] by simp
    from less.hyps [OF this c(1)] obtain l h where "first_leaf k c = Some l" "gnt k l = Some h" "gr_children h = []" "(l, c) \<in> (gpar k)\<^sup>*"
      by blast
    moreover have "(c, gid) \<in> gpar k" using c by (simp add: gpar_def)
    ultimately show ?thesis using less.prems Cons by (subst first_leaf.simps) (auto intro: rtrancl_into_rtrancl)
  qed
qed

lemma below_finite: "finite (below k t)"
proof -
  have "below k t \<subseteq> fst ` set (om_entries (g_grants k))"
    using om.lookup_None_iff by (auto simp: below_def gnt_def om.lookup_iff image_iff) force
  then show ?thesis using finite_subset by blast
qed

lemma no_child_of_leaf:
  assumes "grants_ok k" "gnt k l = Some h" "gr_children h = []"
  shows "(c, l) \<notin> gpar k"
proof
  assume "(c, l) \<in> gpar k"
  then obtain g where "gnt k c = Some g" "gr_parent g = Some l" by (auto simp: gpar_def)
  from grants_okD(4) [OF assms(1) this] assms(2,3) show False by simp
qed

lemma leaf_alone:
  assumes "grants_ok k" "gnt k l = Some h" "gr_children h = []"
  shows "below k l = {l}"
proof -
  have "x = l" if "(x, l) \<in> (gpar k)\<^sup>*" for x
    using that no_child_of_leaf [OF assms] by (cases rule: rtranclE) auto
  then show ?thesis using assms(2) by (auto simp: below_def)
qed

lemma cut_parent: "map_option gr_parent (cut l G x) = (if x = l then None else map_option gr_parent (G x))"
  by (cases "G x") (auto simp: cut_def)

lemma gpar_alt: "gpar k = {(c, q). map_option gr_parent (gnt k c) = Some (Some q)}"
  by (simp add: gpar_def)

lemma gpar_cut:
  assumes "grants_ok k" "gnt k l = Some h" "gr_children h = []" "gnt k' = cut l (gnt k)" "x \<noteq> l"
  shows "(x, y) \<in> (gpar k')\<^sup>* \<longleftrightarrow> (x, y) \<in> (gpar k)\<^sup>*"
proof -
  have g: "gpar k' = {(c, q) \<in> gpar k. c \<noteq> l}"
    unfolding gpar_alt assms(4) cut_parent by (auto split: if_splits)
  show ?thesis
  proof
    assume "(x, y) \<in> (gpar k')\<^sup>*"
    moreover have "gpar k' \<subseteq> gpar k" unfolding g by auto
    ultimately show "(x, y) \<in> (gpar k)\<^sup>*" using rtrancl_mono [THEN subsetD] by metis
  next
    assume "(x, y) \<in> (gpar k)\<^sup>*"
    then show "(x, y) \<in> (gpar k')\<^sup>*" using assms(5)
    proof (induction rule: converse_rtrancl_induct)
      case (step x z)
      have "z \<noteq> l" using step.hyps(1) no_child_of_leaf [OF assms(1-3), of x] by auto
      then have "(z, y) \<in> (gpar k')\<^sup>*" by (rule step.IH)
      moreover have "(x, z) \<in> gpar k'" unfolding g using step.hyps(1) step.prems by simp
      ultimately show ?case by (rule converse_rtrancl_into_rtrancl [rotated])
    qed simp
  qed
qed

definition erase_children :: "grant \<Rightarrow> grant" where
  "erase_children g = g\<lparr>gr_children := []\<rparr>"

lemma revoke_step_eq:
  assumes ok: "grants_ok k" and t: "gnt k t = Some g"
  shows "\<exists>l k'. l \<in> below k t \<and> revoke_step t k = Some (if below k t = {t} then 0 else SYSERR_AGAIN, k') \<and>
    below k' t = below k t - {l} \<and> (l = t \<longleftrightarrow> below k t = {t}) \<and> grants_ok k' \<and>
    (\<forall>x \<in> below k' t. live_walk (KCAP_MAX_DEPTH + 1) k' (Some x) = Some SYSERR_DEAD) \<and>
    (\<forall>x. x \<notin> below k t \<longrightarrow> map_option erase_children (gnt k' x) = map_option erase_children (gnt k x))"
proof -
  define k1 where "k1 = upd_grant t (\<lambda>g. g\<lparr>gr_dead := True\<rparr>) k"
  have g1: "gnt k1 = (gnt k)(t \<mapsto> g\<lparr>gr_dead := True\<rparr>)" using t by (simp add: k1_def fun_eq_iff)
  have ok1: "grants_ok k1" using forest_ok_mark [OF ok [unfolded grants_ok_def] t] by (simp add: grants_ok_def g1) (simp add: k1_def)
  have par1: "gpar k1 = gpar k" using t by (auto simp: gpar_def g1 split: if_splits)
  have below1: "below k1 x = below k x" for x using t by (auto simp: below_def par1 g1)
  obtain l h where l: "first_leaf k1 t = Some l" "gnt k1 l = Some h" "gr_children h = []" "(l, t) \<in> (gpar k)\<^sup>*"
    using first_leaf_ok [OF ok1, of t] g1 par1 by auto
  obtain k' where k': "grant_delete_leaf l k1 = Some k'" using l(2,3) by (simp add: grant_delete_leaf_def Let_def)
  note c = grant_delete_leaf_cut [OF k']
  have ok': "grants_ok k'" using ok1 k' by (rule grant_delete_leaf_ok)
  have lb: "l \<in> below k t" using l(2,4) t by (auto simp: below_def g1 split: if_splits)
  have reach: "x \<noteq> l \<Longrightarrow> (x, y) \<in> (gpar k')\<^sup>* \<longleftrightarrow> (x, y) \<in> (gpar k)\<^sup>*" for x y
    using gpar_cut [OF ok1 l(2,3)] c par1 by simp
  have ex: "gnt k' x = None \<longleftrightarrow> x = l \<or> gnt k x = None" for x using c t by (simp add: cut_def g1)
  have b': "below k' t = below k t - {l}" using reach ex by (auto simp: below_def)
  have lt: "l = t \<longleftrightarrow> below k t = {t}"
    using leaf_alone [OF ok1, of t h] l lb by (auto simp: below1)
  have dead: "live_walk (KCAP_MAX_DEPTH + 1) k' (Some x) = Some SYSERR_DEAD" if x: "x \<in> below k' t" for x
  proof -
    have xl: "x \<in> below k t" "x \<noteq> l" using x b' by auto
    then have "l \<noteq> t" using lt by blast
    have "(x, t) \<in> (gpar k)\<^sup>*" "gnt k' x \<noteq> None" using xl x by (auto simp: below_def)
    have "\<exists>q. gnt k' t = Some q \<and> gr_dead q" using c \<open>l \<noteq> t\<close> by (simp add: cut_def g1)
    then have "\<not> all_alive k' x" using reach [OF xl(2)] \<open>(x, t) \<in> (gpar k)\<^sup>*\<close> unfolding all_alive_def by blast
    then show ?thesis using live_walk_max [OF ok'] \<open>gnt k' x \<noteq> None\<close> by auto
  qed
  have "map_option erase_children (gnt k' x) = map_option erase_children (gnt k x)" if "x \<notin> below k t" for x
    using that lb t c by (cases "gnt k x") (auto simp: cut_def g1 erase_children_def below_def)
  moreover have "revoke_step t k = Some (if below k t = {t} then 0 else SYSERR_AGAIN, k')"
    using t l(1) k' lt by (simp add: revoke_step_def k1_def [symmetric])
  ultimately show ?thesis using lb b' lt ok' dead by (intro exI [of _ l] exI [of _ k']) simp
qed

text \<open>A client repeats the revoke command for as long as it answers \<^verbatim>\<open>SYSERR_AGAIN\<close>.\<close>

fun revoke_loop :: "nat \<Rightarrow> u64 \<Rightarrow> kernel \<Rightarrow> (u64 \<times> kernel) option" where
  "revoke_loop 0 t k = Some (SYSERR_AGAIN, k)"
| "revoke_loop (Suc n) t k = do {
     (rc, k) \<leftarrow> revoke_step t k;
     if rc = SYSERR_AGAIN then revoke_loop n t k else Some (rc, k)
   }"

lemma below_self: "gnt k t \<noteq> None \<longleftrightarrow> t \<in> below k t"
  by (simp add: below_def)

lemma revoke_loop_ok:
  assumes "grants_ok k" "gnt k t = Some g" "card (below k t) = n"
  shows "\<exists>k'. revoke_loop n t k = Some (0, k') \<and> below k' t = {} \<and> grants_ok k' \<and>
    (\<forall>x. x \<notin> below k t \<longrightarrow> map_option erase_children (gnt k' x) = map_option erase_children (gnt k x))"
  using assms
proof (induction n arbitrary: k g)
  case 0
  then have "below k t = {}" using below_finite by simp
  then show ?case using 0 below_self [of k t] by simp
next
  case (Suc n)
  obtain l k1 where s: "l \<in> below k t" "revoke_step t k = Some (if below k t = {t} then 0 else SYSERR_AGAIN, k1)"
    "below k1 t = below k t - {l}" "l = t \<longleftrightarrow> below k t = {t}" "grants_ok k1"
    "\<forall>x \<in> below k1 t. live_walk (KCAP_MAX_DEPTH + 1) k1 (Some x) = Some SYSERR_DEAD"
    "\<forall>x. x \<notin> below k t \<longrightarrow> map_option erase_children (gnt k1 x) = map_option erase_children (gnt k x)"
    using revoke_step_eq [OF Suc.prems(1,2)] by (elim exE conjE) (rule that)
  show ?case
  proof (cases "below k t = {t}")
    case True
    then have "revoke_loop (Suc n) t k = Some (0, k1)" "below k1 t = {}" using s(2-4) by (simp_all add: SYSERR_AGAIN_def)
    then show ?thesis using s(5,7) by blast
  next
    case False
    have card: "card (below k1 t) = n" using s(1,3) Suc.prems(3) below_finite by simp
    have "t \<in> below k1 t" using s(3,4) False Suc.prems(2) below_self [of k t] by auto
    then obtain g1 where g1: "gnt k1 t = Some g1" using below_self [of k1 t] by auto
    obtain k' where k': "revoke_loop n t k1 = Some (0, k')" "below k' t = {}" "grants_ok k'"
      "\<forall>x. x \<notin> below k1 t \<longrightarrow> map_option erase_children (gnt k' x) = map_option erase_children (gnt k1 x)"
      using Suc.IH [OF s(5) g1 card] by (elim exE conjE) (rule that)
    moreover have "revoke_loop (Suc n) t k = Some (0, k')" using s(2) False k'(1) by simp
    moreover have "map_option erase_children (gnt k' x) = map_option erase_children (gnt k x)" if "x \<notin> below k t" for x
      using that k'(4) s(3,7) by simp
    ultimately show ?thesis by blast
  qed
qed

section \<open>Tokens\<close>

lemma xor_zero_iff: "x XOR y = 0 \<longleftrightarrow> x = (y :: 'a::len word)"
  by (auto simp: bit_eq_iff bit_simps)

lemma fold_or_zero: "fold (\<lambda>i d. d OR (a ! i XOR b ! i)) xs (d :: u8) = 0 \<longleftrightarrow> d = 0 \<and> (\<forall>i \<in> set xs. a ! i = b ! i)"
  by (induction xs arbitrary: d) (auto simp: or_eq_0_iff xor_zero_iff)

lemma constant_equal_nth: "constant_equal a b n \<longleftrightarrow> (\<forall>i < n. a ! i = b ! i)"
  by (auto simp: constant_equal_def fold_or_zero)

lemma constant_equal_take:
  assumes "n \<le> length a" "n \<le> length b"
  shows "constant_equal a b n \<longleftrightarrow> take n a = take n b"
  using assms by (auto simp: constant_equal_nth list_eq_iff_nth_eq)

definition token_wf :: "cap_token \<Rightarrow> bool" where
  "token_wf t \<longleftrightarrow> length (tk_reserved t) = 6 \<and> length (tk_mac t) = 16"

lemma token_bytes_length: "token_wf t \<Longrightarrow> length (token_bytes t) = 32"
  by (simp add: token_wf_def token_bytes_def)

lemma token_of_bytes_token_bytes: "token_wf t \<Longrightarrow> token_of_bytes (token_bytes t) = t"
  by (simp add: token_wf_def token_of_bytes_def token_bytes_def)

lemma token_write_wf: "token_wf (token_write k gid)"
  by (simp add: token_wf_def token_write_def Let_def token_mac_def)

lemma token_resolve_eq:
  assumes "grants_ok k" "token_wf t"
  shows "token_resolve k t need_live ty = Some
    (if tk_version t \<noteq> CAP_TOKEN_VERSION \<or> tk_nres t \<noteq> 0 \<or> (\<exists>b \<in> set (tk_reserved t). b \<noteq> 0) then (SYSERR_INVAL, 0)
     else if tk_mac t \<noteq> token_mac (g_boot_key k) t then (SYSERR_PERM, 0)
     else case gnt k (tk_grant_id t) of None \<Rightarrow> (SYSERR_DEAD, 0)
       | Some g \<Rightarrow> if ty \<noteq> 0 \<and> gr_type g \<noteq> ty then (SYSERR_PERM, 0)
           else (if need_live \<and> \<not> all_alive k (tk_grant_id t) then SYSERR_DEAD else 0, tk_grant_id t))"
proof -
  have "constant_equal (tk_mac t) (token_mac (g_boot_key k) t) 16 \<longleftrightarrow> tk_mac t = token_mac (g_boot_key k) t"
    using assms(2) by (simp add: constant_equal_take token_wf_def token_mac_def)
  moreover have "list_all (\<lambda>b. b = 0) (tk_reserved t) \<longleftrightarrow> \<not> (\<exists>b \<in> set (tk_reserved t). b \<noteq> 0)" by (auto simp: list_all_iff)
  ultimately show ?thesis
    using live_walk_max [OF assms(1)] by (auto simp: token_resolve_def split: option.splits)
qed

lemma token_write_resolves:
  assumes "grants_ok k" "gnt k gid = Some g"
  shows "token_resolve k (token_of_bytes (token_bytes (token_write k gid))) True (gr_type g) =
    Some (if all_alive k gid then 0 else SYSERR_DEAD, gid)"
proof -
  have "tk_mac (token_write k gid) = token_mac (g_boot_key k) (token_write k gid)"
    by (simp add: token_write_def Let_def token_mac_def token_bytes_def)
  moreover have "tk_grant_id (token_write k gid) = gid" "tk_version (token_write k gid) = CAP_TOKEN_VERSION"
    "tk_nres (token_write k gid) = 0" "tk_reserved (token_write k gid) = replicate 6 0"
    by (simp_all add: token_write_def Let_def)
  ultimately show ?thesis
    using token_resolve_eq [OF assms(1) token_write_wf] assms(2) by (simp add: token_of_bytes_token_bytes token_write_wf)
qed

section \<open>A small forest\<close>

text \<open>
  A root for all device memory, a grant of two pages below it and a read-only grant of the second of these
  pages below that.
\<close>

definition forest_kernel :: kernel where
  "forest_kernel = sample_kernel\<lparr>g_next_grant_id := 4, g_grants :=
     om_insert 3 \<lparr>gr_id = 3, gr_type = KCAP_GRANT_DEVMEM, gr_depth = 2, gr_wildcard = False, gr_dead = False,
       gr_body = Devmem 0xC0001000 0x1000 1, gr_parent = Some 2, gr_children = []\<rparr>
    (om_insert 2 \<lparr>gr_id = 2, gr_type = KCAP_GRANT_DEVMEM, gr_depth = 1, gr_wildcard = False, gr_dead = False,
       gr_body = Devmem 0xC0000000 0x2000 3, gr_parent = Some 1, gr_children = [3]\<rparr>
    (om_insert 1 \<lparr>gr_id = 1, gr_type = KCAP_GRANT_DEVMEM, gr_depth = 0, gr_wildcard = True, gr_dead = False,
       gr_body = Devmem 0 0 0, gr_parent = None, gr_children = [2]\<rparr> om_empty))\<rparr>"

lemma forest_gnt: "gnt forest_kernel gid = (if gid = 1 then Some \<lparr>gr_id = 1, gr_type = KCAP_GRANT_DEVMEM, gr_depth = 0,
       gr_wildcard = True, gr_dead = False, gr_body = Devmem 0 0 0, gr_parent = None, gr_children = [2]\<rparr>
     else if gid = 2 then Some \<lparr>gr_id = 2, gr_type = KCAP_GRANT_DEVMEM, gr_depth = 1, gr_wildcard = False, gr_dead = False,
       gr_body = Devmem 0xC0000000 0x2000 3, gr_parent = Some 1, gr_children = [3]\<rparr>
     else if gid = 3 then Some \<lparr>gr_id = 3, gr_type = KCAP_GRANT_DEVMEM, gr_depth = 2, gr_wildcard = False, gr_dead = False,
       gr_body = Devmem 0xC0001000 0x1000 1, gr_parent = Some 2, gr_children = []\<rparr> else None)"
  by (simp add: gnt_def forest_kernel_def)

lemma forest_next: "g_next_grant_id forest_kernel = 4"
  by (simp add: forest_kernel_def)

lemma forest_kernel_ok: "grants_ok forest_kernel"
  unfolding grants_ok_def
  by (rule forest_okI) (auto simp: forest_gnt body_ok_def typed_def covers_def KCAP_MAX_DEPTH_def forest_next split: if_splits)

lemma forest_par: "gpar forest_kernel = {(2, 1), (3, 2)}"
  by (auto simp: gpar_def forest_gnt split: if_splits)

lemma forest_below: "below forest_kernel 2 = {2, 3}"
proof -
  have x3: "x = 3" if "(x, 3) \<in> {(2, 1), (3, 2 :: u64)}\<^sup>*" for x using that by (cases rule: rtranclE) auto
  have "x = 2 \<or> x = 3" if "(x, 2) \<in> {(2, 1), (3, 2 :: u64)}\<^sup>*" for x
    using that by (cases rule: rtranclE) (auto dest: x3)
  moreover have "(3, 2) \<in> {(2, 1), (3, 2 :: u64)}\<^sup>*" by auto
  ultimately show ?thesis unfolding below_def forest_par by (auto simp: forest_gnt)
qed

section \<open>Properties\<close>

text \<open>
  C9: one revoke step.  On a well-formed forest the step always succeeds.  It removes exactly one grant at or
  below the target, answers 0 precisely when the target had nothing below it and was removed itself, and
  otherwise answers \<^verbatim>\<open>SYSERR_AGAIN\<close>.  From then on every token for what remains of the subtree is dead, and
  no grant outside the subtree changes except for a child link to the removed grant.
\<close>

theorem revoke_step_correct:
  assumes "grants_ok k" "gnt k t = Some g"
  shows "\<exists>l k'. l \<in> below k t \<and> revoke_step t k = Some (if below k t = {t} then 0 else SYSERR_AGAIN, k') \<and>
    below k' t = below k t - {l} \<and> (l = t \<longleftrightarrow> below k t = {t}) \<and> grants_ok k' \<and>
    (\<forall>x \<in> below k' t. live_walk (KCAP_MAX_DEPTH + 1) k' (Some x) = Some SYSERR_DEAD) \<and>
    (\<forall>x. x \<notin> below k t \<longrightarrow> map_option erase_children (gnt k' x) = map_option erase_children (gnt k x))"
  by (rule revoke_step_eq [OF assms])

theorem revoke_step_correct_witness:
  "\<exists>l k'. l \<in> {2, 3} \<and> revoke_step 2 forest_kernel = Some (SYSERR_AGAIN, k') \<and> below k' 2 = {2, 3} - {l} \<and>
    live_walk (KCAP_MAX_DEPTH + 1) k' (Some 2) = Some SYSERR_DEAD"
proof -
  have "gnt forest_kernel 2 \<noteq> None" by (simp add: forest_gnt)
  then obtain g where "gnt forest_kernel 2 = Some g" by blast
  from revoke_step_correct [OF forest_kernel_ok this] obtain l k' where
    s: "l \<in> {2, 3}" "revoke_step 2 forest_kernel = Some (SYSERR_AGAIN, k')" "below k' 2 = {2, 3} - {l}" "l \<noteq> 2"
      "\<forall>x \<in> below k' 2. live_walk (KCAP_MAX_DEPTH + 1) k' (Some x) = Some SYSERR_DEAD"
    unfolding forest_below by auto
  then have "2 \<in> below k' 2" by auto
  then show ?thesis using s by blast
qed



text \<open>
  C27: the constant-time comparison of \<^verbatim>\<open>capability.c\<close>, which accumulates the differences of all bytes, decides
  equality of the first n bytes.
\<close>

theorem constant_equal_correct:
  assumes "n \<le> length a" "n \<le> length b"
  shows "constant_equal a b n \<longleftrightarrow> take n a = take n b"
  using assms by (rule constant_equal_take)

theorem constant_equal_correct_witness:
  "constant_equal [1, 2, 3] [1, 2, 4] 2 \<longleftrightarrow> take 2 [1, 2, 3 :: u8] = take 2 [1, 2, 4]"
  by (rule constant_equal_correct) simp_all

text \<open>
  C13: tokens survive the trip through user memory.  The bytes of a token the kernel issued decode to that token,
  and resolving it yields the grant it was issued for: with status 0 when it and all its ancestors are alive,
  and \<^verbatim>\<open>SYSERR_DEAD\<close> otherwise, whatever the liveness of the grant was when the token was written.
\<close>

theorem token_round_trip:
  assumes "grants_ok k" "gnt k gid = Some g"
  shows "token_resolve k (token_of_bytes (token_bytes (token_write k gid))) True (gr_type g) =
    Some (if all_alive k gid then 0 else SYSERR_DEAD, gid)"
  by (rule token_write_resolves [OF assms])

theorem token_round_trip_witness:
  "token_resolve forest_kernel (token_of_bytes (token_bytes (token_write forest_kernel 1))) True KCAP_GRANT_DEVMEM = Some (0, 1)"
proof -
  have a: "all_alive forest_kernel 1" using all_alive_iff [of forest_kernel 1] by (simp add: forest_gnt)
  have "\<exists>g. gnt forest_kernel 1 = Some g \<and> gr_type g = KCAP_GRANT_DEVMEM" by (simp add: forest_gnt)
  then obtain g where "gnt forest_kernel 1 = Some g" "gr_type g = KCAP_GRANT_DEVMEM" by blast
  from token_round_trip [OF forest_kernel_ok this(1)] this(2) a show ?thesis by simp
qed

end
