(* ===== verification/Kernel_Step.thy ===== *)
theory Kernel_Step
  imports Revocation
begin

text \<open>
  The kernel as a transition system.  A step is a system call with any number and arguments, an interrupt,
  an iteration of the scheduler loop, a store by user code, or one of the calls the boot code makes to set up
  the first process.  What every step keeps holds in every state the machine can reach.
\<close>

section \<open>Steps\<close>

text \<open>User code stores through the view loaded on its processor; the page must be a writable user page.\<close>

definition user_writes :: "kernel \<Rightarrow> u64 \<Rightarrow> u64 \<Rightarrow> bool" where
  "user_writes k pid a \<longleftrightarrow> (case proc k pid of None \<Rightarrow> False | Some p \<Rightarrow> (case p_as p of None \<Rightarrow> False
     | Some v \<Rightarrow> page_flags v (unat a div PAGE_SIZE) AND PAGE_U \<noteq> 0 \<and> page_flags v (unat a div PAGE_SIZE) AND PAGE_W \<noteq> 0))"

inductive kstep :: "kernel \<Rightarrow> kernel \<Rightarrow> bool" where
  boot_process: "process_create None k = Some (pid, k') \<Longrightarrow> kstep k k'"
| boot_memory: "umem_alloc pid nb prot k = Some (base, k') \<Longrightarrow> kstep k k'"
| boot_thread: "process_spawn_thread pid entry sp arg fs gs None 0 k = Some (tid, k') \<Longrightarrow> kstep k k'"
| boot_capabilities: "capability_bootstrap k = Some (d, q, m, k') \<Longrightarrow> kstep k k'"
| system_call: "syscall_entry nr a0 a1 a2 a3 k = Some (r, k') \<Longrightarrow> kstep k k'"
| schedule: "scheduler_iterate k = Some k' \<Longrightarrow> kstep k k'"
| timer: "timer_cpu_interrupt k = Some (q, k') \<Longrightarrow> kstep k k'"
| device: "irq_deliver vector k = Some k' \<Longrightarrow> kstep k k'"
| dma_fault: "iommu_report_fault requester iova info k = Some k' \<Longrightarrow> kstep k k'"
| processor: "kstep k (k\<lparr>g_this_cpu := i\<rparr>)"
| clock: "kstep k (k\<lparr>g_clock := t\<rparr>)"
| user_store: "c \<in> set (g_cpus k) \<Longrightarrow> c_current_as c = Some pid \<Longrightarrow> user_writes k pid a \<Longrightarrow> kstep k (k\<lparr>g_mem := (g_mem k)(a := b)\<rparr>)"



text \<open>States reachable while fewer than $2^{64} - 1$ processes have been created since boot.\<close>

inductive reachable :: "kernel \<Rightarrow> kernel \<Rightarrow> bool" for k0 where
  start: "reachable k0 k0"
| step: "reachable k0 k \<Longrightarrow> kstep k k' \<Longrightarrow> g_next_pid k \<noteq> - 1 \<Longrightarrow> reachable k0 k'"

text \<open>Before the first process exists there are no blocks and no grants, and the kernel's view maps nothing for user mode.\<close>

definition boot_state :: "kernel \<Rightarrow> bool" where
  "boot_state k \<longleftrightarrow> om_entries (g_procs k) = [] \<and> om_entries (g_ublocks k) = [] \<and> om_entries (g_grants k) = [] \<and> kernel_private k"

section \<open>Invariance\<close>

lemma vm_hardware [simp]: "vm (k\<lparr>g_this_cpu := i\<rparr>) = vm k" "vm (k\<lparr>g_clock := t\<rparr>) = vm k"
  by (simp_all add: vm_def proc_def block_def)

lemma capability_bootstrap_vm: "capability_bootstrap k = Some (d, q, m, k') \<Longrightarrow> vm k' = vm k"
  by (auto simp: capability_bootstrap_def elim!: bind_SomeE split: prod.splits dest!: grant_new_vm)

lemma grant_new_root_ok:
  assumes "grant_new None ty True k = Some (r, k')" "grants_ok k" "typed ty (zero_body ty)"
  shows "grants_ok k'"
  using grant_new_root [OF assms(1)] assms(2,3) forest_ok_root [of "gnt k" "g_next_grant_id k" "fresh_grant None ty True k"]
  by (auto simp: grants_ok_def fresh_grant_def body_ok_def)

lemma capability_bootstrap_ok:
  assumes "capability_bootstrap k = Some (d, q, m, k')" "grants_ok k"
  shows "grants_ok k'"
proof -
  obtain x k1 y k2 z where "grant_new None KCAP_GRANT_DEVMEM True k = Some (x, k1)"
    "grant_new None KCAP_GRANT_IRQ_ROUTE True k1 = Some (y, k2)" "grant_new None KCAP_GRANT_IOMMU_DEV True k2 = Some (z, k')"
    using assms(1) by (auto simp: capability_bootstrap_def elim!: bind_SomeE split: prod.splits)
  then show ?thesis
    using grant_new_root_ok assms(2) by (simp add: typed_def zero_body_def grant_types)
qed

lemma kstep_ok:
  assumes "kstep k k'" "kernel_ok k" "g_next_pid k \<noteq> - 1"
  shows "kernel_ok k'"
  using assms(1)
proof (cases rule: kstep.cases)
  case (boot_process pid)
  then show ?thesis
    using process_create_vm [of None k pid k' "{}"] process_create_tree [of None k pid k'] assms(2,3)
    by (simp add: kernel_ok_def vm_ok_def)
next
  case (boot_memory pid nb prot base)
  then show ?thesis by (rule umem_ok(1) [OF assms(2)])
next
  case (system_call nr a0 a1 a2 a3 r)
  then show ?thesis by (rule syscall_entry_ok [OF assms(2,3)])
qed (auto intro!: kernel_ok_vm [OF _ assms(2)] dest!: process_spawn_thread_core scheduler_iterate_core timer_cpu_interrupt_core
  irq_deliver_core iommu_report_fault_core capability_bootstrap_vm intro: core_vm)

lemma kstep_grants:
  assumes "kstep k k'" "grants_ok k"
  shows "grants_ok k'"
  using assms
proof (cases rule: kstep.cases)
  case (boot_capabilities d q m)
  then show ?thesis using capability_bootstrap_ok assms(2) by blast
qed (auto dest!: process_create_grants umem_grants syscall_entry_grants process_spawn_thread_core [THEN grants_imp]
    scheduler_iterate_core [THEN grants_imp] timer_cpu_interrupt_core [THEN grants_imp] irq_deliver_core [THEN grants_imp]
    iommu_report_fault_core [THEN grants_imp] simp: grants_ok_def gnt_def [abs_def])

lemma boot_state_ok: "boot_state k \<Longrightarrow> kernel_ok k"
  by (auto simp: boot_state_def kernel_ok_def vm_ok_def vm_inv_def isolated_def maps_page_def blocks_ok_def indexed_def
      family_ok_def proc_def block_def om.lookup_ents)

lemma boot_state_grants: "boot_state k \<Longrightarrow> grants_ok k"
  by (simp add: boot_state_def grants_ok_def forest_ok_def gnt_def om.lookup_ents)

lemma reachable_grants: "reachable k0 k \<Longrightarrow> boot_state k0 \<Longrightarrow> grants_ok k"
  by (induction rule: reachable.induct) (auto simp: boot_state_grants intro: kstep_grants)

lemma reachable_ok: "reachable k0 k \<Longrightarrow> boot_state k0 \<Longrightarrow> kernel_ok k"
  by (induction rule: reachable.induct) (auto simp: boot_state_ok intro: kstep_ok)

section \<open>A machine that boots\<close>

text \<open>Four pages, of which the third is free, and the kernel's identity view over all of memory.\<close>

definition boot_kernel :: kernel where
  "boot_kernel = sample_kernel\<lparr>g_as_kernel := \<lparr>page_flags = \<lambda>_. PAGE_KERNEL_PRISTINE, view_pins = 0\<rparr>,
     g_allocator := sample_buddy\<lparr>heap := [2, 255, 2, 254, 254, 2, 253]\<rparr>\<rparr>"

lemma boot_kernel_state: "boot_state boot_kernel"
  by (simp add: boot_state_def boot_kernel_def sample_kernel_def kernel_private_def PAGE_KERNEL_PRISTINE_def
      PAGE_R_def PAGE_W_def PAGE_X_def PAGE_U_def)

definition created_kernel :: kernel where
  "created_kernel = boot_kernel\<lparr>g_next_pid := 2, g_procs := om_insert 1 (new_process 1 (g_as_kernel boot_kernel) None) om_empty\<rparr>"

lemma boot_create: "process_create None boot_kernel = Some (1, created_kernel)"
  by (simp add: process_create_def umem_process_register_def must_alloc_def slab_alloc_def created_kernel_def
      boot_kernel_def sample_kernel_def proc_def new_process_def)

lemma boot_page: "buddy_page_alloc (g_allocator created_kernel) 1 =
  Some (Inr (2, sample_buddy\<lparr>heap := [255, 255, 255, 254, 254, 254, 253]\<rparr>))"
proof -
  have "g_allocator created_kernel = sample_buddy\<lparr>heap := [2, 255, 2, 254, 254, 2, 253]\<rparr>"
    by (simp add: created_kernel_def boot_kernel_def)
  moreover have "buddy_page_alloc (sample_buddy\<lparr>heap := [2, 255, 2, 254, 254, 2, 253]\<rparr>) 1 =
      Some (Inr (2, sample_buddy\<lparr>heap := [255, 255, 255, 254, 254, 254, 253]\<rparr>))"
    by code_simp
  ultimately show ?thesis by simp
qed

definition booted_kernel :: kernel where
  "booted_kernel = created_kernel\<lparr>g_allocator := sample_buddy\<lparr>heap := [255, 255, 255, 254, 254, 254, 253]\<rparr>,
     g_procs := om_modify 1 (\<lambda>p. p\<lparr>p_blocks := om_insert 8192 () (p_blocks p)\<rparr>)
       (om_modify 1 (\<lambda>p. p\<lparr>p_as := Some \<lparr>page_flags = \<lambda>p. if p = 2 then PAGE_R OR PAGE_W OR PAGE_U else PAGE_KERNEL_PRISTINE, view_pins = 0\<rparr>\<rparr>) (g_procs created_kernel)),
     g_ublocks := om_insert 8192 (new_ublock 8192 0 4096 UBLOCK_RAM 0 PAGE_KERNEL_PRISTINE True 1) om_empty\<rparr>"

lemma boot_view: "view_flag 8192 12288 (PAGE_R OR PAGE_W OR PAGE_U) v =
  Some (v\<lparr>page_flags := \<lambda>p. if p = 2 then PAGE_R OR PAGE_W OR PAGE_U else page_flags v p\<rparr>)"
proof -
  have "leaf_flags_to_pte (PAGE_R OR PAGE_W OR PAGE_U) = Some (PTE_P OR PTE_RW OR PTE_US OR PTE_NX)"
    "pte_to_flags (PTE_P OR PTE_RW OR PTE_US OR PTE_NX) = PAGE_R OR PAGE_W OR PAGE_U" by code_simp+
  then show ?thesis by (auto simp: view_flag_def PAGE_SIZE_def fun_eq_iff intro!: arg_cong [where f = "\<lambda>f. v\<lparr>page_flags := f\<rparr>"])
qed

lemma kmemset_same:
  assumes "kaccess k a n" "g_mem k = (\<lambda>_. c)"
  shows "kmemset a c n k = Some k"
proof -
  have "(\<lambda>x. if unat (x - a) < n then c else g_mem k x) = g_mem k" by (simp add: assms(2) fun_eq_iff)
  then show ?thesis using assms(1) by (simp add: kmemset_def)
qed

lemma boot_memset: "kmemset 8192 0 4096 (created_kernel\<lparr>g_allocator := x\<rparr>) = Some (created_kernel\<lparr>g_allocator := x\<rparr>)"
proof -
  have "kaccess (created_kernel\<lparr>g_allocator := x\<rparr>) 8192 4096"
    by (simp add: kaccess_def cur_view_def view_access_def canonical_def created_kernel_def boot_kernel_def
      sample_kernel_def sample_cpu_def PAGE_SIZE_def PAGE_KERNEL_PRISTINE_def PAGE_R_def PAGE_W_def PAGE_X_def)
  moreover have "g_mem (created_kernel\<lparr>g_allocator := x\<rparr>) = (\<lambda>_. 0)"
    by (simp add: created_kernel_def boot_kernel_def sample_kernel_def)
  ultimately show ?thesis by (rule kmemset_same)
qed

lemma boot_alloc: "umem_alloc 1 4096 (PAGE_R OR PAGE_W) created_kernel = Some (8192, booted_kernel)"
proof -
  have "find_order 0 1 = 0" by (subst find_order.simps) simp
  moreover have "proc created_kernel 1 = Some (new_process 1 (g_as_kernel boot_kernel) None)" "g_oom created_kernel = []"
    "g_ublocks created_kernel = om_empty"
    by (simp_all add: proc_def created_kernel_def boot_kernel_def sample_kernel_def)
  ultimately show ?thesis
    by (simp add: umem_alloc_def boot_page [simplified] Let_def boot_memset boot_view slab_alloc_def must_alloc_def proc_flag_def index_block_def or.assoc
        proc_def upd_proc_def block_def new_process_def new_ublock_def booted_kernel_def boot_kernel_def cong: if_cong)
qed

lemma boot_reaches: "reachable boot_kernel created_kernel" "reachable boot_kernel booted_kernel"
proof -
  have "g_next_pid boot_kernel \<noteq> - 1" "g_next_pid created_kernel \<noteq> - 1"
    by (simp_all add: created_kernel_def boot_kernel_def sample_kernel_def)
  then show "reachable boot_kernel created_kernel" "reachable boot_kernel booted_kernel"
    using reachable.start kstep.boot_process [OF boot_create] kstep.boot_memory [OF boot_alloc] reachable.step by metis+
qed

lemma booted_proc: "\<exists>p v. proc booted_kernel 1 = Some p \<and> p_as p = Some v \<and> p_parent p = None \<and>
    page_flags v = (\<lambda>p. if p = 2 then PAGE_R OR PAGE_W OR PAGE_U else PAGE_KERNEL_PRISTINE)"
  by (simp add: proc_def booted_kernel_def created_kernel_def new_process_def)

lemma booted_maps: "maps_page booted_kernel 1 2" "user_writes booted_kernel 1 8200"
proof -
  have f: "(PAGE_R OR PAGE_W OR PAGE_U) AND PAGE_U \<noteq> 0" "(PAGE_R OR PAGE_W OR PAGE_U) AND PAGE_W \<noteq> 0" by code_simp+
  show "maps_page booted_kernel 1 2" using booted_proc f(1) by (auto simp: maps_page_def)
  show "user_writes booted_kernel 1 8200" using booted_proc f by (auto simp: user_writes_def PAGE_SIZE_def)
qed

text \<open>The same machine with a thread of the first process running.\<close>

definition calling_kernel :: kernel where
  "calling_kernel = created_kernel\<lparr>g_threads := om_insert 1 (sample_thread 1 1) om_empty,
     g_cpus := [sample_cpu\<lparr>c_current_thread := Some 1, c_current_as := Some 1\<rparr>]\<rparr>"

lemma calling_ok: "vm_ok calling_kernel" "family_ok calling_kernel"
proof -
  have "vm calling_kernel = vm created_kernel" by (simp add: calling_kernel_def vm_def proc_def block_def)
  from kernel_ok_vm [OF this reachable_ok [OF boot_reaches(1) boot_kernel_state]]
  show "vm_ok calling_kernel" "family_ok calling_kernel" by (simp_all add: kernel_ok_def)
qed

lemma calling_create: "\<exists>k'. syscall_entry 22 0 0 0 0 calling_kernel = Some (Some 2, k') \<and> proc k' 2 \<noteq> None"
proof -
  have "process_is_dead calling_kernel (Some 1) = Some False"
    by (subst process_is_dead.simps)
      (simp add: proc_def calling_kernel_def created_kernel_def new_process_def)
  then show ?thesis
    by (simp add: syscall_entry_def Let_def returns_def cpu_of_def thr_def calling_kernel_def sample_thread_def sample_cpu_def proc_sys_create_def
        process_create_def umem_process_register_def must_alloc_def slab_alloc_def created_kernel_def
        boot_kernel_def sample_kernel_def proc_def new_process_def upd_proc_def)
qed

section \<open>What every reachable state satisfies\<close>

text \<open>
  C1: memory isolation.  In every state the machine reaches from boot, a page a process can reach in user mode
  lies inside a block that process owns or was made a sharer of.
\<close>

theorem memory_isolation:
  assumes "boot_state k0" "reachable k0 k" "maps_page k pid pg"
  shows "\<exists>base b. block k base = Some b \<and> (ub_owner b = pid \<or> om_lookup (ub_sharers b) pid \<noteq> None) \<and> pg \<in> block_pages b"
  using kernel_okD(1) [OF reachable_ok [OF assms(2,1)]] assms(3)
  by (auto simp: vm_inv_def isolated_def may_access_def holds_def)

theorem memory_isolation_witness:
  "\<exists>base b. block booted_kernel base = Some b \<and> (ub_owner b = 1 \<or> om_lookup (ub_sharers b) 1 \<noteq> None) \<and> 2 \<in> block_pages b"
  by (rule memory_isolation [OF boot_kernel_state boot_reaches(2) booted_maps(1)])

text \<open>
  C11: no system call, whatever its number and arguments, breaks memory isolation or the process tree.
\<close>

theorem system_call_invariant:
  assumes "vm_ok k" "family_ok k" "g_next_pid k \<noteq> - 1" "syscall_entry nr a0 a1 a2 a3 k = Some (r, k')"
  shows "vm_ok k' \<and> family_ok k'"
  using syscall_entry_ok [OF _ assms(3,4)] assms(1,2) by (simp add: kernel_ok_def)

theorem system_call_invariant_witness:
  "\<exists>k'. syscall_entry 22 0 0 0 0 calling_kernel = Some (Some 2, k') \<and> proc k' 2 \<noteq> None \<and> vm_ok k' \<and> family_ok k'"
proof -
  have "g_next_pid calling_kernel \<noteq> - 1" by (simp add: calling_kernel_def created_kernel_def)
  moreover obtain k' where "syscall_entry 22 0 0 0 0 calling_kernel = Some (Some 2, k')" "proc k' 2 \<noteq> None"
    using calling_create by blast
  ultimately show ?thesis using system_call_invariant [OF calling_ok] by blast
qed

text \<open>
  C12: the loops over parent pointers return.  In every reachable state, for every existing process, the
  liveness test, the ancestor test of kill and the reaper test return, and they decide reachability of a dead
  ancestor, of the caller, and a path of dead processes below the caller.
\<close>

theorem tree_walks_return:
  assumes "boot_state k0" "reachable k0 k" "proc k pid = Some p"
  shows "process_is_dead k (Some pid) = Some (eff_dead k pid) \<and>
    ancestor_loop k me (Some pid) = Some ((pid, me) \<in> (par k)\<^sup>*) \<and>
    process_reaper_authorized k me pid = Some (reap_path k me pid)"
  using family_ok_ptree [OF kernel_okD(2) [OF reachable_ok [OF assms(2,1)]]] assms(3)
  by (simp add: is_dead_eq ancestor_loop_eq reaper_authorized_eq)

theorem tree_walks_return_witness:
  "process_is_dead booted_kernel (Some 1) = Some (eff_dead booted_kernel 1) \<and>
   ancestor_loop booted_kernel 7 (Some 1) = Some ((1, 7) \<in> (par booted_kernel)\<^sup>*) \<and>
   process_reaper_authorized booted_kernel 7 1 = Some (reap_path booted_kernel 7 1)"
  using tree_walks_return [OF boot_kernel_state boot_reaches(2)] booted_proc by blast

lemma bootstrap_reaches: "\<exists>k g. reachable boot_kernel k \<and> gnt k 1 = Some g"
proof -
  have "\<exists>d q m k. capability_bootstrap boot_kernel = Some (d, q, m, k) \<and> gnt k 1 \<noteq> None"
    by (simp add: capability_bootstrap_def grant_new_def slab_alloc_def must_alloc_def gnt_def boot_kernel_def sample_kernel_def)
  then obtain d q m k g where k: "capability_bootstrap boot_kernel = Some (d, q, m, k)" "gnt k 1 = Some g" by blast
  have "g_next_pid boot_kernel \<noteq> - 1" by (simp add: boot_kernel_def sample_kernel_def)
  then have "reachable boot_kernel k"
    by (rule reachable.step [OF reachable.start kstep.boot_capabilities [OF k(1)]])
  then show ?thesis using k(2) by blast
qed

text \<open>
  C2: capabilities only ever attenuate.  In every reachable state the grants form a well-formed forest, and a
  grant is covered by each of its ancestors: it has the same type, and below an ancestor that is not a wildcard
  it is not one either, its device range lies inside the ancestor's, its flags are among the ancestor's, and
  its interrupt route or requester is the ancestor's.
\<close>

theorem capability_attenuation:
  assumes "boot_state k0" "reachable k0 k" "gnt k gid = Some g" "(gid, a) \<in> (gpar k)\<^sup>*"
  shows "grants_ok k \<and> (\<exists>h. gnt k a = Some h \<and> gr_type g = gr_type h \<and>
    (gr_wildcard h \<or> \<not> gr_wildcard g \<and> narrower (gr_body g) (gr_body h)))"
proof -
  have ok: "grants_ok k" using assms(2,1) by (rule reachable_grants)
  then show ?thesis using covers_ancestor [OF ok assms(4,3)] by (auto simp: covers_def)
qed

theorem capability_attenuation_witness:
  "\<exists>k g. gnt k 1 = Some g \<and> grants_ok k \<and> (\<exists>h. gnt k 1 = Some h \<and> gr_type g = gr_type h \<and>
    (gr_wildcard h \<or> \<not> gr_wildcard g \<and> narrower (gr_body g) (gr_body h)))"
proof -
  obtain k g where k: "reachable boot_kernel k" "gnt k 1 = Some g" using bootstrap_reaches by blast
  from capability_attenuation [OF boot_kernel_state k, of 1] show ?thesis using k(2) by blast
qed

text \<open>
  C32: the type tag of a grant always says which member of its union is in use: in every reachable state a grant
  is tagged as device memory exactly when it holds a range, as an interrupt route exactly when it holds a route,
  and as a DMA device exactly when it holds a requester.  A range that is not a wildcard is not empty and does not
  wrap around, and no grant lies deeper than the limit.
\<close>

theorem grant_tags_sound:
  assumes "boot_state k0" "reachable k0 k" "gnt k gid = Some g"
  shows "(gr_type g = KCAP_GRANT_DEVMEM \<longleftrightarrow> (\<exists>b n f. gr_body g = Devmem b n f)) \<and>
    (gr_type g = KCAP_GRANT_IRQ_ROUTE \<longleftrightarrow> (\<exists>a b. gr_body g = Irq a b)) \<and>
    (gr_type g = KCAP_GRANT_IOMMU_DEV \<longleftrightarrow> (\<exists>r. gr_body g = Iommu r)) \<and>
    (\<forall>b n f. gr_body g = Devmem b n f \<and> \<not> gr_wildcard g \<longrightarrow> n \<noteq> 0 \<and> unat b + unat n < 2 ^ 64) \<and>
    unat (gr_depth g) \<le> KCAP_MAX_DEPTH"
proof -
  have "grants_ok k" using assms(2,1) by (rule reachable_grants)
  note d = forest_okD(2,3) [OF this [unfolded grants_ok_def] assms(3)]
  show ?thesis using d
    by (cases "gr_body g") (auto simp: body_ok_def typed_def KCAP_GRANT_DEVMEM_def KCAP_GRANT_IRQ_ROUTE_def KCAP_GRANT_IOMMU_DEV_def)
qed

theorem grant_tags_sound_witness:
  "\<exists>k g. gnt k 1 = Some g \<and> unat (gr_depth g) \<le> KCAP_MAX_DEPTH \<and>
    (gr_type g = KCAP_GRANT_DEVMEM \<longleftrightarrow> (\<exists>b n f. gr_body g = Devmem b n f))"
proof -
  obtain k g where k: "reachable boot_kernel k" "gnt k 1 = Some g" using bootstrap_reaches by blast
  show ?thesis using k(2) grant_tags_sound [OF boot_kernel_state k] by blast
qed

section \<open>Device memory\<close>

text \<open>The booted machine with the small forest of grants and a token for its last grant in the page of the process.\<close>

definition device_kernel :: kernel where
  "device_kernel = booted_kernel\<lparr>g_grants := g_grants forest_kernel, g_next_grant_id := 4,
     g_mem := (\<lambda>a. if unat (a - 8192) < 32 then token_bytes (token_write booted_kernel 3) ! unat (a - 8192) else 0)\<rparr>"

lemma device_grants: "gnt device_kernel = gnt forest_kernel" "grants_ok device_kernel"
proof -
  show g: "gnt device_kernel = gnt forest_kernel" by (simp add: gnt_def fun_eq_iff device_kernel_def)
  have "g_next_grant_id device_kernel = 4" by (simp add: device_kernel_def)
  then show "grants_ok device_kernel" using forest_kernel_ok by (simp add: grants_ok_def g forest_next)
qed

lemma device_token: "token_write device_kernel gid = token_write booted_kernel gid"
  by (simp add: token_write_def device_kernel_def)

lemma device_access: "kaccess device_kernel 8192 32"
  by (simp add: kaccess_def cur_view_def view_access_def canonical_def device_kernel_def booted_kernel_def created_kernel_def
      boot_kernel_def sample_kernel_def sample_cpu_def PAGE_SIZE_def PAGE_KERNEL_PRISTINE_def PAGE_R_def PAGE_W_def PAGE_X_def)

lemma device_load: "load_bytes device_kernel 8192 32 = Some (token_bytes (token_write device_kernel 3))"
proof -
  have "map (\<lambda>i. g_mem device_kernel (8192 + of_nat i)) [0 ..< 32] = token_bytes (token_write booted_kernel 3)"
    by (rule nth_equalityI) (simp_all add: token_bytes_length [OF token_write_wf] device_kernel_def unat_of_nat)
  then show ?thesis using device_access by (simp add: load_bytes_def device_token)
qed

lemma device_proc: "proc device_kernel 1 = proc booted_kernel 1"
  by (simp add: proc_def device_kernel_def)

lemma device_range: "user_range_ok device_kernel 1 8192 32 False = Some True"
proof -
  obtain p v where p: "proc device_kernel 1 = Some p" "p_as p = Some v"
    "page_flags v = (\<lambda>p. if p = 2 then PAGE_R OR PAGE_W OR PAGE_U else PAGE_KERNEL_PRISTINE)"
    using booted_proc device_proc by auto
  have "user_range_loop v False 8224 8192 = Some True"
    by (simp add: user_range_loop.simps [of v False 8224 8192] user_range_loop.simps [of v False 8224 12288] view_getinfo_def p(3)
        PAGE_SIZE_def PAGE_R_def PAGE_W_def PAGE_U_def)
  then show ?thesis using p(1,2) by (simp add: user_range_ok_def add_overflow_def)
qed

lemma device_resolve: "token_resolve device_kernel (token_of_bytes (token_bytes (token_write device_kernel 3))) True KCAP_GRANT_DEVMEM = Some (0, 3)"
proof -
  have "all_alive device_kernel 1" using all_alive_iff [of device_kernel 1] by (simp add: device_grants(1) forest_gnt)
  then have "all_alive device_kernel 2" using all_alive_iff [of device_kernel 2] by (simp add: device_grants(1) forest_gnt)
  then have alive: "all_alive device_kernel 3" using all_alive_iff [of device_kernel 3] by (simp add: device_grants(1) forest_gnt)
  have "\<exists>g. gnt device_kernel 3 = Some g \<and> gr_type g = KCAP_GRANT_DEVMEM" by (simp add: device_grants(1) forest_gnt)
  then obtain g where g: "gnt device_kernel 3 = Some g" "gr_type g = KCAP_GRANT_DEVMEM" by blast
  show ?thesis using token_write_resolves [OF device_grants(2) g(1)] g(2) alive by simp
qed

lemma device_flags: "view_flag 0xC0001000 0xC0002000 (PAGE_R OR PAGE_W OR PAGE_X OR PAGE_UC) v \<noteq> None"
  "view_flag 0xC0001000 0xC0002000 ((PAGE_R OR PAGE_UC) OR PAGE_U) v \<noteq> None"
proof -
  have "leaf_flags_to_pte (PAGE_R OR PAGE_W OR PAGE_X OR PAGE_UC) \<noteq> None"
    "leaf_flags_to_pte ((PAGE_R OR PAGE_UC) OR PAGE_U) \<noteq> None" by code_simp+
  then show "view_flag 0xC0001000 0xC0002000 (PAGE_R OR PAGE_W OR PAGE_X OR PAGE_UC) v \<noteq> None"
    "view_flag 0xC0001000 0xC0002000 ((PAGE_R OR PAGE_UC) OR PAGE_U) v \<noteq> None"
    by (auto simp: view_flag_def PAGE_SIZE_def)
qed

lemma device_map: "\<exists>k'. umem_map_device 1 0xC0001000 0x1000 1 device_kernel = Some (0, k')"
proof -
  have v: "platform_mem_validate_device (g_mmap device_kernel) (g_protected device_kernel) (g_ecam device_kernel) 0xC0001000 0x1000 1 =
      Some (PAGE_R OR PAGE_W OR PAGE_X OR PAGE_UC, True)"
    by (simp add: device_kernel_def booted_kernel_def created_kernel_def boot_kernel_def sample_kernel_def platform_mem_validate_device_def
        range_end_def add_overflow_def vm_device_defs overlaps_usable_def contained_def q35_def)
  have c: "\<not> device_conflict device_kernel 0xC0001000 0xC0002000"
    by (simp add: device_conflict_def device_kernel_def booted_kernel_def om.ents_insert new_ublock_def)
  obtain p v0 where p: "om_lookup (g_procs device_kernel) 1 = Some p" "p_as p = Some v0" "p_blocks p = om_insert 8192 () om_empty"
    by (simp add: device_kernel_def booted_kernel_def created_kernel_def new_process_def)
  obtain v1 where v1: "view_flag 0xC0001000 0xC0002000 (PAGE_R OR PAGE_W OR PAGE_X OR PAGE_UC) (g_as_kernel device_kernel) = Some v1"
    using device_flags(1) by blast
  obtain v2 where v2: "view_flag 0xC0001000 0xC0002000 (PAGE_R OR PAGE_W OR PAGE_X OR PAGE_UC) v0 = Some v2"
    using device_flags(1) by blast
  obtain v3 where v3: "view_flag 0xC0001000 0xC0002000 ((PAGE_R OR PAGE_UC) OR PAGE_U) v2 = Some v3"
    using device_flags(2) by blast
  have e: "map fst (om_entries (g_procs device_kernel)) = [1]" "g_oom device_kernel = []" "om_lookup (g_ublocks device_kernel) 0xC0001000 = None"
    by (simp_all add: device_kernel_def booted_kernel_def created_kernel_def boot_kernel_def sample_kernel_def om.ents_insert om.ents_modify)
  show ?thesis
    by (simp add: umem_map_device_def v c vm_device_defs kernel_flag_def must_alloc_def slab_alloc_def e v1 proc_def p v2 v3
        proc_flag_def upd_proc_def index_block_def block_def new_ublock_def)
qed

lemma device_call: "\<exists>k'. cap_map_device 1 8192 32 1 device_kernel = Some (0, k')"
  using device_map
  by (simp add: cap_map_device_def CAP_TOKEN_SIZE_def device_range device_load device_resolve device_grants(1) forest_gnt)



end
