(* ===== verification/Ring_Correct.thy ===== *)
theory Ring_Correct
  imports Vm_Frame Sample
begin

text \<open>
  Correctness of completion queues.  The entries between the user's \<open>cq_head\<close> and the kernel's count are a
  bounded first-in-first-out queue of 32-byte entries in the channel's block; posting appends to it or is
  refused when it is full, and touches nothing outside the slot and the count word.
\<close>

section \<open>What waking keeps\<close>

definition store_part :: "kernel \<Rightarrow> (u64 \<Rightarrow> u8) \<times> (u64, ublock) omap" where
  "store_part k = (g_mem k, g_ublocks k)"

lemma store_part_upd [simp]:
  "store_part (upd_thread t f k) = store_part k" "store_part (upd_cpu i g k) = store_part k"
  "store_part (upd_bucket j h k) = store_part k" "store_part (k\<lparr>g_next_target := x\<rparr>) = store_part k"
  by (simp_all add: store_part_def upd_defs upd_bucket_def)

named_theorems keep_store \<open>operations that keep memory and the blocks\<close>

lemma scheduler_enqueue_store [keep_store]: "scheduler_enqueue t k = Some k' \<Longrightarrow> store_part k' = store_part k"
  by (auto simp: scheduler_enqueue_def scheduler_push_local_def Let_def split: if_splits)

lemma thread_unblock_claimed_store [keep_store]: "thread_unblock_claimed t k = Some k' \<Longrightarrow> store_part k' = store_part k"
  by (auto simp: thread_unblock_claimed_def elim!: bind_SomeE dest!: keep_store)

lemma timer_deadline_cancel_store [keep_store]: "timer_deadline_cancel t k = Some k' \<Longrightarrow> store_part k' = store_part k"
  by (auto simp: timer_deadline_cancel_def Let_def elim!: bind_SomeE split: if_splits)

lemma finish_claimed_store [keep_store]: "finish_claimed t r k = Some k' \<Longrightarrow> store_part k' = store_part k"
  by (auto simp: finish_claimed_def thread_deliver_wait_result_def elim!: bind_SomeE split: if_splits dest!: keep_store)

lemma detach_batch_store [keep_store]: "detach_batch bk a c n s k = Some r \<Longrightarrow> store_part (snd r) = store_part k"
  apply (erule detach_batch.raw_induct [where P = "\<lambda>_ _ _ _ _ k r. store_part (snd r) = store_part k", rotated])
  subgoal premises prems
    using prems(2) by (auto simp: Let_def elim!: bind_SomeE split: if_splits list.splits prod.splits dest!: prems(1))
  done

lemma finish_batch_store [keep_store]: "finish_batch ts r k = Some k' \<Longrightarrow> store_part k' = store_part k"
  by (induction ts arbitrary: k) (auto elim!: bind_SomeE dest!: keep_store)

lemma futex_wake_one_store: "futex_wake_one a k = Some k' \<Longrightarrow> g_mem k' = g_mem k \<and> g_ublocks k' = g_ublocks k"
  by (auto simp: futex_wake_one_def wake_batch_def Let_def store_part_def elim!: bind_SomeE split: prod.splits dest!: keep_store)

section \<open>Memory relative to a block\<close>

lemma unat_diff_offset:
  assumes "y < 2 ^ 64" "off + n \<le> 2 ^ 64"
  shows "unat (base + of_nat y - (base + of_nat off) :: u64) < n \<longleftrightarrow> off \<le> y \<and> y < off + n"
    "off \<le> y \<Longrightarrow> unat (base + of_nat y - (base + of_nat off) :: u64) = y - off"
proof -
  have d: "base + of_nat y - (base + of_nat off) = (of_nat y - of_nat off :: u64)" by simp
  show ge: "unat (base + of_nat y - (base + of_nat off) :: u64) = y - off" if "off \<le> y"
  proof -
    have "of_nat y - of_nat off = (of_nat (y - off) :: u64)" using that by (simp add: of_nat_diff)
    then show ?thesis using assms(1) by (simp add: d unat_of_nat)
  qed
  show "unat (base + of_nat y - (base + of_nat off) :: u64) < n \<longleftrightarrow> off \<le> y \<and> y < off + n"
  proof (cases "off \<le> y")
    case True
    then show ?thesis using ge by auto
  next
    case False
    define m where "m = off - y"
    have m: "0 < m" "m < 2 ^ 64 \<or> n = 0" "m + n \<le> 2 ^ 64" using False assms by (auto simp: m_def)
    have "of_nat y - of_nat off = (- of_nat m :: u64)" using False by (simp add: m_def of_nat_diff)
    moreover have "unat (- of_nat m :: u64) = 2 ^ 64 - m" if "m < 2 ^ 64"
    proof -
      have "of_nat (2 ^ 64 - m) = (- of_nat m :: u64)" using that by (simp add: of_nat_diff)
      then have "unat (- of_nat m :: u64) = unat (of_nat (2 ^ 64 - m) :: u64)" by simp
      also have "\<dots> = 2 ^ 64 - m" using m(1) that by (subst unat_of_nat) simp
      finally show ?thesis .
    qed
    ultimately show ?thesis using m False by (auto simp: d)
  qed
qed

lemma store_at:
  assumes "store_bytes (base + of_nat off) bs k = Some k'" "off + length bs \<le> 2 ^ 64" "y < 2 ^ 64"
  shows "g_mem k' (base + of_nat y) = (if off \<le> y \<and> y < off + length bs then bs ! (y - off) else g_mem k (base + of_nat y))"
  using assms(1) unat_diff_offset [OF assms(3,2), of base] by (auto simp: store_bytes_def)

lemma store_bytes_blocks: "store_bytes a bs k = Some k' \<Longrightarrow> g_ublocks k' = g_ublocks k"
  by (auto simp: store_bytes_def)

section \<open>The layout of a ring\<close>

definition cqe_off :: "u32 \<Rightarrow> u32 \<Rightarrow> nat" where
  "cqe_off n i = 64 + 32 * unat n + 32 * unat (i mod n)"

lemma cq_slot: "cq_of base n + ucast (i mod n) * 32 = base + of_nat (cqe_off n i)"
  by (simp add: cq_of_def KRING_HDR_SIZE_def cqe_off_def mult.commute)

lemma unat_NSLOTS: "order \<le> 26 \<Longrightarrow> unat (KRING_NSLOTS order) = 2 ^ (order + 5)"
proof -
  assume o: "order \<le> 26"
  have "(2 :: nat) ^ (order + 5) < 2 ^ 32" using o by (intro power_strict_increasing) auto
  then have "unat (of_nat (2 ^ (order + 5)) :: u32) = 2 ^ (order + 5)" by (subst unat_of_nat) simp
  then show ?thesis by (simp add: KRING_NSLOTS_def push_bit_eq_mult power_add mult.commute)
qed

lemma slot_less: "order \<le> 26 \<Longrightarrow> unat (i mod KRING_NSLOTS order) < 2 ^ (order + 5)"
  by (simp add: unat_mod unat_NSLOTS)

lemma unat_add_u32: "unat (x + y :: u32) = (unat x + unat y) mod 2 ^ 32"
  by (simp add: unat_word_ariths(1))

lemma slots_differ:
  assumes "order \<le> 26" "i - c < j - c" "j - c < KRING_NSLOTS order"
  shows "unat (i mod KRING_NSLOTS order) \<noteq> unat (j mod KRING_NSLOTS order)"
proof
  let ?N = "2 ^ (order + 5) :: nat" and ?d = "unat (j - i)"
  assume "unat (i mod KRING_NSLOTS order) = unat (j mod KRING_NSLOTS order)"
  then have e: "unat i mod ?N = unat j mod ?N" by (simp add: unat_mod unat_NSLOTS [OF assms(1)])
  have "(2 :: nat) ^ (order + 5) dvd 2 ^ 32" using assms(1) by (intro le_imp_power_dvd) simp
  then have "unat (i + (j - i)) mod ?N = (unat i + ?d) mod ?N" by (simp only: unat_add_u32 mod_mod_cancel)
  then have "(unat i + ?d) mod ?N = unat i mod ?N" using e by simp
  then have "?d mod ?N = 0" using mod_eq_dvd_iff_nat [of "unat i" "unat i + ?d" ?N] by (simp add: dvd_imp_mod_0)
  moreover have "?d = unat (j - c) - unat (i - c)" using assms(2) unat_sub [of "i - c" "j - c"] by simp
  then have "0 < ?d" "?d < ?N" using assms(2,3) unat_NSLOTS [OF assms(1)] by (auto simp: word_less_nat_alt)
  ultimately show False by simp
qed

section \<open>The queue of a ring\<close>

definition cq_head :: "kernel \<Rightarrow> u64 \<Rightarrow> u32" where
  "cq_head k base = le_word (map (\<lambda>j. g_mem k (base + of_nat (4 + j))) [0 ..< 4])"

definition cqe_at :: "kernel \<Rightarrow> u64 \<Rightarrow> u32 \<Rightarrow> u32 \<Rightarrow> u8 list" where
  "cqe_at k base n i = map (\<lambda>j. g_mem k (base + of_nat (cqe_off n i + j))) [0 ..< 32]"

text \<open>The entries the user has not consumed, oldest first.\<close>

definition pending :: "kernel \<Rightarrow> u64 \<Rightarrow> ring \<Rightarrow> u8 list list" where
  "pending k base r = map (\<lambda>d. cqe_at k base (r_nslots r) (cq_head k base + of_nat d)) [0 ..< unat (r_cq_count r - cq_head k base)]"

lemma load_head: "load32 k (base + KRING_CQ_HEAD_OFF) = Some c \<Longrightarrow> c = cq_head k base"
  by (auto simp: load32_def load_bytes_def cq_head_def KRING_CQ_HEAD_OFF_def algebra_simps)

lemma length_kcqe_bytes: "length (kcqe_bytes e) = 32"
  by (simp add: kcqe_bytes_def)

text \<open>A posted entry: memory afterwards, byte by byte.\<close>

lemma ring_post_memory:
  assumes "ring_of k base = Some r" "r_nslots r = KRING_NSLOTS order" "order \<le> 26" "ring_post_locked base e k = Some (True, k')"
  shows "r_cq_count r - cq_head k base < r_nslots r"
    "ring_of k' base = Some (r\<lparr>r_cq_count := r_cq_count r + 1\<rparr>)"
    "y < 2 ^ 64 \<Longrightarrow> g_mem k' (base + of_nat y) =
       (if y < 4 then le_bytes 4 (r_cq_count r + 1) ! y
        else if cqe_off (r_nslots r) (r_cq_count r) \<le> y \<and> y < cqe_off (r_nslots r) (r_cq_count r) + 32
        then kcqe_bytes e ! (y - cqe_off (r_nslots r) (r_cq_count r)) else g_mem k (base + of_nat y))"
proof -
  let ?o = "cqe_off (r_nslots r) (r_cq_count r)"
  obtain c k1 k2 k3 where 1: "load32 k (base + KRING_CQ_HEAD_OFF) = Some c" "\<not> r_cq_count r - c \<ge> r_nslots r"
    "store_bytes (base + of_nat ?o) (kcqe_bytes e) k = Some k1"
    "k2 = upd_ring base (\<lambda>r. r\<lparr>r_cq_count := r_cq_count r + 1\<rparr>) k1"
    "store32 (base + KRING_CQ_COUNT_OFF) (r_cq_count r + 1) k2 = Some k3" "futex_wake_one (base + KRING_CQ_COUNT_OFF) k3 = Some k'"
    using assms(1,4) by (auto simp: ring_post_locked_def cq_slot Let_def elim!: bind_SomeE split: if_splits)
  show "r_cq_count r - cq_head k base < r_nslots r" using 1(2) load_head [OF 1(1)] by simp
  note w = futex_wake_one_store [OF 1(6)]
  have s: "store_bytes (base + of_nat 0) (le_bytes 4 (r_cq_count r + 1)) k2 = Some k3"
    using 1(5) by (simp add: store32_def KRING_CQ_COUNT_OFF_def)
  have b: "g_ublocks k1 = g_ublocks k" "g_ublocks k' = g_ublocks k2" "g_mem k2 = g_mem k1"
    using store_bytes_blocks [OF 1(3)] store_bytes_blocks [OF s] w by (simp_all add: 1(4) upd_defs)
  have "ring_of k' base = ring_of k2 base" "ring_of k1 base = ring_of k base" using b by (simp_all add: ring_of_def block_def)
  then show "ring_of k' base = Some (r\<lparr>r_cq_count := r_cq_count r + 1\<rparr>)"
    using assms(1) by (auto simp: 1(4) ring_of_def upd_ring_def elim!: bind_SomeE)
  have o: "?o + 32 \<le> 2 ^ 64" "4 \<le> ?o"
  proof -
    have "(2 :: nat) ^ (order + 5) \<le> 2 ^ 31" using assms(3) by (intro power_increasing) auto
    then show "?o + 32 \<le> 2 ^ 64" "4 \<le> ?o"
      using slot_less [OF assms(3), of "r_cq_count r"] unat_NSLOTS [OF assms(3)] by (simp_all add: cqe_off_def assms(2))
  qed
  show "g_mem k' (base + of_nat y) =
       (if y < 4 then le_bytes 4 (r_cq_count r + 1) ! y
        else if ?o \<le> y \<and> y < ?o + 32 then kcqe_bytes e ! (y - ?o) else g_mem k (base + of_nat y))" if "y < 2 ^ 64"
    using store_at [OF s _ that] store_at [OF 1(3) _ that] o w b by (simp add: length_kcqe_bytes)
qed

lemma ring_refused:
  assumes "ring_of k base = Some r" "ring_post_locked base e k = Some (False, k')"
  shows "k' = k" "r_nslots r \<le> r_cq_count r - cq_head k base"
  using assms by (auto simp: ring_post_locked_def Let_def elim!: bind_SomeE split: if_splits dest!: load_head)

lemma ring_post_pending:
  assumes "ring_of k base = Some r" "r_nslots r = KRING_NSLOTS order" "order \<le> 26" "ring_post_locked base e k = Some (True, k')"
  shows "pending k' base (r\<lparr>r_cq_count := r_cq_count r + 1\<rparr>) = pending k base r @ [kcqe_bytes e]"
proof -
  let ?n = "r_nslots r" and ?c = "r_cq_count r" and ?h = "cq_head k base"
  note m = ring_post_memory [OF assms]
  define l where "l = unat (?c - ?h)"
  have N: "unat ?n = 2 ^ (order + 5)" by (simp add: assms(2,3) unat_NSLOTS)
  have "(2 :: nat) ^ (order + 5) \<le> 2 ^ 31" using assms(3) by (intro power_increasing) auto
  then have small: "unat ?n \<le> 2 ^ 31" using N by simp
  have off: "64 \<le> cqe_off ?n i" "cqe_off ?n i + 32 < 2 ^ 64" for i
    using slot_less [OF assms(3), of i] N small by (simp_all add: cqe_off_def assms(2))
  have head: "cq_head k' base = ?h"
    using off(1) [of ?c] by (auto simp: cq_head_def m(3) simp del: of_nat_add intro!: arg_cong [where f = le_word])
  have "?c + 1 - ?h = (?c - ?h) + 1" by simp
  moreover have l: "l < unat ?n" using m(1) by (simp add: l_def word_less_nat_alt)
  ultimately have len: "unat (?c + 1 - ?h) = Suc l" using small by (simp only:) (simp add: unat_add_u32 flip: l_def)
  have old: "cqe_at k' base ?n (?h + of_nat d) = cqe_at k base ?n (?h + of_nat d)" if "d < l" for d
  proof -
    have "unat (of_nat d :: u32) = d" using that l small by (simp add: unat_of_nat)
    then have "?h + of_nat d - ?h < ?c - ?h" using that by (simp add: word_less_nat_alt l_def)
    then have "unat ((?h + of_nat d) mod ?n) \<noteq> unat (?c mod ?n)"
      using slots_differ [OF assms(3), of "?h + of_nat d" ?h ?c] m(1) by (simp add: assms(2))
    then have "cqe_off ?n (?h + of_nat d) + 32 \<le> cqe_off ?n ?c \<or> cqe_off ?n ?c + 32 \<le> cqe_off ?n (?h + of_nat d)"
      by (auto simp: cqe_off_def)
    then show ?thesis using off [of "?h + of_nat d"] by (auto simp: cqe_at_def m(3) simp del: of_nat_add)
  qed
  have "?h + of_nat l = ?c" by (simp add: l_def)
  moreover have "cqe_at k' base ?n ?c = kcqe_bytes e"
    using off [of ?c] by (intro nth_equalityI) (auto simp: cqe_at_def m(3) length_kcqe_bytes simp del: of_nat_add)
  ultimately show ?thesis using old by (simp add: pending_def head len flip: l_def)
qed

section \<open>A channel\<close>

text \<open>A channel of one page at address 8192, with every page present.\<close>

definition channel_ring :: ring where
  "channel_ring = \<lparr>r_ops = KSCHEME_TREE, r_nslots = KRING_NSLOTS 0, r_sq_head = 0, r_cq_count = 0, r_irq_claims = [], r_nclaims = 0\<rparr>"

definition channel_kernel :: kernel where
  "channel_kernel = sample_kernel\<lparr>g_as_kernel := sample_view\<lparr>page_flags := \<lambda>_. PAGE_R\<rparr>,
     g_ublocks := om_insert 8192 \<lparr>ub_base = 8192, ub_order = 0, ub_bytes = 4096, ub_backing = UBLOCK_RAM, ub_device_flags = 0,
       ub_kernel_flags = 0, ub_delegatable = False, ub_owner = 1, ub_sharers = om_empty, ub_ring = Some channel_ring,
       ub_dma_maps = None, ub_thread_pins = 0\<rparr> om_empty\<rparr>"

lemma channel_ring_of: "ring_of channel_kernel 8192 = Some channel_ring"
  by (simp add: ring_of_def block_def channel_kernel_def)

lemma channel_slots: "r_nslots channel_ring = KRING_NSLOTS 0"
  by (simp add: channel_ring_def)

lemma channel_access: "canonical (unat a) \<Longrightarrow> canonical (unat a + n - 1) \<Longrightarrow> kaccess channel_kernel a n"
  by (simp add: kaccess_def cur_view_def view_access_def channel_kernel_def sample_kernel_def sample_cpu_def PAGE_R_def list_all_iff)

lemma om_from_empty: "om_from om_empty x = []"
  by (simp add: om.from_ents om.ents_empty)

lemma no_waiters: "g_futex k = (\<lambda>_. om_empty) \<Longrightarrow> futex_wake_one a k = Some k"
  by (simp add: futex_wake_one_def wake_batch_def Let_def detach_batch.simps [of "bucket_of k a"] om_from_empty)

lemma channel_futex: "g_futex channel_kernel = (\<lambda>_. om_empty)"
  by (simp add: channel_kernel_def sample_kernel_def)

lemma channel_futex_upd: "g_futex (upd_ring base f (channel_kernel\<lparr>g_mem := x\<rparr>)\<lparr>g_mem := y\<rparr>) = (\<lambda>_. om_empty)"
  by (simp add: upd_defs channel_futex)

lemma channel_posts: "\<exists>k'. ring_post_locked 8192 e channel_kernel = Some (True, k') \<and> kaccess k' = kaccess channel_kernel"
proof -
  have a: "kaccess channel_kernel 8192 4" "kaccess channel_kernel 8196 4" "kaccess channel_kernel 9280 32"
    by (auto intro!: channel_access simp: canonical_def)
  have "load32 channel_kernel (8192 + KRING_CQ_HEAD_OFF) = Some 0"
    using a(2) by (simp add: load32_def load_bytes_def KRING_CQ_HEAD_OFF_def channel_kernel_def sample_kernel_def le_word_def upt_rec)
  moreover have "cq_of 8192 (KRING_NSLOTS 0) = 9280" by (simp add: cq_of_def KRING_HDR_SIZE_def KRING_NSLOTS_def)
  ultimately show ?thesis using a channel_ring_of
    by (simp add: ring_post_locked_def channel_ring_def KRING_NSLOTS_def Let_def store_bytes_def store32_def
        KRING_CQ_COUNT_OFF_def length_kcqe_bytes no_waiters channel_futex_upd)
qed

section \<open>Properties\<close>

text \<open>
  C33: The completion queue of a channel is a bounded queue.  Posting an entry is refused exactly when as many
  entries as the ring has slots are pending, and then nothing changes; otherwise the entry is appended after
  the pending ones, which all keep their contents, also when the 32-bit indices wrap around.
\<close>

theorem ring_post_correct:
  assumes "ring_of k base = Some r" "r_nslots r = KRING_NSLOTS order" "order \<le> 26"
    "ring_post_locked base e k = Some (posted, k')"
  shows "(posted \<longleftrightarrow> length (pending k base r) < unat (r_nslots r)) \<and> (\<not> posted \<longrightarrow> k' = k) \<and>
    (posted \<longrightarrow> (\<exists>r'. ring_of k' base = Some r' \<and> pending k' base r' = pending k base r @ [kcqe_bytes e]))"
proof (cases posted)
  case True
  then show ?thesis using ring_post_memory(1,2) [OF assms(1-3)] ring_post_pending [OF assms(1-3)] assms(4)
    by (simp add: pending_def word_less_nat_alt)
next
  case False
  then have "ring_post_locked base e k = Some (False, k')" using assms(4) by simp
  then show ?thesis using False ring_refused [OF assms(1)] by (simp add: pending_def word_le_nat_alt leD)
qed

theorem ring_post_correct_witness:
  "\<exists>k' r'. ring_post_locked 8192 \<lparr>cq_type = 1, cq_a = 2, cq_b = 3, cq_status = 0\<rparr> channel_kernel = Some (True, k') \<and>
     ring_of k' 8192 = Some r' \<and>
     pending k' 8192 r' = pending channel_kernel 8192 channel_ring @ [kcqe_bytes \<lparr>cq_type = 1, cq_a = 2, cq_b = 3, cq_status = 0\<rparr>]"
proof -
  obtain k' where k': "ring_post_locked 8192 \<lparr>cq_type = 1, cq_a = 2, cq_b = 3, cq_status = 0\<rparr> channel_kernel = Some (True, k')"
    using channel_posts by blast
  show ?thesis using k' ring_post_correct [OF channel_ring_of channel_slots _ k'] by simp
qed

text \<open>
  C34: Every ring access stays in the channel's block.  A ring of order $n$ lives in a block of $2^n$ pages; each
  submission slot lies after the header and before the completion slots, each completion slot ends before the
  block does, and posting an entry changes no byte beyond the block.
\<close>

theorem ring_access_bounds:
  assumes "ring_of k base = Some r" "r_nslots r = KRING_NSLOTS order" "order \<le> 26"
  shows "(\<exists>s c. sq_of base + ucast (i mod r_nslots r) * 32 = base + of_nat s \<and>
      cq_of base (r_nslots r) + ucast (i mod r_nslots r) * 32 = base + of_nat c \<and>
      unat KRING_HDR_SIZE \<le> s \<and> s + 32 \<le> unat KRING_HDR_SIZE + 32 * unat (r_nslots r) \<and>
      unat KRING_HDR_SIZE + 32 * unat (r_nslots r) \<le> c \<and> c + 32 \<le> PAGE_SIZE * 2 ^ order) \<and>
    (\<forall>e posted k' y. ring_post_locked base e k = Some (posted, k') \<longrightarrow> PAGE_SIZE * 2 ^ order \<le> y \<longrightarrow> y < 2 ^ 64 \<longrightarrow>
      g_mem k' (base + of_nat y) = g_mem k (base + of_nat y))"
proof -
  let ?n = "r_nslots r"
  have N: "unat ?n = 32 * 2 ^ order" by (simp add: assms(2,3) unat_NSLOTS power_add)
  have le: "unat (j mod ?n) < 32 * 2 ^ order" for j using slot_less [OF assms(3), of j] by (simp add: assms(2) power_add)
  have o: "1 \<le> (2 :: nat) ^ order" by simp
  have fin: "cqe_off ?n j + 32 \<le> PAGE_SIZE * 2 ^ order" for j
    using le [of j] o by (simp add: cqe_off_def N PAGE_SIZE_def)
  have sq: "sq_of base + ucast (i mod ?n) * 32 = base + of_nat (64 + 32 * unat (i mod ?n))"
    by (simp add: sq_of_def KRING_HDR_SIZE_def mult.commute)
  have "\<exists>s c. sq_of base + ucast (i mod ?n) * 32 = base + of_nat s \<and> cq_of base ?n + ucast (i mod ?n) * 32 = base + of_nat c \<and>
      unat KRING_HDR_SIZE \<le> s \<and> s + 32 \<le> unat KRING_HDR_SIZE + 32 * unat ?n \<and>
      unat KRING_HDR_SIZE + 32 * unat ?n \<le> c \<and> c + 32 \<le> PAGE_SIZE * 2 ^ order"
    using sq cq_slot [of base ?n i] fin [of i] le [of i]
    by (intro exI [of _ "64 + 32 * unat (i mod ?n)"] exI [of _ "cqe_off ?n i"]) (simp add: KRING_HDR_SIZE_def cqe_off_def N)
  moreover have "g_mem k' (base + of_nat y) = g_mem k (base + of_nat y)"
    if "ring_post_locked base e k = Some (posted, k')" "PAGE_SIZE * 2 ^ order \<le> y" "y < 2 ^ 64" for e posted k' y
  proof (cases posted)
    case True
    have "4096 \<le> PAGE_SIZE * 2 ^ order" using o by (simp add: PAGE_SIZE_def)
    then show ?thesis using ring_post_memory(3) [OF assms, of e k' y] that True fin [of "r_cq_count r"] by simp
  next
    case False
    then have "ring_post_locked base e k = Some (False, k')" using that(1) by simp
    from ring_refused(1) [OF assms(1) this] show ?thesis by simp
  qed
  ultimately show ?thesis by blast
qed

theorem ring_access_bounds_witness:
  "\<exists>k'. ring_post_locked 8192 \<lparr>cq_type = 1, cq_a = 2, cq_b = 3, cq_status = 0\<rparr> channel_kernel = Some (True, k') \<and>
     g_mem k' 12288 = g_mem channel_kernel 12288"
proof -
  obtain k' where k': "ring_post_locked 8192 \<lparr>cq_type = 1, cq_a = 2, cq_b = 3, cq_status = 0\<rparr> channel_kernel = Some (True, k')"
    using channel_posts by blast
  have "g_mem k' (8192 + of_nat 4096) = g_mem channel_kernel (8192 + of_nat 4096)"
    using ring_access_bounds [OF channel_ring_of channel_slots] k' by (force simp: PAGE_SIZE_def)
  then show ?thesis using k' by auto
qed

end
