(* ===== verification/View_Refine.thy ===== *)
theory View_Refine
  imports Address_Space Kernel_State
begin

text \<open>
  The contract of a protection map, a flag word for every address below $2^{48}$ that changes by ranges of
  pages, and its two implementations: the page tables of \<open>Paging\<close> with their pool of frames, and the
  page-to-flags function that the kernel state keeps for an address space.  The second is an abstraction of
  the first, so what the kernel theories prove about views holds of the page tables.
\<close>

section \<open>The contract\<close>

definition page_range_ok :: "nat \<Rightarrow> nat \<Rightarrow> bool" where
  "page_range_ok a b \<longleftrightarrow> a mod PAGE_SIZE = 0 \<and> b mod PAGE_SIZE = 0 \<and> a \<le> b \<and> b \<le> 2 ^ 48"

locale protection_map =
  fixes ok :: "'s \<Rightarrow> bool"
    and room :: "'s \<Rightarrow> nat"
    and info :: "'s \<Rightarrow> nat \<Rightarrow> paging_flags \<times> bool"
    and flag :: "nat \<Rightarrow> nat \<Rightarrow> paging_flags \<Rightarrow> 's \<Rightarrow> 's option"
  assumes flag_total: "ok s \<Longrightarrow> page_range_ok a b \<Longrightarrow> leaf_flags_to_pte fl = Some f \<Longrightarrow>
      3 * ((b - a) div PAGE_SIZE) \<le> room s \<Longrightarrow>
      \<exists>s'. flag a b fl s = Some s' \<and> ok s' \<and> room s \<le> room s' + 3 * ((b - a) div PAGE_SIZE) \<and>
        (\<forall>x < 2 ^ 48. info s' x = (if a \<le> x \<and> x < b then (pte_to_flags f, f \<noteq> 0) else info s x))"
begin

lemma flag_info:
  assumes "ok s" "page_range_ok a b" "leaf_flags_to_pte fl = Some f" "3 * ((b - a) div PAGE_SIZE) \<le> room s"
    "flag a b fl s = Some s'" "x < 2 ^ 48"
  shows "info s' x = (if a \<le> x \<and> x < b then (pte_to_flags f, f \<noteq> 0) else info s x)"
  using flag_total [OF assms(1-4)] assms(5,6) by auto

text \<open>Giving a range other flags and then its old ones back leaves every address as it was.\<close>

lemma flag_restores:
  assumes "ok s" "page_range_ok a b" "leaf_flags_to_pte fl = Some f" "leaf_flags_to_pte old = Some g"
    "6 * ((b - a) div PAGE_SIZE) \<le> room s" "\<And>x. a \<le> x \<Longrightarrow> x < b \<Longrightarrow> info s x = (pte_to_flags g, g \<noteq> 0)"
  shows "\<exists>s1 s2. flag a b fl s = Some s1 \<and> flag a b old s1 = Some s2 \<and> ok s2 \<and> (\<forall>x < 2 ^ 48. info s2 x = info s x)"
proof -
  obtain s1 where 1: "flag a b fl s = Some s1" "ok s1" "room s \<le> room s1 + 3 * ((b - a) div PAGE_SIZE)"
    "\<forall>x < 2 ^ 48. info s1 x = (if a \<le> x \<and> x < b then (pte_to_flags f, f \<noteq> 0) else info s x)"
    using flag_total [OF assms(1-3)] assms(5) by auto
  have "3 * ((b - a) div PAGE_SIZE) \<le> room s1" using 1(3) assms(5) by simp
  from flag_total [OF 1(2) assms(2,4) this] 1(1,4) assms(6) show ?thesis by fastforce
qed

text \<open>Changes to disjoint ranges commute.\<close>

lemma flag_commutes:
  assumes "ok s" "page_range_ok a b" "page_range_ok c d" "leaf_flags_to_pte fl = Some f" "leaf_flags_to_pte fl' = Some g"
    "3 * ((b - a) div PAGE_SIZE) + 3 * ((d - c) div PAGE_SIZE) \<le> room s" "b \<le> c"
  shows "\<exists>s1 s2 t1 t2. flag a b fl s = Some s1 \<and> flag c d fl' s1 = Some s2 \<and> flag c d fl' s = Some t1 \<and> flag a b fl t1 = Some t2
    \<and> (\<forall>x < 2 ^ 48. info s2 x = info t2 x)"
proof -
  obtain s1 where 1: "flag a b fl s = Some s1" "ok s1" "room s \<le> room s1 + 3 * ((b - a) div PAGE_SIZE)"
    "\<forall>x < 2 ^ 48. info s1 x = (if a \<le> x \<and> x < b then (pte_to_flags f, f \<noteq> 0) else info s x)"
    using flag_total [OF assms(1,2,4)] assms(6) by auto
  obtain t1 where 2: "flag c d fl' s = Some t1" "ok t1" "room s \<le> room t1 + 3 * ((d - c) div PAGE_SIZE)"
    "\<forall>x < 2 ^ 48. info t1 x = (if c \<le> x \<and> x < d then (pte_to_flags g, g \<noteq> 0) else info s x)"
    using flag_total [OF assms(1,3,5)] assms(6) by auto
  have "3 * ((d - c) div PAGE_SIZE) \<le> room s1" "3 * ((b - a) div PAGE_SIZE) \<le> room t1" using 1(3) 2(3) assms(6) by simp_all
  then obtain s2 t2 where "flag c d fl' s1 = Some s2" "flag a b fl t1 = Some t2"
    "\<forall>x < 2 ^ 48. info s2 x = (if c \<le> x \<and> x < d then (pte_to_flags g, g \<noteq> 0) else info s1 x)"
    "\<forall>x < 2 ^ 48. info t2 x = (if a \<le> x \<and> x < b then (pte_to_flags f, f \<noteq> 0) else info t1 x)"
    using flag_total [OF 1(2) assms(3,5)] flag_total [OF 2(2) assms(2,4)] by blast
  then show ?thesis using 1(1,4) 2(1,4) assms(7) by fastforce
qed

end

section \<open>Page tables\<close>

text \<open>A tree of page tables has room for as many changes as there are free frames, three per page.\<close>

lemma tables_flag:
  assumes "as_ok (snd env)" "page_range_ok a b" "leaf_flags_to_pte fl = Some f" "3 * ((b - a) div PAGE_SIZE) \<le> fst env"
  shows "\<exists>env'. as_flag a b fl env = Some env' \<and> as_ok (snd env') \<and> fst env \<le> fst env' + 3 * ((b - a) div PAGE_SIZE) \<and>
    as_pins (snd env') = as_pins (snd env) \<and>
    (\<forall>x < 2 ^ 48. as_getinfo (snd env') x = (if a \<le> x \<and> x < b then (pte_to_flags f, f \<noteq> 0) else as_getinfo (snd env) x))"
proof -
  have r: "a mod PAGE_SIZE = 0" "b mod PAGE_SIZE = 0" "a \<le> b" "b \<le> 2 ^ 48" using assms(2) by (auto simp: page_range_ok_def)
  obtain env' where 1: "as_flag a b fl env = Some env'"
    "as_becomes (3 * ((b - a) div PAGE_SIZE)) env env' (flagged (page_bits (snd env)) a b f)"
    using as_flag_ok [OF assms(1) r assms(3,4)] by (elim exE conjE) rule
  then show ?thesis using assms(1)
    by (auto simp: as_becomes_def as_getinfo_eq flagged_def)
qed

interpretation tables: protection_map "\<lambda>env. as_ok (snd env)" fst "\<lambda>env. as_getinfo (snd env)" as_flag
  by unfold_locales (use tables_flag in blast)

section \<open>Views\<close>

lemma pte_flags_present: "leaf_flags_to_pte fl = Some f \<Longrightarrow> pte_to_flags f \<noteq> 0 \<longleftrightarrow> f \<noteq> 0"
proof -
  assume "leaf_flags_to_pte fl = Some f"
  then have "f = 0 \<or> bit f 0"
    by (auto simp: leaf_flags_to_pte_def Let_def asserts_def PTE_P_def PTE_RW_def PTE_US_def PTE_NX_def PTE_PCD_def PTE_PWT_def
        bit_simps split: if_splits)
  moreover have "bit f 0 \<Longrightarrow> bit (pte_to_flags f) 0"
    by (auto simp: pte_to_flags_def Let_def PTE_P_def and_one_eq odd_iff_mod_2_eq_one bit_0 PAGE_R_def PAGE_W_def PAGE_X_def
        PAGE_U_def PAGE_UC_def PAGE_WT_def PAGE_WB_def)
  ultimately show ?thesis by (auto simp: pte_to_flags_def)
qed

definition view_info :: "view \<Rightarrow> nat \<Rightarrow> paging_flags \<times> bool" where
  "view_info v x = view_getinfo v (of_nat x)"

definition view_flag_range :: "nat \<Rightarrow> nat \<Rightarrow> paging_flags \<Rightarrow> view \<Rightarrow> view option" where
  "view_flag_range a b = view_flag (of_nat a) (of_nat b)"

lemma unat_48: "x \<le> 2 ^ 48 \<Longrightarrow> unat (of_nat x :: u64) = x"
  by (simp add: unat_of_nat)

lemma page_le_iff: "PAGE_SIZE dvd a \<Longrightarrow> a div PAGE_SIZE \<le> x div PAGE_SIZE \<longleftrightarrow> a \<le> x"
  by (auto simp: PAGE_SIZE_def)

lemma view_flag_total:
  assumes "page_range_ok a b" "leaf_flags_to_pte fl = Some f"
  shows "\<exists>v'. view_flag_range a b fl v = Some v' \<and> view_pins v' = view_pins v \<and>
    (\<forall>x < 2 ^ 48. view_info v' x = (if a \<le> x \<and> x < b then (pte_to_flags f, f \<noteq> 0) else view_info v x))"
proof -
  have r: "PAGE_SIZE dvd a" "PAGE_SIZE dvd b" "a \<le> b" "b \<le> 2 ^ 48" using assms(1) by (auto simp: page_range_ok_def)
  have u: "unat (of_nat a :: u64) = a" "unat (of_nat b :: u64) = b" using r(3,4) by (auto intro: unat_48)
  have w: "(of_nat a :: u64) \<le> of_nat b" "(of_nat a :: u64) = of_nat b \<longleftrightarrow> a = b"
    using r(3) u by (simp_all add: word_le_nat_alt word_unat_eq_iff)
  show ?thesis
  proof (cases "a = b")
    case True
    then show ?thesis using r by (auto simp: view_flag_range_def view_flag_def u asserts_def)
  next
    case False
    have "x < b \<longleftrightarrow> x div PAGE_SIZE < b div PAGE_SIZE" for x using page_le_iff [OF r(2), of x] by linarith
    then show ?thesis using False r w assms(2) page_le_iff [OF r(1)] pte_flags_present [OF assms(2)]
      by (simp add: view_flag_range_def view_flag_def u asserts_def view_info_def view_getinfo_def Let_def unat_48 less_imp_le)
  qed
qed

interpretation views: protection_map "\<lambda>_. True" "\<lambda>_. 2 ^ 40" view_info view_flag_range
  by unfold_locales (use view_flag_total in fastforce)

section \<open>Refinement\<close>

text \<open>A view stands for a tree of page tables when both report the same flags at every address.\<close>

definition refines :: "address_space \<Rightarrow> view \<Rightarrow> bool" where
  "refines as v \<longleftrightarrow> as_ok as \<and> as_pins as = view_pins v \<and> (\<forall>x < 2 ^ 48. as_getinfo as x = view_info v x)"

lemma level_idx_mod: "1 \<le> l \<Longrightarrow> l \<le> 4 \<Longrightarrow> level_idx (x mod 2 ^ 48) l = level_idx x l"
proof -
  assume l: "1 \<le> l" "l \<le> 4"
  have "s + 9 \<le> 48 \<Longrightarrow> take_bit 9 (drop_bit s (take_bit 48 x)) = take_bit 9 (drop_bit s x)" for s
    by (rule bit_eqI) (auto simp: bit_simps)
  moreover have "y AND 0x1ff = take_bit 9 y" for y :: nat by (simp add: take_bit_eq_mask mask_numeral)
  moreover have "LEVEL_SHIFT l + 9 \<le> 48" using level_cases [OF l] by (auto simp: LEVEL_SHIFT_def)
  ultimately show ?thesis by (simp add: level_idx_def take_bit_eq_mod)
qed

lemma walk_mod: "1 \<le> l \<Longrightarrow> l \<le> 4 \<Longrightarrow> walk l ts (x mod 2 ^ 48) = walk l ts x"
proof (induction l arbitrary: ts)
  case 0
  then show ?case by simp
next
  case (Suc l)
  then show ?case using level_idx_mod [OF Suc.prems, of x]
    by (auto simp: walk.simps [of "Suc l"] split: entry.splits)
qed

lemma as_getinfo_mod: "as_getinfo as (x mod 2 ^ 48) = as_getinfo as x"
  using walk_mod [of 4 "as_root as" x] by (simp add: as_getinfo_def)

lemma view_info_mod: "view_info v (unat a mod 2 ^ 48) = view_getinfo v a"
  by (simp add: view_info_def view_getinfo_def unat_of_nat Let_def)

lemma refines_getinfo: "refines as v \<Longrightarrow> as_getinfo as (unat addr) = view_getinfo v addr"
  using as_getinfo_mod [of as "unat addr"] view_info_mod [of v addr] by (simp add: refines_def)

lemma refines_clone:
  assumes "refines src v" "as_clone src frames = Some (as, frames')"
  shows "refines as (v\<lparr>view_pins := 0\<rparr>)"
  using assms clone_ok [of 4 0 "as_root src" "frames - 1"]
  by (auto simp: refines_def as_ok_def as_clone_def as_getinfo_def view_info_def view_getinfo_def split: if_splits)

lemma refines_flag:
  assumes "refines as v" "page_range_ok (unat s) (unat e)" "leaf_flags_to_pte fl = Some f"
    "3 * ((unat e - unat s) div PAGE_SIZE) \<le> frames"
  shows "\<exists>frames' as' v'. as_flag (unat s) (unat e) fl (frames, as) = Some (frames', as') \<and> view_flag s e fl v = Some v' \<and> refines as' v'"
proof -
  obtain frames' as' where 1: "as_flag (unat s) (unat e) fl (frames, as) = Some (frames', as')" "as_ok as'"
    "as_pins as' = as_pins as"
    "\<forall>x < 2 ^ 48. as_getinfo as' x = (if unat s \<le> x \<and> x < unat e then (pte_to_flags f, f \<noteq> 0) else as_getinfo as x)"
    using tables_flag [of "(frames, as)" "unat s" "unat e" fl f] assms by (auto simp: refines_def)
  obtain v' where 2: "view_flag s e fl v = Some v'" "view_pins v' = view_pins v"
    "\<forall>x < 2 ^ 48. view_info v' x = (if unat s \<le> x \<and> x < unat e then (pte_to_flags f, f \<noteq> 0) else view_info v x)"
    using view_flag_total [OF assms(2,3), of v] by (auto simp: view_flag_range_def)
  have "refines as' v'" using 1 2 assms(1) by (simp add: refines_def)
  then show ?thesis using 1(1) 2(1) by blast
qed

lemma refines_identity:
  assumes "as_identity_mapping frames = Some (as, frames')"
  shows "refines as \<lparr>page_flags = \<lambda>p. if p < 2 ^ 27 then PAGE_R OR PAGE_W OR PAGE_X else 0, view_pins = 0\<rparr>"
proof -
  have f: "pte_to_flags (PTE_P OR PTE_RW) = PAGE_R OR PAGE_W OR PAGE_X" "PTE_P OR PTE_RW \<noteq> 0" "pte_to_flags 0 = 0"
    "PAGE_R OR PAGE_W OR PAGE_X \<noteq> 0" by code_simp+
  have "x div PAGE_SIZE < 2 ^ 27 \<longleftrightarrow> x < 2 ^ 39" for x by (simp add: PAGE_SIZE_def div_less_iff_less_mult)
  moreover have "as_pins as = 0" using assms by (auto simp: as_identity_mapping_def pristine_bits)
  ultimately show ?thesis using identity_ok [OF assms] f
    by (simp add: refines_def as_getinfo_eq view_info_def view_getinfo_def unat_48 less_imp_le Let_def)
qed

section \<open>Properties\<close>

text \<open>
  C30: The address spaces of the kernel state refine the page tables.  When a view stands for a tree of page
  tables, every query answers the same at every 64-bit address, canonical or not; a change of flags on a
  range of pages succeeds on both and the results stand for each other again, given three free frames per
  page; and so do a clone of the tables and the view a new process starts with.
\<close>

theorem view_refinement:
  assumes "refines as v" "page_range_ok (unat s) (unat e)" "leaf_flags_to_pte fl = Some f"
    "3 * ((unat e - unat s) div PAGE_SIZE) \<le> frames"
  shows "(\<forall>addr. as_getinfo as (unat addr) = view_getinfo v addr) \<and>
    (\<exists>frames' as' v'. as_flag (unat s) (unat e) fl (frames, as) = Some (frames', as') \<and>
       view_flag s e fl v = Some v' \<and> refines as' v') \<and>
    (\<forall>as' frames'. as_clone as frames = Some (as', frames') \<longrightarrow> refines as' (v\<lparr>view_pins := 0\<rparr>))"
  using refines_getinfo [OF assms(1)] refines_flag [OF assms] refines_clone [OF assms(1)] by blast

theorem view_refinement_witness:
  "\<exists>as v. as_identity_mapping 10 = Some (as, 7) \<and> refines as v \<and>
     (\<exists>frames' as' v'. as_flag (unat (4096 :: u64)) (unat (8192 :: u64)) (PAGE_R OR PAGE_U) (7, as) = Some (frames', as') \<and>
       view_flag 4096 8192 (PAGE_R OR PAGE_U) v = Some v' \<and> refines as' v')"
proof -
  obtain as where i: "as_identity_mapping 10 = Some (as, 7)"
    by (simp add: as_identity_mapping_def pristine_bits)
  note r = refines_identity [OF i]
  have p: "page_range_ok (unat (4096 :: u64)) (unat (8192 :: u64))"
    "3 * ((unat (8192 :: u64) - unat (4096 :: u64)) div PAGE_SIZE) \<le> 7" by (simp_all add: page_range_ok_def PAGE_SIZE_def)
  have f: "leaf_flags_to_pte (PAGE_R OR PAGE_U) = Some (PTE_P OR PTE_US OR PTE_NX)" by code_simp
  show ?thesis using i r view_refinement [OF r p(1) f p(2)] by blast
qed

text \<open>
  C31: Taking a right away and giving it back is the identity: when a range of pages has uniform flags, setting
  other flags and then the old ones leaves what the page tables report at every address as it was.
\<close>

theorem protection_restored:
  assumes "as_ok (snd env)" "page_range_ok a b" "leaf_flags_to_pte fl = Some f" "leaf_flags_to_pte old = Some g"
    "6 * ((b - a) div PAGE_SIZE) \<le> fst env"
    "\<And>x. a \<le> x \<Longrightarrow> x < b \<Longrightarrow> as_getinfo (snd env) x = (pte_to_flags g, g \<noteq> 0)"
  shows "\<exists>env1 env2. as_flag a b fl env = Some env1 \<and> as_flag a b old env1 = Some env2 \<and> as_ok (snd env2) \<and>
    (\<forall>x < 2 ^ 48. as_getinfo (snd env2) x = as_getinfo (snd env) x)"
  using tables.flag_restores [OF assms] by blast

theorem protection_restored_witness:
  "\<exists>as env1 env2. as_identity_mapping 10 = Some (as, 7) \<and> as_flag 4096 8192 0 (7, as) = Some env1 \<and>
     as_flag 4096 8192 (PAGE_R OR PAGE_W OR PAGE_X) env1 = Some env2 \<and>
     as_getinfo (snd env2) 4096 = as_getinfo as 4096"
proof -
  obtain as where i: "as_identity_mapping 10 = Some (as, 7)"
    by (simp add: as_identity_mapping_def pristine_bits)
  have f: "leaf_flags_to_pte 0 = Some 0" by code_simp
  have "as_getinfo as x = (pte_to_flags (PTE_P OR PTE_RW), PTE_P OR PTE_RW \<noteq> 0)" if "4096 \<le> x" "x < 8192" for x
    using that identity_ok(1,2) [OF i] by (simp add: as_getinfo_eq)
  moreover have "page_range_ok 4096 8192" "6 * ((8192 - 4096) div PAGE_SIZE) \<le> fst (7 :: nat, as)"
    by (simp_all add: page_range_ok_def PAGE_SIZE_def)
  ultimately have "\<exists>env1 env2. as_flag 4096 8192 0 (7, as) = Some env1 \<and>
      as_flag 4096 8192 (PAGE_R OR PAGE_W OR PAGE_X) env1 = Some env2 \<and> as_ok (snd env2) \<and>
      (\<forall>x < 2 ^ 48. as_getinfo (snd env2) x = as_getinfo (snd (7 :: nat, as)) x)"
    using identity_ok(1) [OF i] f pristine_bits
    by (intro protection_restored [where g = "PTE_P OR PTE_RW"]) simp_all
  then show ?thesis using i by fastforce
qed

end
