(* ===== verification/Errno.thy ===== *)
theory Errno
  imports Prelude
begin

text \<open>
  The error numbers of the C library, \<^verbatim>\<open>packages/gdos-libc-dev/source/errno.h\<close>, that its modelled functions return
  or store.
\<close>

definition EPERM :: int where "EPERM = 1"
definition EAGAIN :: int where "EAGAIN = 11"
definition EBUSY :: int where "EBUSY = 16"
definition EINVAL :: int where "EINVAL = 22"
definition ERANGE :: int where "ERANGE = 34"
definition EDEADLK :: int where "EDEADLK = 35"
definition ENOTSUP :: int where "ENOTSUP = 95"
definition ETIMEDOUT :: int where "ETIMEDOUT = 110"

lemmas errno_defs = EPERM_def EAGAIN_def EBUSY_def EINVAL_def ERANGE_def EDEADLK_def ENOTSUP_def ETIMEDOUT_def

end
