(* ===== verification/Pthread_Mutex.thy ===== *)
theory Pthread_Mutex
  imports Errno
begin

text \<open>
  The mutex of \<^verbatim>\<open>packages/gdos-libc-dev/source/pthread.c\<close>: a futex word with the states free, locked and
  locked with waiters, an owner for the recursive and error-checking kinds, and a recursion count.  Threads
  interleave at every access to the mutex; each program point below is one load, store, exchange or system
  call of the source, executed in one step (accesses are taken to be sequentially consistent).  The waiters
  are the kernel's queue of the word: waiting compares the word and appends the thread in one step, and a wake
  takes the first waiter, which is what the futex theories show of the kernel.
\<close>

section \<open>The mutex object\<close>

definition PTHREAD_MUTEX_NORMAL :: u32 where "PTHREAD_MUTEX_NORMAL = 0"
definition PTHREAD_MUTEX_RECURSIVE :: u32 where "PTHREAD_MUTEX_RECURSIVE = 1"
definition PTHREAD_MUTEX_ERRORCHECK :: u32 where "PTHREAD_MUTEX_ERRORCHECK = 2"

record pthread_mutex =
  mx_locked :: u32
  mx_owner :: u64
  mx_recursion :: u32
  mx_type :: u32

record pthread_mutexattr =
  ma_type :: u32
  ma_pshared :: u32

definition PTHREAD_PROCESS_PRIVATE :: u32 where "PTHREAD_PROCESS_PRIVATE = 0"

text \<open>The operations on a mutex object; a null mutex is refused with \<open>EINVAL\<close> by each and is left out below.\<close>

definition pthread_mutex_init :: "pthread_mutexattr option \<Rightarrow> int + pthread_mutex" where
  "pthread_mutex_init attr = (case attr of
     Some a \<Rightarrow> if ma_pshared a \<noteq> PTHREAD_PROCESS_PRIVATE then Inl ENOTSUP
       else Inr \<lparr>mx_locked = 0, mx_owner = 0, mx_recursion = 0, mx_type = ma_type a\<rparr>
   | None \<Rightarrow> Inr \<lparr>mx_locked = 0, mx_owner = 0, mx_recursion = 0, mx_type = PTHREAD_MUTEX_NORMAL\<rparr>)"

definition pthread_mutex_destroy :: "pthread_mutex \<Rightarrow> int" where
  "pthread_mutex_destroy m = (if mx_locked m \<noteq> 0 then EBUSY else 0)"

text \<open>
  An absolute time as a deadline of the kernel's clock; the seconds are a signed 64-bit number, the
  nanoseconds a \<open>long\<close>, 32 bits wide on this target, and the sum is computed modulo $2^{64}$.
\<close>

definition abstime_to_deadline :: "u64 \<Rightarrow> u32 \<Rightarrow> int + u64" where
  "abstime_to_deadline tv_sec tv_nsec =
     (if sint tv_sec < 0 \<or> sint tv_nsec < 0 \<or> sint tv_nsec \<ge> 1000000000 then Inl EINVAL
      else let ns = tv_sec * 1000000000 + ucast tv_nsec in Inr (if ns = 0 then 1 else ns))"

section \<open>Threads\<close>

text \<open>Program points; the names say which access comes next.\<close>

datatype pc = Idle
  | TryLoad | TryOwner | TryCount | TryCas | TryStore | TryEnter
  | LockLoad | LockCas0 | LockStore | LockEnter | LockCas1 | LockWait | Parked
  | UnlockLoad | UnlockOwner | UnlockCount | UnlockStore | UnlockExchange | UnlockWake

datatype mutex_call = Call_Trylock | Call_Lock u64 | Call_Unlock

text \<open>
  A thread's call in progress or last call, and the result of the last completed one.  \<open>holder\<close> is a ghost:
  the thread that moved the word away from 0 and has not put 0 back.
\<close>

record mthread =
  th_pc :: pc
  th_call :: mutex_call
  th_ret :: int

record mstate =
  mx :: pthread_mutex
  queue :: "u64 list"
  holder :: "u64 option"
  th :: "u64 \<Rightarrow> mthread"

definition goto :: "pc \<Rightarrow> u64 \<Rightarrow> mstate \<Rightarrow> mstate" where
  "goto l t s = s\<lparr>th := (th s)(t := (th s t)\<lparr>th_pc := l\<rparr>)\<rparr>"

definition ret :: "int \<Rightarrow> u64 \<Rightarrow> mstate \<Rightarrow> mstate" where
  "ret r t s = s\<lparr>th := (th s)(t := (th s t)\<lparr>th_pc := Idle, th_ret := r\<rparr>)\<rparr>"

definition set_mx :: "(pthread_mutex \<Rightarrow> pthread_mutex) \<Rightarrow> mstate \<Rightarrow> mstate" where
  "set_mx f s = s\<lparr>mx := f (mx s)\<rparr>"

text \<open>A result of \<open>pthread_mutex_trylock\<close>: \<open>mutex_lock_deadline\<close> goes on when it is \<open>EBUSY\<close>.\<close>

definition try_result :: "int \<Rightarrow> u64 \<Rightarrow> mstate \<Rightarrow> mstate" where
  "try_result r t s = (case th_call (th s t) of
     Call_Lock _ \<Rightarrow> if r = EBUSY then goto LockLoad t s else ret r t s
   | _ \<Rightarrow> ret r t s)"

definition trylock_step :: "u64 \<Rightarrow> mstate \<Rightarrow> mstate" where
  "trylock_step t s = (case th_pc (th s t) of
     TryLoad \<Rightarrow> goto (if mx_locked (mx s) \<noteq> 0 then TryOwner else TryCas) t s
   | TryOwner \<Rightarrow>
       if mx_owner (mx s) = t then
         (if mx_type (mx s) = PTHREAD_MUTEX_RECURSIVE then goto TryCount t s
          else try_result (if mx_type (mx s) = PTHREAD_MUTEX_ERRORCHECK then EDEADLK else EBUSY) t s)
       else goto TryCas t s
   | TryCount \<Rightarrow>
       if mx_recursion (mx s) = - 1 then try_result EAGAIN t s
       else try_result 0 t (set_mx (\<lambda>m. m\<lparr>mx_recursion := mx_recursion m + 1\<rparr>) s)
   | TryCas \<Rightarrow>
       if mx_locked (mx s) = 0 then goto TryStore t (set_mx (\<lambda>m. m\<lparr>mx_locked := 1\<rparr>) (s\<lparr>holder := Some t\<rparr>))
       else try_result EBUSY t s
   | TryStore \<Rightarrow> goto TryEnter t (set_mx (\<lambda>m. m\<lparr>mx_owner := t\<rparr>) s)
   | TryEnter \<Rightarrow> try_result 0 t (set_mx (\<lambda>m. m\<lparr>mx_recursion := 1\<rparr>) s)
   | _ \<Rightarrow> s)"

definition lock_step :: "u64 \<Rightarrow> mstate \<Rightarrow> mstate" where
  "lock_step t s = (case th_pc (th s t) of
     LockLoad \<Rightarrow> goto (if mx_locked (mx s) = 0 then LockCas0 else if mx_locked (mx s) = 1 then LockCas1 else LockWait) t s
   | LockCas0 \<Rightarrow>
       if mx_locked (mx s) = 0 then goto LockStore t (set_mx (\<lambda>m. m\<lparr>mx_locked := 2\<rparr>) (s\<lparr>holder := Some t\<rparr>))
       else goto LockLoad t s
   | LockStore \<Rightarrow> goto LockEnter t (set_mx (\<lambda>m. m\<lparr>mx_owner := t\<rparr>) s)
   | LockEnter \<Rightarrow> ret 0 t (set_mx (\<lambda>m. m\<lparr>mx_recursion := 1\<rparr>) s)
   | LockCas1 \<Rightarrow>
       if mx_locked (mx s) = 1 then goto LockWait t (set_mx (\<lambda>m. m\<lparr>mx_locked := 2\<rparr>) s)
       else goto LockLoad t s
   | LockWait \<Rightarrow>
       if mx_locked (mx s) = 2 then goto Parked t (s\<lparr>queue := queue s @ [t]\<rparr>) else goto LockLoad t s
   | _ \<Rightarrow> s)"

definition unlock_step :: "u64 \<Rightarrow> mstate \<Rightarrow> mstate" where
  "unlock_step t s = (case th_pc (th s t) of
     UnlockLoad \<Rightarrow> if mx_locked (mx s) = 0 then ret EPERM t s else goto UnlockOwner t s
   | UnlockOwner \<Rightarrow> if mx_owner (mx s) \<noteq> t then ret EPERM t s else goto UnlockCount t s
   | UnlockCount \<Rightarrow>
       if mx_type (mx s) = PTHREAD_MUTEX_RECURSIVE \<and> mx_recursion (mx s) > 1
       then ret 0 t (set_mx (\<lambda>m. m\<lparr>mx_recursion := mx_recursion m - 1\<rparr>) s)
       else goto UnlockStore t (set_mx (\<lambda>m. m\<lparr>mx_recursion := 0\<rparr>) s)
   | UnlockStore \<Rightarrow> goto UnlockExchange t (set_mx (\<lambda>m. m\<lparr>mx_owner := 0\<rparr>) s)
   | UnlockExchange \<Rightarrow>
       let s' = set_mx (\<lambda>m. m\<lparr>mx_locked := 0\<rparr>) (s\<lparr>holder := None\<rparr>)
       in if mx_locked (mx s) = 2 then goto UnlockWake t s' else ret 0 t s'
   | UnlockWake \<Rightarrow> (case queue s of
         [] \<Rightarrow> ret 0 t s
       | w # ws \<Rightarrow> ret 0 t (goto LockLoad w (s\<lparr>queue := ws\<rparr>)))
   | _ \<Rightarrow> s)"

definition call :: "mutex_call \<Rightarrow> u64 \<Rightarrow> mstate \<Rightarrow> mstate" where
  "call c t s = s\<lparr>th := (th s)(t := (th s t)\<lparr>th_call := c,
     th_pc := (case c of Call_Unlock \<Rightarrow> UnlockLoad | _ \<Rightarrow> TryLoad)\<rparr>)\<rparr>"

text \<open>
  Any thread with an id other than 0 may call any function at any time.  A parked thread whose call has a
  deadline may time out; when the kernel cannot allocate a queue entry the wait fails after the comparison.
\<close>

inductive mstep :: "mstate \<Rightarrow> mstate \<Rightarrow> bool" where
  begin_call: "th_pc (th s t) = Idle \<Longrightarrow> t \<noteq> 0 \<Longrightarrow> mstep s (call c t s)"
| trylock: "th_pc (th s t) \<in> {TryLoad, TryOwner, TryCount, TryCas, TryStore, TryEnter} \<Longrightarrow> mstep s (trylock_step t s)"
| lock: "th_pc (th s t) \<in> {LockLoad, LockCas0, LockStore, LockEnter, LockCas1, LockWait} \<Longrightarrow> mstep s (lock_step t s)"
| unlock: "th_pc (th s t) \<in> {UnlockLoad, UnlockOwner, UnlockCount, UnlockStore, UnlockExchange, UnlockWake} \<Longrightarrow>
    mstep s (unlock_step t s)"
| no_memory: "th_pc (th s t) = LockWait \<Longrightarrow> mx_locked (mx s) = 2 \<Longrightarrow> mstep s (ret EINVAL t s)"
| timeout: "th_pc (th s t) = Parked \<Longrightarrow> th_call (th s t) = Call_Lock d \<Longrightarrow> d \<noteq> 0 \<Longrightarrow>
    mstep s (ret ETIMEDOUT t (s\<lparr>queue := remove1 t (queue s)\<rparr>))"

definition fresh_threads :: "u64 \<Rightarrow> mthread" where
  "fresh_threads t = \<lparr>th_pc = Idle, th_call = Call_Unlock, th_ret = 0\<rparr>"

definition minit :: "pthread_mutex \<Rightarrow> mstate" where
  "minit m = \<lparr>mx = m, queue = [], holder = None, th = fresh_threads\<rparr>"

text \<open>The states reachable from a mutex that was just initialised with some attributes.\<close>

inductive mreach :: "pthread_mutexattr option \<Rightarrow> mstate \<Rightarrow> bool" for attr where
  start: "pthread_mutex_init attr = Inr m \<Longrightarrow> mreach attr (minit m)"
| step: "mreach attr s \<Longrightarrow> mstep s s' \<Longrightarrow> mreach attr s'"

text \<open>One step of a thread that is inside a call and not parked.\<close>

definition tick :: "u64 \<Rightarrow> mstate \<Rightarrow> mstate" where
  "tick t s =
     (if th_pc (th s t) \<in> {TryLoad, TryOwner, TryCount, TryCas, TryStore, TryEnter} then trylock_step t s
      else if th_pc (th s t) \<in> {LockLoad, LockCas0, LockStore, LockEnter, LockCas1, LockWait} then lock_step t s
      else if th_pc (th s t) \<in> {UnlockLoad, UnlockOwner, UnlockCount, UnlockStore, UnlockExchange, UnlockWake} then unlock_step t s
      else s)"

text \<open>A completed call that took the mutex, and was not followed by another call of the thread.\<close>

definition acquired :: "mstate \<Rightarrow> u64 \<Rightarrow> bool" where
  "acquired s t \<longleftrightarrow> th_pc (th s t) = Idle \<and> th_call (th s t) \<noteq> Call_Unlock \<and> th_ret (th s t) = 0"

section \<open>The invariant\<close>

text \<open>Points at which the thread holds the word, and points at which the owner field is not its own yet or any more.\<close>

definition inside :: "pc set" where
  "inside = {TryCount, TryStore, TryEnter, LockStore, LockEnter, UnlockCount, UnlockStore, UnlockExchange}"

definition unowned :: "pc set" where
  "unowned = {TryStore, LockStore, UnlockExchange}"

definition unlocking :: "pc set" where
  "unlocking = {UnlockLoad, UnlockOwner, UnlockCount, UnlockStore, UnlockExchange, UnlockWake}"

text \<open>A thread that will look at the word again, or will wake the first waiter.\<close>

definition alert :: "pc set" where
  "alert = {LockLoad, LockCas0, LockCas1, LockWait, UnlockWake}"

definition word_inv :: "mstate \<Rightarrow> bool" where
  "word_inv s \<longleftrightarrow> mx_locked (mx s) \<in> {0, 1, 2} \<and> (mx_locked (mx s) = 0 \<longleftrightarrow> holder s = None)"

definition owner_inv :: "mstate \<Rightarrow> bool" where
  "owner_inv s \<longleftrightarrow> (\<forall>t. th_pc (th s t) \<in> inside \<longrightarrow> holder s = Some t) \<and>
     mx_owner (mx s) = (case holder s of None \<Rightarrow> 0 | Some t \<Rightarrow> if th_pc (th s t) \<in> unowned then 0 else t) \<and>
     th_pc (th s 0) = Idle \<and> holder s \<noteq> Some 0"

definition result_inv :: "mstate \<Rightarrow> bool" where
  "result_inv s \<longleftrightarrow> (\<forall>t. (th_pc (th s t) = Idle \<longrightarrow> th_call (th s t) \<noteq> Call_Unlock \<longrightarrow> th_ret (th s t) = 0 \<longrightarrow> holder s = Some t) \<and>
     (th_pc (th s t) \<in> unlocking \<longrightarrow> th_call (th s t) = Call_Unlock))"

definition queue_inv :: "mstate \<Rightarrow> bool" where
  "queue_inv s \<longleftrightarrow> distinct (queue s) \<and> (\<forall>t. t \<in> set (queue s) \<longleftrightarrow> th_pc (th s t) = Parked)"

definition alerted :: "mstate \<Rightarrow> bool" where
  "alerted s \<longleftrightarrow> (\<exists>t. th_pc (th s t) \<in> alert)"

definition alert_inv :: "mstate \<Rightarrow> bool" where
  "alert_inv s \<longleftrightarrow> queue s = [] \<or> mx_locked (mx s) = 2 \<or> alerted s"

definition mutex_inv :: "mstate \<Rightarrow> bool" where
  "mutex_inv s \<longleftrightarrow> word_inv s \<and> owner_inv s \<and> result_inv s \<and> queue_inv s \<and> alert_inv s"

lemma goto_simps [simp]: "mx (goto l t s) = mx s" "queue (goto l t s) = queue s" "holder (goto l t s) = holder s"
  "th_call (th (goto l t s) u) = th_call (th s u)"
  "th_ret (th (goto l t s) u) = th_ret (th s u)" "th_pc (th (goto l t s) u) = (if u = t then l else th_pc (th s u))"
  by (simp_all add: goto_def)

lemma ret_simps [simp]: "mx (ret r t s) = mx s" "queue (ret r t s) = queue s" "holder (ret r t s) = holder s"
  "th_call (th (ret r t s) u) = th_call (th s u)"
  "th_ret (th (ret r t s) u) = (if u = t then r else th_ret (th s u))"
  "th_pc (th (ret r t s) u) = (if u = t then Idle else th_pc (th s u))"
  by (simp_all add: ret_def)

lemma set_mx_simps [simp]: "mx (set_mx f s) = f (mx s)" "queue (set_mx f s) = queue s" "th (set_mx f s) = th s" "holder (set_mx f s) = holder s"
  by (simp_all add: set_mx_def)

lemma call_simps [simp]: "mx (call c t s) = mx s" "queue (call c t s) = queue s" "holder (call c t s) = holder s"
  "th_call (th (call c t s) u) = (if u = t then c else th_call (th s u))"
  "th_ret (th (call c t s) u) = th_ret (th s u)"
  "th_pc (th (call c t s) u) = (if u = t then (if c = Call_Unlock then UnlockLoad else TryLoad) else th_pc (th s u))"
  by (simp_all add: call_def split: mutex_call.split)

lemma try_result_simps [simp]: "mx (try_result r t s) = mx s" "queue (try_result r t s) = queue s" "holder (try_result r t s) = holder s"
  "th_call (th (try_result r t s) u) = th_call (th s u)"
  "th_ret (th (try_result r t s) u) =
     (if u = t \<and> \<not> (r = EBUSY \<and> (\<exists>d. th_call (th s t) = Call_Lock d)) then r else th_ret (th s u))"
  "th_pc (th (try_result r t s) u) =
     (if u = t then (if r = EBUSY \<and> (\<exists>d. th_call (th s t) = Call_Lock d) then LockLoad else Idle) else th_pc (th s u))"
  by (simp_all add: try_result_def split: mutex_call.split)

lemma inside_pcs [simp]:
  "Idle \<notin> inside" "TryLoad \<notin> inside" "TryOwner \<notin> inside" "TryCount \<in> inside"
  "TryCas \<notin> inside" "TryStore \<in> inside" "TryEnter \<in> inside" "LockLoad \<notin> inside"
  "LockCas0 \<notin> inside" "LockStore \<in> inside" "LockEnter \<in> inside" "LockCas1 \<notin> inside"
  "LockWait \<notin> inside" "Parked \<notin> inside" "UnlockLoad \<notin> inside" "UnlockOwner \<notin> inside"
  "UnlockCount \<in> inside" "UnlockStore \<in> inside" "UnlockExchange \<in> inside" "UnlockWake \<notin> inside"
  by (simp_all add: inside_def)

lemma unowned_pcs [simp]:
  "Idle \<notin> unowned" "TryLoad \<notin> unowned" "TryOwner \<notin> unowned" "TryCount \<notin> unowned"
  "TryCas \<notin> unowned" "TryStore \<in> unowned" "TryEnter \<notin> unowned" "LockLoad \<notin> unowned"
  "LockCas0 \<notin> unowned" "LockStore \<in> unowned" "LockEnter \<notin> unowned" "LockCas1 \<notin> unowned"
  "LockWait \<notin> unowned" "Parked \<notin> unowned" "UnlockLoad \<notin> unowned" "UnlockOwner \<notin> unowned"
  "UnlockCount \<notin> unowned" "UnlockStore \<notin> unowned" "UnlockExchange \<in> unowned" "UnlockWake \<notin> unowned"
  by (simp_all add: unowned_def)

lemma alert_pcs [simp]:
  "Idle \<notin> alert" "TryLoad \<notin> alert" "TryOwner \<notin> alert" "TryCount \<notin> alert"
  "TryCas \<notin> alert" "TryStore \<notin> alert" "TryEnter \<notin> alert" "LockLoad \<in> alert"
  "LockCas0 \<in> alert" "LockStore \<notin> alert" "LockEnter \<notin> alert" "LockCas1 \<in> alert"
  "LockWait \<in> alert" "Parked \<notin> alert" "UnlockLoad \<notin> alert" "UnlockOwner \<notin> alert"
  "UnlockCount \<notin> alert" "UnlockStore \<notin> alert" "UnlockExchange \<notin> alert" "UnlockWake \<in> alert"
  by (simp_all add: alert_def)

lemma unlocking_pcs [simp]:
  "Idle \<notin> unlocking" "TryLoad \<notin> unlocking" "TryOwner \<notin> unlocking" "TryCount \<notin> unlocking"
  "TryCas \<notin> unlocking" "TryStore \<notin> unlocking" "TryEnter \<notin> unlocking" "LockLoad \<notin> unlocking"
  "LockCas0 \<notin> unlocking" "LockStore \<notin> unlocking" "LockEnter \<notin> unlocking" "LockCas1 \<notin> unlocking"
  "LockWait \<notin> unlocking" "Parked \<notin> unlocking" "UnlockLoad \<in> unlocking" "UnlockOwner \<in> unlocking"
  "UnlockCount \<in> unlocking" "UnlockStore \<in> unlocking" "UnlockExchange \<in> unlocking" "UnlockWake \<in> unlocking"
  by (simp_all add: unlocking_def)

lemmas mutex_steps = trylock_step_def lock_step_def unlock_step_def

lemma word_step:
  assumes "word_inv s"
  shows "word_inv (trylock_step t s)" "word_inv (lock_step t s)" "word_inv (unlock_step t s)"
  using assms by (cases "th_pc (th s t)"; auto simp: word_inv_def mutex_steps Let_def split: list.split)+

lemma owner_pc: "owner_inv s \<Longrightarrow> th_pc (th s t) \<in> inside \<Longrightarrow> holder s = Some t"
  by (simp add: owner_inv_def)

lemma owner_invI:
  assumes "\<And>u. th_pc (th s u) \<in> inside \<Longrightarrow> holder s = Some u"
    "mx_owner (mx s) = (case holder s of None \<Rightarrow> 0 | Some t \<Rightarrow> if th_pc (th s t) \<in> unowned then 0 else t)"
    "th_pc (th s 0) = Idle" "holder s \<noteq> Some 0"
  shows "owner_inv s"
  using assms by (simp add: owner_inv_def)

lemma queue_head: "queue_inv s \<Longrightarrow> queue s = w # ws \<Longrightarrow> th_pc (th s w) = Parked"
  by (metis list.set_intros(1) queue_inv_def)

lemma owner_step:
  assumes "word_inv s" "owner_inv s" "th_pc (th s t) \<noteq> Idle"
  shows "owner_inv (trylock_step t s)" "owner_inv (lock_step t s)" "queue_inv s \<Longrightarrow> owner_inv (unlock_step t s)"
proof -
  have t: "t \<noteq> 0" using assms(2,3) by (auto simp: owner_inv_def)
  have free: "mx_locked (mx s) = 0 \<longleftrightarrow> holder s = None" using assms(1) by (simp add: word_inv_def)
  have pcs: "th_pc (th s u) \<in> inside \<Longrightarrow> holder s = Some u" for u using assms(2) by (simp add: owner_inv_def)
  have o: "mx_owner (mx s) = (case holder s of None \<Rightarrow> 0 | Some t \<Rightarrow> if th_pc (th s t) \<in> unowned then 0 else t)"
    "th_pc (th s 0) = Idle" "holder s \<noteq> Some 0" using assms(2) by (simp_all add: owner_inv_def)
  show "owner_inv (trylock_step t s)"
    by (cases "th_pc (th s t)"; simp only: trylock_step_def pc.case; rule owner_invI)
      (use t free pcs pcs [of t] o in \<open>auto split: option.splits if_splits\<close>)
  show "owner_inv (lock_step t s)"
    by (cases "th_pc (th s t)"; simp only: lock_step_def pc.case; rule owner_invI)
      (use t free pcs pcs [of t] o in \<open>auto split: option.splits if_splits\<close>)
  assume q: "queue_inv s"
  show "owner_inv (unlock_step t s)"
  proof (cases "th_pc (th s t) = UnlockWake")
    case True
    show ?thesis
    proof (cases "queue s")
      case Nil
      show ?thesis
        unfolding unlock_step_def True Nil pc.case list.case
        by (rule owner_invI) (use True pcs o t in \<open>auto split: option.splits if_splits\<close>)
    next
      case (Cons w ws)
      have "th_pc (th s w) = Parked" using q Cons by (rule queue_head)
      moreover from this have "w \<noteq> 0" using o(2) by auto
      ultimately show ?thesis
        unfolding unlock_step_def True Cons pc.case list.case
        by (intro owner_invI) (use True pcs o t in \<open>auto split: option.splits if_splits\<close>)
    qed
  next
    case False
    then show ?thesis
      by (cases "th_pc (th s t)"; simp only: unlock_step_def pc.case Let_def; intro owner_invI)
        (use t free pcs pcs [of t] o in \<open>auto split: option.splits if_splits\<close>)
  qed
qed

lemma queue_invI:
  assumes "distinct (queue s)" "\<And>u. u \<in> set (queue s) \<longleftrightarrow> th_pc (th s u) = Parked"
  shows "queue_inv s"
  using assms by (simp add: queue_inv_def)

lemma queue_step:
  assumes "queue_inv s"
  shows "queue_inv (trylock_step t s)" "queue_inv (lock_step t s)" "queue_inv (unlock_step t s)"
proof -
  have q: "distinct (queue s)" "u \<in> set (queue s) \<longleftrightarrow> th_pc (th s u) = Parked" for u
    using assms by (simp_all add: queue_inv_def)
  show "queue_inv (trylock_step t s)"
    by (cases "th_pc (th s t)"; simp only: trylock_step_def pc.case; rule queue_invI)
      (use q q(2) [of t] in \<open>auto split: if_splits\<close>)
  show "queue_inv (lock_step t s)"
    by (cases "th_pc (th s t)"; simp only: lock_step_def pc.case; rule queue_invI)
      (use q q(2) [of t] in \<open>auto split: if_splits\<close>)
  show "queue_inv (unlock_step t s)"
  proof (cases "th_pc (th s t) = UnlockWake")
    case True
    have "t \<notin> set (queue s)" using q(2) [of t] True by simp
    then show ?thesis
      unfolding unlock_step_def True pc.case
      by (cases "queue s"; simp only: list.case; intro queue_invI) (use True q q(2) [of t] in \<open>auto split: if_splits\<close>)
  next
    case False
    then show ?thesis
      by (cases "th_pc (th s t)"; simp only: unlock_step_def pc.case Let_def; intro queue_invI)
        (use q q(2) [of t] in \<open>auto split: if_splits\<close>)
  qed
qed

lemma result_invI:
  assumes "\<And>u. th_pc (th s u) = Idle \<Longrightarrow> th_call (th s u) \<noteq> Call_Unlock \<Longrightarrow> th_ret (th s u) = 0 \<Longrightarrow> holder s = Some u"
    "\<And>u. th_pc (th s u) \<in> unlocking \<Longrightarrow> th_call (th s u) = Call_Unlock"
  shows "result_inv s"
  using assms by (simp add: result_inv_def)

lemma result_step:
  assumes "word_inv s" "owner_inv s" "result_inv s" "queue_inv s" "th_pc (th s t) \<noteq> Idle"
  shows "result_inv (trylock_step t s)" "result_inv (lock_step t s)" "result_inv (unlock_step t s)"
proof -
  have free: "mx_locked (mx s) = 0 \<longleftrightarrow> holder s = None" using assms(1) by (simp add: word_inv_def)
  have pcs: "th_pc (th s u) \<in> inside \<Longrightarrow> holder s = Some u" for u using assms(2) by (simp add: owner_inv_def)
  have r: "th_pc (th s u) = Idle \<Longrightarrow> th_call (th s u) \<noteq> Call_Unlock \<Longrightarrow> th_ret (th s u) = 0 \<Longrightarrow> holder s = Some u"
    "th_pc (th s u) \<in> unlocking \<Longrightarrow> th_call (th s u) = Call_Unlock" for u
    using assms(3) by (simp_all add: result_inv_def)
  show "result_inv (trylock_step t s)"
    by (cases "th_pc (th s t)"; simp only: trylock_step_def pc.case; rule result_invI)
      (use free pcs [of t] r in \<open>auto simp: errno_defs split: if_splits\<close>)
  show "result_inv (lock_step t s)"
    by (cases "th_pc (th s t)"; simp only: lock_step_def pc.case; rule result_invI)
      (use free pcs [of t] r in \<open>auto split: if_splits\<close>)
  show "result_inv (unlock_step t s)"
  proof (cases "th_pc (th s t) = UnlockWake")
    case True
    show ?thesis
      unfolding unlock_step_def True pc.case
      by (cases "queue s"; simp only: list.case; rule result_invI) (use True r r(2) [of t] in \<open>auto split: if_splits\<close>)
  next
    case False
    then show ?thesis
      by (cases "th_pc (th s t)"; simp only: unlock_step_def pc.case Let_def; intro result_invI)
        (use free pcs [of t] r r(2) [of t] in \<open>auto simp: errno_defs split: if_splits\<close>)
  qed
qed

lemma alerted_upd [simp]: "alerted (set_mx f s) = alerted s" "alerted (s\<lparr>queue := q\<rparr>) = alerted s" "alerted (s\<lparr>holder := h\<rparr>) = alerted s"
  by (simp_all add: alerted_def)

lemma alerted_goto: "l \<in> alert \<Longrightarrow> alerted (goto l t s)"
  by (auto simp: alerted_def intro: exI [of _ t])

lemma alerted_ret:
  assumes "alerted s" "th_pc (th s t) \<notin> alert"
  shows "alerted (goto l t s)" "alerted (ret r t s)" "alerted (try_result r t s)" "alerted (call c t s)"
proof -
  obtain u where "th_pc (th s u) \<in> alert" "u \<noteq> t" using assms unfolding alerted_def by auto
  then show "alerted (goto l t s)" "alerted (ret r t s)" "alerted (try_result r t s)" "alerted (call c t s)"
    unfolding alerted_def by (auto intro: exI [of _ u])
qed

lemma alerted_wake: "w \<noteq> t \<Longrightarrow> alerted (ret r t (goto LockLoad w s))"
  by (auto simp: alerted_def intro: exI [of _ w])

lemma alert_step:
  assumes "alert_inv s" "word_inv s" "queue_inv s"
  shows "alert_inv (trylock_step t s)" "alert_inv (lock_step t s)" "alert_inv (unlock_step t s)"
proof -
  show "alert_inv (trylock_step t s)"
    unfolding alert_inv_def
    by (cases "th_pc (th s t)"; simp only: trylock_step_def pc.case)
      (use assms(1,2) in \<open>auto simp: alert_inv_def word_inv_def intro: alerted_ret\<close>)
  show "alert_inv (lock_step t s)"
    unfolding alert_inv_def
    by (cases "th_pc (th s t)"; simp only: lock_step_def pc.case)
      (use assms(1,2) in \<open>auto simp: alert_inv_def word_inv_def intro: alerted_ret alerted_goto\<close>)
  have "w \<noteq> t" if "th_pc (th s t) = UnlockWake" "queue s = w # ws" for w ws
    using queue_head [OF assms(3) that(2)] that(1) by auto
  then show "alert_inv (unlock_step t s)"
    unfolding alert_inv_def
    by (cases "th_pc (th s t)"; simp only: unlock_step_def pc.case Let_def)
      (use assms(1,2) in \<open>auto simp: alert_inv_def word_inv_def intro: alerted_ret alerted_goto alerted_wake split: list.splits\<close>)
qed

section \<open>Every reachable state\<close>

lemma mutex_invD:
  assumes "mutex_inv s"
  shows "word_inv s" "owner_inv s" "result_inv s" "queue_inv s" "alert_inv s"
  using assms by (simp_all add: mutex_inv_def)

lemma call_ok:
  assumes "mutex_inv s" "th_pc (th s t) = Idle" "t \<noteq> 0"
  shows "mutex_inv (call c t s)"
proof -
  note I = mutex_invD [OF assms(1)]
  have "word_inv (call c t s)" using I(1) by (auto simp: word_inv_def)
  moreover have "owner_inv (call c t s)"
    by (rule owner_invI) (use I(2) assms(2,3) in \<open>auto simp: owner_inv_def split: option.splits if_splits\<close>)
  moreover have "result_inv (call c t s)"
    by (rule result_invI) (use I(3) assms(2) in \<open>auto simp: result_inv_def split: if_splits\<close>)
  moreover have "queue_inv (call c t s)"
    by (rule queue_invI) (use I(4) assms(2) in \<open>auto simp: queue_inv_def split: if_splits\<close>)
  moreover have "alert_inv (call c t s)" using I(5) assms(2) by (auto simp: alert_inv_def intro: alerted_ret)
  ultimately show ?thesis by (simp add: mutex_inv_def)
qed

lemma no_memory_ok:
  assumes "mutex_inv s" "th_pc (th s t) = LockWait" "mx_locked (mx s) = 2"
  shows "mutex_inv (ret EINVAL t s)"
proof -
  note I = mutex_invD [OF assms(1)]
  have t: "t \<noteq> 0" using I(2) assms(2) by (auto simp: owner_inv_def)
  have "word_inv (ret EINVAL t s)" using I(1) by (auto simp: word_inv_def)
  moreover have "owner_inv (ret EINVAL t s)"
    by (rule owner_invI) (use I(2) assms(2) t in \<open>auto simp: owner_inv_def split: option.splits if_splits\<close>)
  moreover have "result_inv (ret EINVAL t s)"
    by (rule result_invI) (use I(3) assms(2) in \<open>auto simp: result_inv_def EINVAL_def split: if_splits\<close>)
  moreover have "queue_inv (ret EINVAL t s)"
    by (rule queue_invI) (use I(4) assms(2) in \<open>auto simp: queue_inv_def split: if_splits\<close>)
  moreover have "alert_inv (ret EINVAL t s)" using assms(3) by (simp add: alert_inv_def)
  ultimately show ?thesis by (simp add: mutex_inv_def)
qed

lemma timeout_ok:
  assumes "mutex_inv s" "th_pc (th s t) = Parked"
  shows "mutex_inv (ret ETIMEDOUT t (s\<lparr>queue := remove1 t (queue s)\<rparr>))" (is "mutex_inv ?s")
proof -
  note I = mutex_invD [OF assms(1)]
  have t: "t \<noteq> 0" using I(2) assms(2) by (auto simp: owner_inv_def)
  have "word_inv ?s" using I(1) by (auto simp: word_inv_def)
  moreover have "owner_inv ?s"
    by (rule owner_invI) (use I(2) assms(2) t in \<open>auto simp: owner_inv_def split: option.splits if_splits\<close>)
  moreover have "result_inv ?s"
    by (rule result_invI) (use I(3) assms(2) in \<open>auto simp: result_inv_def ETIMEDOUT_def split: if_splits\<close>)
  moreover have "queue_inv ?s"
    by (rule queue_invI) (use I(4) assms(2) in \<open>auto simp: queue_inv_def split: if_splits\<close>)
  moreover have "alert_inv ?s" using I(5) assms(2) by (auto simp: alert_inv_def intro: alerted_ret)
  ultimately show ?thesis by (simp add: mutex_inv_def)
qed

lemma mstep_inv:
  assumes "mstep s s'" "mutex_inv s"
  shows "mutex_inv s'"
  using assms(1)
proof (cases rule: mstep.cases)
  case (begin_call t c)
  then show ?thesis using call_ok [OF assms(2)] by simp
next
  case (trylock t)
  then show ?thesis using mutex_invD [OF assms(2)] word_step owner_step queue_step result_step alert_step
    by (auto simp: mutex_inv_def)
next
  case (lock t)
  then show ?thesis using mutex_invD [OF assms(2)] word_step owner_step queue_step result_step alert_step
    by (auto simp: mutex_inv_def)
next
  case (unlock t)
  then show ?thesis using mutex_invD [OF assms(2)] word_step owner_step queue_step result_step alert_step
    by (auto simp: mutex_inv_def)
next
  case (no_memory t)
  then show ?thesis using no_memory_ok [OF assms(2)] by simp
next
  case (timeout t d)
  then show ?thesis using timeout_ok [OF assms(2)] by simp
qed

lemma minit_inv: "pthread_mutex_init attr = Inr m \<Longrightarrow> mutex_inv (minit m)"
  by (auto simp: pthread_mutex_init_def mutex_inv_def minit_def word_inv_def owner_inv_def result_inv_def queue_inv_def
      alert_inv_def fresh_threads_def split: option.splits if_splits)

lemma mreach_inv: "mreach attr s \<Longrightarrow> mutex_inv s"
  by (induction rule: mreach.induct) (auto simp: minit_inv intro: mstep_inv)

lemma tick_reach: "mreach attr s \<Longrightarrow> mreach attr (tick t s)"
  unfolding tick_def by (auto intro: mreach.step mstep.intros)

lemma call_reach: "mreach attr s \<Longrightarrow> th_pc (th s t) = Idle \<Longrightarrow> t \<noteq> 0 \<Longrightarrow> mreach attr (call c t s)"
  by (rule mreach.step [OF _ begin_call])

section \<open>A contended mutex\<close>

definition taken :: mstate where
  "taken = (tick 1 ^^ 4) (call Call_Trylock 1 (minit (projr (pthread_mutex_init None))))"

definition contended :: mstate where
  "contended = (tick 2 ^^ 6) (call (Call_Lock 0) 2 taken)"

lemma ticks_reach: "mreach attr s \<Longrightarrow> mreach attr ((tick t ^^ n) s)"
  by (induction n) (auto intro: tick_reach)

lemmas run_defs = tick_def mutex_steps try_result_def goto_def ret_def set_mx_def call_def

lemma taken_eq: "taken = \<lparr>mx = \<lparr>mx_locked = 1, mx_owner = 1, mx_recursion = 1, mx_type = 0\<rparr>, queue = [], holder = Some 1,
    th = fresh_threads(1 := \<lparr>th_pc = Idle, th_call = Call_Trylock, th_ret = 0\<rparr>)\<rparr>"
  by (simp add: taken_def run_defs minit_def pthread_mutex_init_def PTHREAD_MUTEX_NORMAL_def fresh_threads_def numeral_eq_Suc)

lemma contended_eq: "contended = \<lparr>mx = \<lparr>mx_locked = 2, mx_owner = 1, mx_recursion = 1, mx_type = 0\<rparr>, queue = [2], holder = Some 1,
    th = fresh_threads(1 := \<lparr>th_pc = Idle, th_call = Call_Trylock, th_ret = 0\<rparr>,
      2 := \<lparr>th_pc = Parked, th_call = Call_Lock 0, th_ret = 0\<rparr>)\<rparr>"
  unfolding contended_def taken_eq
  by (simp add: run_defs errno_defs PTHREAD_MUTEX_RECURSIVE_def PTHREAD_MUTEX_ERRORCHECK_def fresh_threads_def numeral_eq_Suc)

lemma taken_reach: "mreach None taken"
  unfolding taken_def
  by (intro ticks_reach call_reach mreach.start) (auto simp: pthread_mutex_init_def minit_def fresh_threads_def)

lemma contended_reach: "mreach None contended"
  unfolding contended_def
  by (intro ticks_reach call_reach taken_reach) (auto simp: taken_eq fresh_threads_def)

section \<open>Properties\<close>

text \<open>
  C5: Mutual exclusion.  In every interleaving of any number of threads that lock, try to lock, lock with a
  deadline and unlock, two threads whose last call took the mutex are the same thread; the mutex is then not
  free and its owner field names that thread.
\<close>

theorem mutual_exclusion:
  assumes "mreach attr s" "acquired s t" "acquired s u"
  shows "t = u \<and> mx_locked (mx s) \<noteq> 0 \<and> mx_owner (mx s) = t"
proof -
  note I = mutex_invD [OF mreach_inv [OF assms(1)]]
  have "holder s = Some t" "holder s = Some u"
    using I(3) assms(2,3) by (auto simp: result_inv_def acquired_def)
  then show ?thesis using I(1,2) assms(2) by (auto simp: word_inv_def owner_inv_def acquired_def)
qed

theorem mutual_exclusion_witness:
  "mreach None contended \<and> acquired contended 1 \<and> mx_locked (mx contended) \<noteq> 0 \<and> mx_owner (mx contended) = 1"
  using mutual_exclusion [OF contended_reach, of 1 1] contended_reach by (simp add: acquired_def contended_eq)

text \<open>
  C6: No lost wake-up.  A thread parked on the mutex word is in the kernel's queue, and either the word is in
  the contended state and some thread holds it, so that its unlock wakes the first waiter, or some thread is
  about to look at the word again and, taking it, leaves it contended, or is about to wake the first waiter.
\<close>

theorem no_lost_wakeup:
  assumes "mreach attr s" "th_pc (th s t) = Parked"
  shows "t \<in> set (queue s) \<and>
    (mx_locked (mx s) = 2 \<and> (\<exists>h. holder s = Some h) \<or>
     (\<exists>u. th_pc (th s u) \<in> {LockLoad, LockCas0, LockCas1, LockWait, UnlockWake}))"
proof -
  note I = mutex_invD [OF mreach_inv [OF assms(1)]]
  have q: "t \<in> set (queue s)" using I(4) assms(2) by (simp add: queue_inv_def)
  then show ?thesis using I(1,5) by (auto simp: alert_inv_def alerted_def alert_def word_inv_def)
qed

theorem no_lost_wakeup_witness:
  "th_pc (th contended 2) = Parked \<and> 2 \<in> set (queue contended)"
  using no_lost_wakeup [OF contended_reach, of 2] by (simp add: contended_eq)

text \<open>
  C28: Only the thread the owner field names can release the mutex: a call of unlock that returns, made by any
  other thread, returns \<open>EPERM\<close> and leaves the mutex as it is.
\<close>

theorem unlock_by_other_refused:
  assumes "mx_owner (mx s) \<noteq> t"
  shows "\<exists>n \<le> 2. let s' = (tick t ^^ n) (call Call_Unlock t s) in
    mx s' = mx s \<and> queue s' = queue s \<and> th_pc (th s' t) = Idle \<and> th_ret (th s' t) = EPERM"
proof (cases "mx_locked (mx s) = 0")
  case True
  then show ?thesis by (intro exI [of _ 1]) (simp add: run_defs)
next
  case False
  then show ?thesis using assms by (intro exI [of _ 2]) (simp add: run_defs numeral_2_eq_2)
qed

theorem unlock_by_other_refused_witness:
  "mx_owner (mx contended) \<noteq> 3 \<and> (\<exists>n \<le> 2. mx ((tick 3 ^^ n) (call Call_Unlock 3 contended)) = mx contended)"
  using unlock_by_other_refused [of contended 3] by (auto simp: contended_eq Let_def)

end

