(* ===== verification/Libc_String.thy ===== *)
theory Libc_String
  imports Prelude
begin

text \<open>
  The string functions of the C library, \<^verbatim>\<open>packages/gdos-libc-dev/source/string.c\<close> and
  \<^verbatim>\<open>ctype.c\<close>, over byte-addressed memory.  Pointers are addresses and wrap around like them; a loop that
  looks for a terminator may not end, so it returns an \<open>option\<close> and \<open>None\<close> is never returning.
\<close>

type_synonym memory = "u64 \<Rightarrow> u8"

section \<open>Characters\<close>

definition isupper :: "u8 \<Rightarrow> bool" where "isupper c \<longleftrightarrow> c \<ge> 65 \<and> c \<le> 90"

definition isspace :: "u8 \<Rightarrow> bool" where
  "isspace c \<longleftrightarrow> c = 32 \<or> c = 9 \<or> c = 10 \<or> c = 13 \<or> c = 12 \<or> c = 11"

definition tolower :: "u8 \<Rightarrow> u8" where "tolower c = (if isupper c then c + 32 else c)"

section \<open>Length and comparison\<close>

partial_function (option) strlen_loop :: "memory \<Rightarrow> u64 \<Rightarrow> u64 \<Rightarrow> u64 option" where
  "strlen_loop m s n = (if m (s + n) \<noteq> 0 then strlen_loop m s (n + 1) else Some n)"

definition strlen :: "memory \<Rightarrow> u64 \<Rightarrow> u64 option" where
  "strlen m s = strlen_loop m s 0"

function strnlen_loop :: "memory \<Rightarrow> u64 \<Rightarrow> nat \<Rightarrow> nat \<Rightarrow> nat" where
  "strnlen_loop m s n maxlen =
     (if n < maxlen \<and> m (s + of_nat n) \<noteq> 0 then strnlen_loop m s (n + 1) maxlen else n)"
  by pat_completeness auto
termination
  by (relation "measure (\<lambda>(_, _, n, maxlen). maxlen - n)") auto

definition strnlen :: "memory \<Rightarrow> u64 \<Rightarrow> u64 \<Rightarrow> u64" where
  "strnlen m s maxlen = of_nat (strnlen_loop m s 0 (unat maxlen))"

partial_function (option) strcmp :: "memory \<Rightarrow> u64 \<Rightarrow> u64 \<Rightarrow> int option" where
  "strcmp m a b = (if m a \<noteq> 0 \<and> m a = m b then strcmp m (a + 1) (b + 1) else Some (uint (m a) - uint (m b)))"

function strncmp_loop :: "memory \<Rightarrow> u64 \<Rightarrow> u64 \<Rightarrow> nat \<Rightarrow> nat \<Rightarrow> int" where
  "strncmp_loop m a b i n =
     (if i < n then
        let ac = m (a + of_nat i); bc = m (b + of_nat i)
        in if ac \<noteq> bc \<or> ac = 0 then uint ac - uint bc else strncmp_loop m a b (i + 1) n
      else 0)"
  by pat_completeness auto
termination
  by (relation "measure (\<lambda>(_, _, _, i, n). n - i)") auto

definition strncmp :: "memory \<Rightarrow> u64 \<Rightarrow> u64 \<Rightarrow> u64 \<Rightarrow> int" where
  "strncmp m a b n = strncmp_loop m a b 0 (unat n)"

partial_function (option) strcasecmp :: "memory \<Rightarrow> u64 \<Rightarrow> u64 \<Rightarrow> int option" where
  "strcasecmp m a b =
     (if m a \<noteq> 0 \<and> tolower (m a) = tolower (m b) then strcasecmp m (a + 1) (b + 1)
      else Some (uint (tolower (m a)) - uint (tolower (m b))))"

function strncasecmp_loop :: "memory \<Rightarrow> u64 \<Rightarrow> u64 \<Rightarrow> nat \<Rightarrow> nat \<Rightarrow> int" where
  "strncasecmp_loop m a b i n =
     (if i < n then
        let ac = tolower (m (a + of_nat i)); bc = tolower (m (b + of_nat i))
        in if ac \<noteq> bc \<or> ac = 0 then uint ac - uint bc else strncasecmp_loop m a b (i + 1) n
      else 0)"
  by pat_completeness auto
termination
  by (relation "measure (\<lambda>(_, _, _, i, n). n - i)") auto

definition strncasecmp :: "memory \<Rightarrow> u64 \<Rightarrow> u64 \<Rightarrow> u64 \<Rightarrow> int" where
  "strncasecmp m a b n = strncasecmp_loop m a b 0 (unat n)"

section \<open>Copying strings\<close>

partial_function (option) strcpy_loop :: "u64 \<Rightarrow> u64 \<Rightarrow> memory \<Rightarrow> memory option" where
  "strcpy_loop dst src m =
     (let c = m src; m = m(dst := c) in if c \<noteq> 0 then strcpy_loop (dst + 1) (src + 1) m else Some m)"

definition strcpy :: "u64 \<Rightarrow> u64 \<Rightarrow> memory \<Rightarrow> (u64 \<times> memory) option" where
  "strcpy dst src m = do { m \<leftarrow> strcpy_loop dst src m; Some (dst, m) }"

function strncpy_copy :: "u64 \<Rightarrow> u64 \<Rightarrow> nat \<Rightarrow> nat \<Rightarrow> memory \<Rightarrow> nat \<times> memory" where
  "strncpy_copy dst src i n m =
     (if i < n \<and> m (src + of_nat i) \<noteq> 0
      then strncpy_copy dst src (i + 1) n (m(dst + of_nat i := m (src + of_nat i))) else (i, m))"
  by pat_completeness auto
termination
  by (relation "measure (\<lambda>(_, _, i, n, _). n - i)") auto

function fill_loop :: "u64 \<Rightarrow> u8 \<Rightarrow> nat \<Rightarrow> nat \<Rightarrow> memory \<Rightarrow> memory" where
  "fill_loop dst c i n m = (if i < n then fill_loop dst c (i + 1) n (m(dst + of_nat i := c)) else m)"
  by pat_completeness auto
termination
  by (relation "measure (\<lambda>(_, _, i, n, _). n - i)") auto

definition strncpy :: "u64 \<Rightarrow> u64 \<Rightarrow> u64 \<Rightarrow> memory \<Rightarrow> u64 \<times> memory" where
  "strncpy dst src n m = (case strncpy_copy dst src 0 (unat n) m of (i, m) \<Rightarrow> (dst, fill_loop dst 0 i (unat n) m))"

definition strcat :: "u64 \<Rightarrow> u64 \<Rightarrow> memory \<Rightarrow> (u64 \<times> memory) option" where
  "strcat dst src m = do {
     n \<leftarrow> strlen m dst;
     (_, m) \<leftarrow> strcpy (dst + n) src m;
     Some (dst, m)
   }"

definition strncat :: "u64 \<Rightarrow> u64 \<Rightarrow> u64 \<Rightarrow> memory \<Rightarrow> (u64 \<times> memory) option" where
  "strncat dst src n m = do {
     len \<leftarrow> strlen m dst;
     let (i, m) = strncpy_copy (dst + len) src 0 (unat n) m;
     Some (dst, m(dst + len + of_nat i := 0))
   }"

section \<open>Searching\<close>

partial_function (option) strchr :: "memory \<Rightarrow> u64 \<Rightarrow> u8 \<Rightarrow> u64 option option" where
  "strchr m s needle =
     (if m s = needle then Some (Some s) else if m s \<noteq> 0 then strchr m (s + 1) needle else Some None)"

partial_function (option) strrchr_loop :: "memory \<Rightarrow> u64 \<Rightarrow> u8 \<Rightarrow> u64 option \<Rightarrow> u64 option option" where
  "strrchr_loop m s needle found =
     (let found = (if m s = needle then Some s else found)
      in if m s \<noteq> 0 then strrchr_loop m (s + 1) needle found else Some found)"

definition strrchr :: "memory \<Rightarrow> u64 \<Rightarrow> u8 \<Rightarrow> u64 option option" where
  "strrchr m s needle = strrchr_loop m s needle None"

partial_function (option) strstr_loop :: "memory \<Rightarrow> u64 \<Rightarrow> u64 \<Rightarrow> u64 \<Rightarrow> u64 option option" where
  "strstr_loop m haystack needle n =
     (if m haystack \<noteq> 0 then
        if m haystack = m needle \<and> strncmp m haystack needle n = 0 then Some (Some haystack)
        else strstr_loop m (haystack + 1) needle n
      else Some None)"

definition strstr :: "memory \<Rightarrow> u64 \<Rightarrow> u64 \<Rightarrow> u64 option option" where
  "strstr m haystack needle =
     (if m needle = 0 then Some (Some haystack)
      else do { n \<leftarrow> strlen m needle; strstr_loop m haystack needle n })"

definition char_in :: "memory \<Rightarrow> u64 \<Rightarrow> u8 \<Rightarrow> bool option" where
  "char_in m chars c = do { r \<leftarrow> strchr m chars c; Some (r \<noteq> None) }"

partial_function (option) span_loop :: "memory \<Rightarrow> bool \<Rightarrow> u64 \<Rightarrow> u64 \<Rightarrow> u64 \<Rightarrow> u64 option" where
  "span_loop m inside s chars n =
     (if m (s + n) \<noteq> 0 then do {
        hit \<leftarrow> char_in m chars (m (s + n));
        if hit = inside then span_loop m inside s chars (n + 1) else Some n
      }
      else Some n)"

definition strspn :: "memory \<Rightarrow> u64 \<Rightarrow> u64 \<Rightarrow> u64 option" where
  "strspn m s accept = span_loop m True s accept 0"

definition strcspn :: "memory \<Rightarrow> u64 \<Rightarrow> u64 \<Rightarrow> u64 option" where
  "strcspn m s reject = span_loop m False s reject 0"

definition strpbrk :: "memory \<Rightarrow> u64 \<Rightarrow> u64 \<Rightarrow> u64 option option" where
  "strpbrk m s accept = do { n \<leftarrow> strcspn m s accept; Some (if m (s + n) = 0 then None else Some (s + n)) }"

text \<open>\<open>saveptr\<close> is the word the third argument points to; the result is the token, the word and memory.\<close>

definition strtok_r :: "u64 option \<Rightarrow> u64 \<Rightarrow> u64 \<Rightarrow> memory \<Rightarrow> (u64 option \<times> u64 \<times> memory) option" where
  "strtok_r s delim saveptr m = do {
     let s = (case s of None \<Rightarrow> saveptr | Some s \<Rightarrow> s);
     n \<leftarrow> strspn m s delim;
     let s = s + n;
     if m s = 0 then Some (None, s, m)
     else do {
       n \<leftarrow> strcspn m s delim;
       let e = s + n;
       Some (if m e \<noteq> 0 then (Some s, e + 1, m(e := 0)) else (Some s, e, m))
     }
   }"

section \<open>Blocks of memory\<close>

definition memset :: "u64 \<Rightarrow> u8 \<Rightarrow> u64 \<Rightarrow> memory \<Rightarrow> memory" where
  "memset dst c n m = fill_loop dst c 0 (unat n) m"

function copy_up :: "u64 \<Rightarrow> u64 \<Rightarrow> nat \<Rightarrow> nat \<Rightarrow> memory \<Rightarrow> memory" where
  "copy_up dst src i n m =
     (if i < n then copy_up dst src (i + 1) n (m(dst + of_nat i := m (src + of_nat i))) else m)"
  by pat_completeness auto
termination
  by (relation "measure (\<lambda>(_, _, i, n, _). n - i)") auto

primrec copy_down :: "u64 \<Rightarrow> u64 \<Rightarrow> nat \<Rightarrow> memory \<Rightarrow> memory" where
  "copy_down dst src 0 m = m"
| "copy_down dst src (Suc i) m = copy_down dst src i (m(dst + of_nat i := m (src + of_nat i)))"

definition memcpy :: "u64 \<Rightarrow> u64 \<Rightarrow> u64 \<Rightarrow> memory \<Rightarrow> memory" where
  "memcpy dst src n m = copy_up dst src 0 (unat n) m"

definition memmove :: "u64 \<Rightarrow> u64 \<Rightarrow> u64 \<Rightarrow> memory \<Rightarrow> memory" where
  "memmove dst src n m =
     (if src < dst then copy_down dst src (unat n) m
      else if src > dst then copy_up dst src 0 (unat n) m
      else m)"

function memcmp_loop :: "memory \<Rightarrow> u64 \<Rightarrow> u64 \<Rightarrow> nat \<Rightarrow> nat \<Rightarrow> int" where
  "memcmp_loop m a b i n =
     (if i < n then
        if m (a + of_nat i) \<noteq> m (b + of_nat i) then uint (m (a + of_nat i)) - uint (m (b + of_nat i))
        else memcmp_loop m a b (i + 1) n
      else 0)"
  by pat_completeness auto
termination
  by (relation "measure (\<lambda>(_, _, _, i, n). n - i)") auto

definition memcmp :: "memory \<Rightarrow> u64 \<Rightarrow> u64 \<Rightarrow> u64 \<Rightarrow> int" where
  "memcmp m a b n = memcmp_loop m a b 0 (unat n)"

function memchr_loop :: "memory \<Rightarrow> u64 \<Rightarrow> u8 \<Rightarrow> nat \<Rightarrow> nat \<Rightarrow> u64 option" where
  "memchr_loop m p c i n =
     (if i < n then if m (p + of_nat i) = c then Some (p + of_nat i) else memchr_loop m p c (i + 1) n else None)"
  by pat_completeness auto
termination
  by (relation "measure (\<lambda>(_, _, _, i, n). n - i)") auto

definition memchr :: "memory \<Rightarrow> u64 \<Rightarrow> u8 \<Rightarrow> u64 \<Rightarrow> u64 option" where
  "memchr m p c n = memchr_loop m p c 0 (unat n)"

declare strnlen_loop.simps [simp del] strncmp_loop.simps [simp del] strncasecmp_loop.simps [simp del] strncpy_copy.simps [simp del] fill_loop.simps [simp del]
  copy_up.simps [simp del] memcmp_loop.simps [simp del] memchr_loop.simps [simp del]

section \<open>Terminated strings\<close>

primrec cstr :: "memory \<Rightarrow> u64 \<Rightarrow> u8 list \<Rightarrow> bool" where
  "cstr m p [] \<longleftrightarrow> m p = 0"
| "cstr m p (c # cs) \<longleftrightarrow> m p = c \<and> c \<noteq> 0 \<and> cstr m (p + 1) cs"

lemma strlen_loop_cstr: "cstr m (s + n) cs \<Longrightarrow> strlen_loop m s n = Some (n + of_nat (length cs))"
proof (induction cs arbitrary: n)
  case Nil
  then show ?case by (simp add: strlen_loop.simps [of m s n])
next
  case (Cons c cs)
  then show ?case by (simp add: strlen_loop.simps [of m s n] add.assoc)
qed

lemma strlen_cstr: "cstr m s cs \<Longrightarrow> strlen m s = Some (of_nat (length cs))"
  using strlen_loop_cstr [of m s 0 cs] by (simp add: strlen_def)

lemma byte_order:
  fixes a b :: u8
  shows "uint a - uint b = 0 \<longleftrightarrow> a = b" "uint a = uint b \<longleftrightarrow> a = b" "uint a < uint b \<longleftrightarrow> a < b" "uint a - uint b < 0 \<longleftrightarrow> a < b"
    "0 < uint a \<longleftrightarrow> a \<noteq> 0" "uint a = 0 \<longleftrightarrow> a = 0" "0 < a \<longleftrightarrow> a \<noteq> 0"
  by (auto simp: word_less_def word_uint_eq_iff order.strict_iff_order)

lemma strcmp_cstr:
  "cstr m a xs \<Longrightarrow> cstr m b ys \<Longrightarrow>
     \<exists>r. strcmp m a b = Some r \<and> (r = 0 \<longleftrightarrow> xs = ys) \<and> (r < 0 \<longleftrightarrow> (xs, ys) \<in> lexord {(x, y). x < y})"
proof (induction xs arbitrary: a b ys)
  case Nil
  then show ?case by (cases ys) (auto simp: strcmp.simps [of m a b] byte_order)
next
  case (Cons x xs)
  show ?case
  proof (cases ys)
    case Nil
    then show ?thesis using Cons.prems by (auto simp: strcmp.simps [of m a b] byte_order)
  next
    case ys: (Cons y zs)
    show ?thesis
    proof (cases "x = y")
      case True
      then show ?thesis using Cons.IH [of "a + 1" "b + 1" zs] Cons.prems ys by (simp add: strcmp.simps [of m a b])
    next
      case False
      then show ?thesis using Cons.prems ys by (auto simp: strcmp.simps [of m a b] byte_order)
    qed
  qed
qed

text \<open>Copying a string to a place it does not overlap.\<close>

lemma cstr_upd: "(\<And>i. i \<le> length cs \<Longrightarrow> x \<noteq> p + of_nat i) \<Longrightarrow> cstr (m(x := v)) p cs = cstr m p cs"
proof (induction cs arbitrary: p)
  case Nil
  then show ?case using Nil [of 0] by simp
next
  case (Cons c cs)
  have "x \<noteq> p" using Cons.prems [of 0] by simp
  moreover have "x \<noteq> p + 1 + of_nat i" if "i \<le> length cs" for i using Cons.prems [of "Suc i"] that by (simp add: add.assoc)
  ultimately show ?case using Cons.IH [of "p + 1"] by auto
qed

lemma strcpy_loop_cstr:
  assumes "cstr m src cs" "length cs < 2 ^ 64 - 1"
    "\<And>i j. i \<le> length cs \<Longrightarrow> j \<le> length cs \<Longrightarrow> dst + of_nat j \<noteq> src + of_nat i"
  shows "\<exists>m'. strcpy_loop dst src m = Some m' \<and> cstr m' dst cs \<and> (\<forall>x. (\<forall>j \<le> length cs. x \<noteq> dst + of_nat j) \<longrightarrow> m' x = m x)"
  using assms
proof (induction cs arbitrary: m src dst)
  case Nil
  then show ?case by (auto simp: strcpy_loop.simps [of dst src m])
next
  case (Cons c cs)
  let ?m = "m(dst := c)"
  have far: "dst \<noteq> src + 1 + of_nat i" if "i \<le> length cs" for i
    using Cons.prems(3) [of "Suc i" 0] that by (simp add: add.assoc)
  have 1: "cstr ?m (src + 1) cs" using Cons.prems(1) cstr_upd [of cs dst "src + 1" m c] far by simp
  have 2: "dst + 1 + of_nat j \<noteq> src + 1 + of_nat i" if "i \<le> length cs" "j \<le> length cs" for i j
    using Cons.prems(3) [of "Suc i" "Suc j"] that by (simp add: add.assoc)
  obtain m' where m': "strcpy_loop (dst + 1) (src + 1) ?m = Some m'" "cstr m' (dst + 1) cs"
    "\<forall>x. (\<forall>j \<le> length cs. x \<noteq> dst + 1 + of_nat j) \<longrightarrow> m' x = ?m x"
  proof -
    have l: "length cs < 2 ^ 64 - 1" using Cons.prems(2) by simp
    have "\<exists>m'. strcpy_loop (dst + 1) (src + 1) ?m = Some m' \<and> cstr m' (dst + 1) cs \<and>
        (\<forall>x. (\<forall>j \<le> length cs. x \<noteq> dst + 1 + of_nat j) \<longrightarrow> m' x = ?m x)"
      by (rule Cons.IH [OF 1 l]) (rule 2)
    then show thesis by (elim exE conjE) (rule that)
  qed
  have "dst \<noteq> dst + 1 + of_nat j" if "j \<le> length cs" for j
  proof -
    have "(of_nat (Suc j) :: u64) \<noteq> 0" using Cons.prems(2) that
      by (simp only: word_of_nat_eq_0_iff) (auto dest!: dvd_imp_le)
    then show ?thesis by (simp add: add.assoc)
  qed
  then have "m' dst = c" using m'(3) by auto
  moreover have "m' x = m x" if "\<forall>j \<le> Suc (length cs). x \<noteq> dst + of_nat j" for x
  proof -
    have "x \<noteq> dst" "\<forall>j \<le> length cs. x \<noteq> dst + 1 + of_nat j"
      using that [rule_format, of 0] that [rule_format, of "Suc j" for j] by (auto simp: add.assoc)
    then show ?thesis using m'(3) by simp
  qed
  ultimately show ?case using m'(1,2) Cons.prems(1) by (auto simp: strcpy_loop.simps [of dst src m])
qed

section \<open>Copying blocks\<close>

text \<open>What a simultaneous copy of a block leaves in memory.\<close>

definition moved :: "u64 \<Rightarrow> u64 \<Rightarrow> nat \<Rightarrow> nat \<Rightarrow> memory \<Rightarrow> memory" where
  "moved dst src i n m = (\<lambda>x. if i \<le> unat (x - dst) \<and> unat (x - dst) < n then m (src + (x - dst)) else m x)"

lemma unat_offset: "i < 2 ^ 64 \<Longrightarrow> unat (of_nat i :: u64) = i"
  by (simp add: unat_of_nat)

lemma at_offset: "i < 2 ^ 64 \<Longrightarrow> x = dst + of_nat i \<longleftrightarrow> unat (x - dst :: u64) = i"
  using unat_offset [of i] by auto

lemma unat_ptr: "unat p + i < 2 ^ 64 \<Longrightarrow> unat (p + of_nat i :: u64) = unat p + i"
  using unat_offset [of i] by (simp add: unat_word_ariths(1))

lemma copy_up_moved:
  assumes "unat src + n \<le> 2 ^ 64" "unat dst + n \<le> 2 ^ 64" "dst < src" "i \<le> n"
  shows "copy_up dst src i n m = moved dst src i n m"
  using assms(4)
proof (induction "n - i" arbitrary: i m)
  case 0
  then show ?case by (auto simp: copy_up.simps moved_def fun_eq_iff)
next
  case (Suc k)
  let ?m = "m(dst + of_nat i := m (src + of_nat i))"
  have i: "i < n" "n < 2 ^ 64 \<or> n = 2 ^ 64" using Suc.hyps(2) assms(1) by auto
  have step: "copy_up dst src i n m = moved dst src (i + 1) n ?m"
    using Suc.hyps(1) [of "i + 1" ?m] Suc.hyps(2) i(1) by (simp add: copy_up.simps [of _ _ i])
  have "moved dst src (i + 1) n ?m x = moved dst src i n m x" for x
  proof -
    let ?o = "unat (x - dst)"
    have x: "x - dst = of_nat ?o" by simp
    have "src + (x - dst) \<noteq> dst + of_nat i" if "i < ?o" "?o < n"
    proof -
      have "unat (src + of_nat ?o) = unat src + ?o" "unat (dst + of_nat i) = unat dst + i"
        using that assms(1,2) i(1) by (intro unat_ptr; simp)+
      then show ?thesis using that assms(3) x by (metis add_less_mono nat_neq_iff word_less_nat_alt)
    qed
    moreover have "x = dst + of_nat i \<longleftrightarrow> ?o = i" using at_offset [of i x dst] i assms(1) by auto
    moreover have "src + (x - dst) = src + of_nat i" if "?o = i" using x that by simp
    ultimately show ?thesis using i(1) by (auto simp: moved_def)
  qed
  then show ?case using step by (simp add: fun_eq_iff)
qed

lemma copy_down_moved:
  assumes "unat src + n \<le> 2 ^ 64" "unat dst + n \<le> 2 ^ 64" "src < dst"
  shows "copy_down dst src n m = moved dst src 0 n m"
  using assms(1,2)
proof (induction n arbitrary: m)
  case 0
  then show ?case by (simp add: moved_def)
next
  case (Suc n)
  let ?m = "m(dst + of_nat n := m (src + of_nat n))"
  have step: "copy_down dst src (Suc n) m = moved dst src 0 n ?m" using Suc by simp
  have "moved dst src 0 n ?m x = moved dst src 0 (Suc n) m x" for x
  proof -
    let ?o = "unat (x - dst)"
    have x: "x - dst = of_nat ?o" by simp
    have "src + (x - dst) \<noteq> dst + of_nat n" if "?o < n"
    proof -
      have "unat (src + of_nat ?o) = unat src + ?o" "unat (dst + of_nat n) = unat dst + n"
        using that Suc.prems by (intro unat_ptr; simp)+
      then show ?thesis using that assms(3) x by (metis add_less_mono nat_neq_iff word_less_nat_alt)
    qed
    moreover have "x = dst + of_nat n \<longleftrightarrow> ?o = n" using at_offset [of n x dst] Suc.prems by auto
    moreover have "src + (x - dst) = src + of_nat n" if "?o = n" using x that by simp
    ultimately show ?thesis by (auto simp: moved_def less_Suc_eq)
  qed
  then show ?case using step by (simp add: fun_eq_iff)
qed

section \<open>Properties\<close>

text \<open>
  C1: \<open>memmove\<close> is a simultaneous copy, however source and destination overlap: every byte of the
  destination ends up with what the corresponding byte of the source held before, and no other byte changes.
\<close>

theorem memmove_correct:
  assumes "unat src + unat n \<le> 2 ^ 64" "unat dst + unat n \<le> 2 ^ 64"
  shows "memmove dst src n m = (\<lambda>x. if x - dst < n then m (src + (x - dst)) else m x)"
proof -
  have "moved dst src 0 (unat n) m = (\<lambda>x. if x - dst < n then m (src + (x - dst)) else m x)"
    by (simp add: moved_def fun_eq_iff word_less_nat_alt)
  moreover have "src = dst \<Longrightarrow> moved dst src 0 (unat n) m = m" by (simp add: moved_def fun_eq_iff)
  ultimately show ?thesis
    using copy_up_moved [OF assms, of 0 m] copy_down_moved [OF assms, of m]
    by (cases src dst rule: linorder_cases) (simp_all add: memmove_def)
qed

theorem memmove_correct_witness:
  "map (memmove 101 100 3 (\<lambda>x. ucast x)) [100, 101, 102, 103, 104] = [100, 100, 101, 102, 104]"
  using memmove_correct [of 100 3 101 "\<lambda>x. ucast x"] by simp

text \<open>
  C2: \<open>strcmp\<close> on two terminated strings returns, is zero exactly when they are equal, and is negative exactly
  when the first comes before the second in the lexicographic order of unsigned bytes.
\<close>

theorem strcmp_correct:
  assumes "cstr m a xs" "cstr m b ys"
  shows "\<exists>r. strcmp m a b = Some r \<and> (r = 0 \<longleftrightarrow> xs = ys) \<and> (r < 0 \<longleftrightarrow> (xs, ys) \<in> lexord {(x, y). x < y})"
  using assms by (rule strcmp_cstr)

theorem strcmp_correct_witness:
  "\<exists>r. strcmp (\<lambda>x. if x = 8 then 97 else if x = 16 then 97 else if x = 17 then 200 else 0) 8 16 = Some r \<and> r < 0"
  using strcmp_correct [of "\<lambda>x. if x = 8 then 97 else if x = 16 then 97 else if x = 17 then 200 else 0" 8 "[97]" 16 "[97, 200]"]
  by auto

end
