(* ===== verification/Libc_Stdlib.thy ===== *)
theory Libc_Stdlib
  imports Libc_String Errno "HOL-Library.Multiset"
begin

text \<open>
  Conversions, searching, sorting and the random numbers of the C library,
  \<^verbatim>\<open>packages/gdos-libc-dev/source/stdlib.c\<close>.  Text is read from memory at an address; arrays are lists of
  bytes relative to their base, and the comparison function a caller passes sees the bytes of two elements.
\<close>

section \<open>Number conversion\<close>

definition digit_value :: "u8 \<Rightarrow> int" where
  "digit_value c =
     (if c \<ge> 48 \<and> c \<le> 57 then uint c - 48
      else if c \<ge> 97 \<and> c \<le> 122 then uint c - 97 + 10
      else if c \<ge> 65 \<and> c \<le> 90 then uint c - 65 + 10
      else - 1)"

partial_function (option) skip_space :: "memory \<Rightarrow> u64 \<Rightarrow> u64 option" where
  "skip_space m s = (if isspace (m s) then skip_space m (s + 1) else Some s)"

text \<open>The digit loop: the position after the digits, the value, whether there was a digit and whether it overflowed.\<close>

partial_function (option) digits_loop ::
    "memory \<Rightarrow> int \<Rightarrow> u64 \<Rightarrow> u64 \<Rightarrow> u64 \<Rightarrow> bool \<Rightarrow> bool \<Rightarrow> (u64 \<times> u64 \<times> bool \<times> bool) option" where
  "digits_loop m base limit s v any overflow =
     (let digit = digit_value (m s)
      in if digit < 0 \<or> digit \<ge> base then Some (s, v, any, overflow)
         else if v > (limit - of_int digit) div of_int base
         then digits_loop m base limit (s + 1) limit True True
         else digits_loop m base limit (s + 1) (if overflow then v else v * of_int base + of_int digit) True overflow)"

text \<open>
  \<open>pm_errno\<close> is what the call stores in \<open>errno\<close>, if anything.  With a bad base the two output flags are left
  alone; every caller initialises them to false.
\<close>

record magnitude =
  pm_value :: u64
  pm_end :: u64
  pm_negative :: bool
  pm_overflow :: bool
  pm_errno :: "int option"

definition parse_magnitude :: "memory \<Rightarrow> u64 \<Rightarrow> int \<Rightarrow> u64 \<Rightarrow> u64 \<Rightarrow> magnitude option" where
  "parse_magnitude m start base positive_limit negative_limit = do {
     s \<leftarrow> skip_space m start;
     let negative = (m s = 45);
     let s = (if m s = 43 \<or> m s = 45 then s + 1 else s);
     let (base, s) =
       (if (base = 0 \<or> base = 16) \<and> m s = 48 \<and> (m (s + 1) = 120 \<or> m (s + 1) = 88) then (16, s + 2)
        else if base = 0 then (if m s = 48 then 8 else 10, s)
        else (base, s));
     if base < 2 \<or> base > 36 then
       Some \<lparr>pm_value = 0, pm_end = start, pm_negative = False, pm_overflow = False, pm_errno = Some EINVAL\<rparr>
     else do {
       (s, v, any, overflow) \<leftarrow> digits_loop m base (if negative then negative_limit else positive_limit) s 0 False False;
       Some \<lparr>pm_value = v, pm_end = (if any then s else start), pm_negative = negative, pm_overflow = overflow,
         pm_errno = (if overflow then Some ERANGE else None)\<rparr>
     }
   }"

text \<open>
  The results are the number, the end of the text used and the error number stored.  The compiler's target makes
  \<open>long\<close> 32 bits wide and \<open>long long\<close> 64.
\<close>

definition ULONG_MAX :: u64 where "ULONG_MAX = 4294967295"
definition LONG_MAX :: u64 where "LONG_MAX = 2147483647"
definition LONG_MIN :: int where "LONG_MIN = - 2147483648"
definition LLONG_MAX :: u64 where "LLONG_MAX = 9223372036854775807"
definition LLONG_MIN :: int where "LLONG_MIN = - 9223372036854775808"

definition strtoul :: "memory \<Rightarrow> u64 \<Rightarrow> int \<Rightarrow> (u32 \<times> u64 \<times> int option) option" where
  "strtoul m s base = do {
     p \<leftarrow> parse_magnitude m s base ULONG_MAX ULONG_MAX;
     let magnitude = (ucast (pm_value p) :: u32);
     Some (if pm_negative p then 0 - magnitude else magnitude, pm_end p, pm_errno p)
   }"

definition strtol :: "memory \<Rightarrow> u64 \<Rightarrow> int \<Rightarrow> (int \<times> u64 \<times> int option) option" where
  "strtol m s base = do {
     p \<leftarrow> parse_magnitude m s base LONG_MAX (LONG_MAX + 1);
     let r = (if pm_overflow p then if pm_negative p then LONG_MIN else uint LONG_MAX
              else if pm_negative p \<and> pm_value p = LONG_MAX + 1 then LONG_MIN
              else if pm_negative p then - sint (ucast (pm_value p) :: u32) else sint (ucast (pm_value p) :: u32));
     Some (r, pm_end p, pm_errno p)
   }"

definition strtoull :: "memory \<Rightarrow> u64 \<Rightarrow> int \<Rightarrow> (u64 \<times> u64 \<times> int option) option" where
  "strtoull m s base = do {
     p \<leftarrow> parse_magnitude m s base (- 1) (- 1);
     Some (if pm_negative p then 0 - pm_value p else pm_value p, pm_end p, pm_errno p)
   }"

definition strtoll :: "memory \<Rightarrow> u64 \<Rightarrow> int \<Rightarrow> (int \<times> u64 \<times> int option) option" where
  "strtoll m s base = do {
     p \<leftarrow> parse_magnitude m s base LLONG_MAX (LLONG_MAX + 1);
     let r = (if pm_overflow p then if pm_negative p then LLONG_MIN else uint LLONG_MAX
              else if pm_negative p \<and> pm_value p = LLONG_MAX + 1 then LLONG_MIN
              else if pm_negative p then - sint (pm_value p) else sint (pm_value p));
     Some (r, pm_end p, pm_errno p)
   }"

definition atoi :: "memory \<Rightarrow> u64 \<Rightarrow> int option" where
  "atoi m s = do { (r, _, _) \<leftarrow> strtol m s 10; Some r }"

section \<open>Searching and sorting\<close>

definition element :: "nat \<Rightarrow> nat \<Rightarrow> u8 list \<Rightarrow> u8 list" where
  "element sz j bytes = take sz (drop (j * sz) bytes)"

function bsearch_loop :: "(u8 list \<Rightarrow> int) \<Rightarrow> nat \<Rightarrow> u8 list \<Rightarrow> nat \<Rightarrow> nat \<Rightarrow> nat option" where
  "bsearch_loop cmp sz bytes low high =
     (if low < high then
        let middle = low + (high - low) div 2; order = cmp (element sz middle bytes)
        in if order < 0 then bsearch_loop cmp sz bytes low middle
           else if order > 0 then bsearch_loop cmp sz bytes (middle + 1) high
           else Some (middle * sz)
      else None)"
  by pat_completeness auto
termination
  by (relation "measure (\<lambda>(_, _, _, low, high). high - low)") auto

text \<open>The result is the offset of the element found; \<open>cmp\<close> compares the key with an element.\<close>

definition bsearch :: "(u8 list \<Rightarrow> int) \<Rightarrow> u8 list \<Rightarrow> nat \<Rightarrow> nat \<Rightarrow> nat option" where
  "bsearch cmp bytes n sz = bsearch_loop cmp sz bytes 0 n"

function swap_loop :: "nat \<Rightarrow> nat \<Rightarrow> nat \<Rightarrow> u8 list \<Rightarrow> u8 list" where
  "swap_loop sz j k bytes =
     (if k < sz then
        let tmp = bytes ! ((j - 1) * sz + k);
            bytes = bytes[(j - 1) * sz + k := bytes ! (j * sz + k)]
        in swap_loop sz j (k + 1) (bytes[j * sz + k := tmp])
      else bytes)"
  by pat_completeness auto
termination
  by (relation "measure (\<lambda>(sz, _, k, _). sz - k)") auto

fun sift_loop :: "(u8 list \<Rightarrow> u8 list \<Rightarrow> int) \<Rightarrow> nat \<Rightarrow> nat \<Rightarrow> u8 list \<Rightarrow> u8 list" where
  "sift_loop cmp sz 0 bytes = bytes"
| "sift_loop cmp sz (Suc j) bytes =
     (if cmp (element sz j bytes) (element sz (Suc j) bytes) > 0
      then sift_loop cmp sz j (swap_loop sz (Suc j) 0 bytes) else bytes)"

function qsort_loop :: "(u8 list \<Rightarrow> u8 list \<Rightarrow> int) \<Rightarrow> nat \<Rightarrow> nat \<Rightarrow> nat \<Rightarrow> u8 list \<Rightarrow> u8 list" where
  "qsort_loop cmp sz i n bytes = (if i < n then qsort_loop cmp sz (i + 1) n (sift_loop cmp sz i bytes) else bytes)"
  by pat_completeness auto
termination
  by (relation "measure (\<lambda>(_, _, i, n, _). n - i)") auto

definition qsort :: "(u8 list \<Rightarrow> u8 list \<Rightarrow> int) \<Rightarrow> u8 list \<Rightarrow> nat \<Rightarrow> nat \<Rightarrow> u8 list" where
  "qsort cmp bytes n sz = qsort_loop cmp sz 1 n bytes"

section \<open>Random numbers\<close>

text \<open>\<open>g_rand_state\<close> is the state; a call of \<open>rand\<close> that loses a race starts over from the new state.\<close>

definition srand :: "u32 \<Rightarrow> u64" where
  "srand seed = (if seed \<noteq> 0 then ucast seed else 1)"

definition RAND_MAX :: u64 where "RAND_MAX = 0x7fffffff"

definition rand_step :: "u64 \<Rightarrow> u64 \<times> u64" where
  "rand_step old = (let next = old * 6364136223846793005 + 1 in (drop_bit 33 next AND RAND_MAX, next))"

declare bsearch_loop.simps [simp del] swap_loop.simps [simp del] qsort_loop.simps [simp del]

section \<open>Correctness of the digit loop\<close>

text \<open>The number a list of digits in a base stands for, after a prefix with value \<open>v\<close>.\<close>

definition number :: "nat \<Rightarrow> nat \<Rightarrow> u8 list \<Rightarrow> nat" where
  "number b v ds = foldl (\<lambda>n c. n * b + nat (digit_value c)) v ds"

lemma number_simps [simp]: "number b v [] = v" "number b v (d # ds) = number b (v * b + nat (digit_value d)) ds"
  by (simp_all add: number_def)

lemma number_mono: "1 \<le> b \<Longrightarrow> v \<le> number b v ds"
proof (induction ds arbitrary: v)
  case (Cons d ds)
  have "v \<le> v * b + nat (digit_value d)" using Cons.prems by (cases b) auto
  then show ?case using Cons.IH [OF Cons.prems] order_trans by fastforce
qed simp

text \<open>Digits of the base, followed by something else.\<close>

primrec digits_at :: "memory \<Rightarrow> u64 \<Rightarrow> nat \<Rightarrow> u8 list \<Rightarrow> bool" where
  "digits_at m p b [] \<longleftrightarrow> digit_value (m p) < 0 \<or> digit_value (m p) \<ge> int b"
| "digits_at m p b (c # cs) \<longleftrightarrow> m p = c \<and> 0 \<le> digit_value c \<and> digit_value c < int b \<and> digits_at m (p + 1) b cs"

lemma div_bound:
  fixes v lim :: u64
  assumes "0 \<le> d" "d < int b" "2 \<le> b" "b \<le> 36" "36 \<le> unat lim"
  shows "v > (lim - of_int d) div of_int (int b) \<longleftrightarrow> unat lim < unat v * b + nat d"
    "unat v * b + nat d \<le> unat lim \<Longrightarrow> unat (v * of_int (int b) + of_int d) = unat v * b + nat d"
proof -
  have d: "of_int d = (of_nat (nat d) :: u64)" "nat d < b" using assms(1,2) by (simp_all add: of_nat_nat)
  have ud: "unat (of_nat (nat d) :: u64) = nat d" "unat (of_nat b :: u64) = b"
    using d(2) assms(4) by (simp_all add: unat_of_nat)
  have "unat (lim - of_int d) = unat lim - nat d"
    using d assms(4,5) ud by (simp add: unat_sub word_le_nat_alt)
  then have "unat ((lim - of_int d) div of_int (int b)) = (unat lim - nat d) div b" using ud by (simp add: unat_div)
  moreover have "unat v \<le> (unat lim - nat d) div b \<longleftrightarrow> unat v * b + nat d \<le> unat lim"
    using assms(3-5) d(2) by (auto simp: less_eq_div_iff_mult_less_eq)
  ultimately show "v > (lim - of_int d) div of_int (int b) \<longleftrightarrow> unat lim < unat v * b + nat d"
    by (auto simp: word_less_nat_alt)
  assume le: "unat v * b + nat d \<le> unat lim"
  have "v * of_int (int b) + of_int d = of_nat (unat v * b + nat d)" by (simp add: d(1))
  moreover have "unat v * b + nat d < 2 ^ 64" using le unsigned_less [of lim, where ?'a = nat] by simp
  ultimately show "unat (v * of_int (int b) + of_int d) = unat v * b + nat d" by (simp only: unat_offset)
qed

lemma digits_loop_correct:
  assumes "digits_at m s b ds" "2 \<le> b" "b \<le> 36" "36 \<le> unat lim" "v \<le> lim" "ov \<Longrightarrow> v = lim"
  shows "digits_loop m (int b) lim s v any ov =
    (let big = ov \<or> unat lim < number b (unat v) ds
     in Some (s + of_nat (length ds), if big then lim else of_nat (number b (unat v) ds), any \<or> ds \<noteq> [], big))"
  using assms(1,5,6)
proof (induction ds arbitrary: s v any ov)
  case Nil
  then show ?case by (auto simp: digits_loop.simps [of m "int b" lim s] word_le_nat_alt Let_def)
next
  case (Cons c cs)
  let ?d = "digit_value c" and ?n = "unat v * b + nat (digit_value c)"
  have c: "m s = c" "0 \<le> ?d" "?d < int b" "digits_at m (s + 1) b cs" using Cons.prems(1) by auto
  note bound = div_bound [OF c(2,3) assms(2-4), of v]
  have len: "s + 1 + of_nat (length cs) = s + of_nat (length (c # cs))" by (simp add: add.assoc)
  have mono: "?n \<le> number b ?n cs" using number_mono [of b ?n cs] assms(2) by simp
  show ?case
  proof (cases "unat lim < ?n")
    case True
    then have "digits_loop m (int b) lim s v any ov = digits_loop m (int b) lim (s + 1) lim True True"
      using c bound(1) by (simp add: digits_loop.simps [of m "int b" lim s])
    also have "\<dots> = Some (s + of_nat (length (c # cs)), lim, True, True)"
      using Cons.IH [OF c(4), of lim True True] len by (simp add: Let_def)
    finally show ?thesis using True mono by (simp add: Let_def)
  next
    case False
    have ov: "\<not> ov"
    proof
      assume ov
      then have "unat lim < unat v * b + nat ?d" using Cons.prems(3) assms(2,4) by (cases b) auto
      then show False using False by simp
    qed
    let ?v = "v * of_int (int b) + of_int ?d"
    have v: "unat ?v = ?n" using bound(2) False by simp
    have "digits_loop m (int b) lim s v any ov = digits_loop m (int b) lim (s + 1) ?v True False"
      using c bound(1) False ov by (simp add: digits_loop.simps [of m "int b" lim s])
    also have "\<dots> = (let big = unat lim < number b ?n cs
        in Some (s + of_nat (length (c # cs)), if big then lim else of_nat (number b ?n cs), True, big))"
      using Cons.IH [OF c(4), of ?v False True] v False len by (simp add: word_le_nat_alt Let_def)
    finally show ?thesis using ov by (simp add: Let_def)
  qed
qed

section \<open>Correctness of decimal conversion\<close>

lemma cstr_append: "cstr m p (xs @ ys) \<Longrightarrow> cstr m (p + of_nat (length xs)) ys"
proof (induction xs arbitrary: p)
  case (Cons x xs)
  then show ?case using Cons.IH [of "p + 1"] by (simp add: add.assoc)
qed simp

lemma skip_space_cstr:
  assumes "cstr m s (ws @ c # cs)" "\<forall>w \<in> set ws. isspace w" "\<not> isspace c"
  shows "skip_space m s = Some (s + of_nat (length ws))"
  using assms
proof (induction ws arbitrary: s)
  case Nil
  then show ?case by (simp add: skip_space.simps [of m s])
next
  case (Cons w ws)
  then show ?case by (simp add: skip_space.simps [of m s] add.assoc)
qed

definition decimal :: "u8 \<Rightarrow> bool" where
  "decimal c \<longleftrightarrow> 48 \<le> c \<and> c \<le> 57"

lemma decimal_digit: "decimal c \<Longrightarrow> 0 \<le> digit_value c \<and> digit_value c < 10"
  by (auto simp: decimal_def digit_value_def word_le_def)

lemma decimal_plain: "decimal c \<Longrightarrow> \<not> isspace c" "decimal c \<Longrightarrow> c \<noteq> 43" "decimal c \<Longrightarrow> c \<noteq> 45"
  by (auto simp: decimal_def isspace_def)

lemma digits_at_cstr: "cstr m p ds \<Longrightarrow> \<forall>c \<in> set ds. decimal c \<Longrightarrow> digits_at m p 10 ds"
  by (induction ds arbitrary: p) (use decimal_digit in \<open>auto simp: digit_value_def\<close>)

definition sign_of :: "u8 list \<Rightarrow> int" where
  "sign_of sg = (if sg = [45] then - 1 else 1)"

lemma parse_decimal:
  assumes "cstr m s (ws @ sg @ ds)" "\<forall>w \<in> set ws. isspace w" "sg \<in> {[], [43], [45]}" "ds \<noteq> []" "\<forall>c \<in> set ds. decimal c"
    "36 \<le> unat pl" "36 \<le> unat nl"
  shows "parse_magnitude m s 10 pl nl =
    (let lim = (if sg = [45] then nl else pl); n = number 10 0 ds; big = unat lim < n
     in Some \<lparr>pm_value = (if big then lim else of_nat n), pm_end = s + of_nat (length (ws @ sg @ ds)), pm_negative = (sg = [45]),
       pm_overflow = big, pm_errno = (if big then Some ERANGE else None)\<rparr>)"
proof -
  obtain d ds' where ds: "ds = d # ds'" using assms(4) by (cases ds) auto
  let ?s = "s + of_nat (length ws)" and ?t = "s + of_nat (length ws) + of_nat (length sg)"
  have d: "decimal d" using assms(5) ds by simp
  have at: "cstr m ?s (sg @ ds)" "cstr m ?t ds"
    using cstr_append [OF assms(1)] cstr_append [of m ?s sg ds] by simp_all
  have skip: "skip_space m s = Some ?s"
    using assms(3) skip_space_cstr [OF _ assms(2)] assms(1) ds decimal_plain(1) [OF d]
    by (auto simp: isspace_def)
  have sign: "m ?s = 45 \<longleftrightarrow> sg = [45]" "(if m ?s = 43 \<or> m ?s = 45 then ?s + 1 else ?s) = ?t"
    using assms(3) at(1) ds decimal_plain(2,3) [OF d] by auto
  have dg: "digits_at m ?t 10 ds" by (rule digits_at_cstr [OF at(2) assms(5)])
  have "digits_loop m 10 lim ?t 0 False False =
      (let big = unat lim < number 10 0 ds in Some (?t + of_nat (length ds), if big then lim else of_nat (number 10 0 ds), True, big))"
    if "36 \<le> unat lim" for lim
    using digits_loop_correct [OF dg _ _ that, of 0 False False] assms(4) by (simp add: Let_def)
  note loop = this [OF assms(6)] this [OF assms(7)]
  have len: "?t + of_nat (length ds) = s + of_nat (length (ws @ sg @ ds))" by (simp add: add.assoc)
  define t where "t = ?t"
  note fold_t = sign(2) [folded t_def] loop [folded t_def] len [folded t_def]
  show ?thesis
    by (simp only: parse_magnitude_def skip Option.bind.simps Let_def fold_t(1))
      (simp add: sign(1) fold_t(2-4) Let_def del: length_append of_nat_add)
qed

lemma sint_small:
  "n < 2 ^ 63 \<Longrightarrow> sint (of_nat n :: u64) = int n" "n < 2 ^ 31 \<Longrightarrow> sint (of_nat n :: u32) = int n"
  by (simp_all add: signed_of_nat signed_take_bit_int_eq_self)

lemma ucast_small: "ucast (of_nat n :: u64) = (of_nat n :: u32)"
  by transfer (simp add: take_bit_take_bit)

lemma long_limits:
  "unat LONG_MAX = 2 ^ 31 - 1" "unat (LONG_MAX + 1) = 2 ^ 31" "uint LONG_MAX = 2 ^ 31 - 1" "LONG_MIN = - (2 ^ 31)"
  "unat LLONG_MAX = 2 ^ 63 - 1" "unat (LLONG_MAX + 1) = 2 ^ 63" "uint LLONG_MAX = 2 ^ 63 - 1" "LLONG_MIN = - (2 ^ 63)"
  by (simp_all add: LONG_MAX_def LLONG_MAX_def LONG_MIN_def LLONG_MIN_def)

lemma strtol_decimal:
  assumes "cstr m s (ws @ sg @ ds)" "\<forall>w \<in> set ws. isspace w" "sg \<in> {[], [43], [45]}" "ds \<noteq> []" "\<forall>c \<in> set ds. decimal c"
  shows "let v = sign_of sg * int (number 10 0 ds); r = max LONG_MIN (min (uint LONG_MAX) v)
    in strtol m s 10 = Some (r, s + of_nat (length (ws @ sg @ ds)), if r = v then None else Some ERANGE)"
proof -
  let ?n = "number 10 0 ds"
  have big: "36 \<le> unat LONG_MAX" "36 \<le> unat (LONG_MAX + 1)" by (simp_all add: long_limits)
  note p = parse_decimal [OF assms big]
  have eq: "of_nat ?n = LONG_MAX + 1 \<longleftrightarrow> ?n = 2 ^ 31" if "?n \<le> 2 ^ 31"
    using that by (simp add: word_unat_eq_iff long_limits unat_of_nat)
  show ?thesis using eq sint_small(2) [of ?n]
    by (cases "sg = [45]") (auto simp: strtol_def p Let_def long_limits sign_of_def not_less ucast_small)
qed

lemma strtoll_decimal:
  assumes "cstr m s (ws @ sg @ ds)" "\<forall>w \<in> set ws. isspace w" "sg \<in> {[], [43], [45]}" "ds \<noteq> []" "\<forall>c \<in> set ds. decimal c"
  shows "let v = sign_of sg * int (number 10 0 ds); r = max LLONG_MIN (min (uint LLONG_MAX) v)
    in strtoll m s 10 = Some (r, s + of_nat (length (ws @ sg @ ds)), if r = v then None else Some ERANGE)"
proof -
  let ?n = "number 10 0 ds"
  have big: "36 \<le> unat LLONG_MAX" "36 \<le> unat (LLONG_MAX + 1)" by (simp_all add: long_limits)
  note p = parse_decimal [OF assms big]
  have eq: "of_nat ?n = LLONG_MAX + 1 \<longleftrightarrow> ?n = 2 ^ 63" if "?n \<le> 2 ^ 63"
    using that by (simp add: word_unat_eq_iff long_limits unat_of_nat)
  show ?thesis using eq sint_small(1) [of ?n]
    by (cases "sg = [45]") (auto simp: strtoll_def p Let_def long_limits sign_of_def not_less)
qed

section \<open>Correctness of sorting and searching\<close>

definition elements :: "nat \<Rightarrow> nat \<Rightarrow> u8 list \<Rightarrow> u8 list list" where
  "elements sz n bytes = map (\<lambda>j. element sz j bytes) [0 ..< n]"

lemma length_swap_loop [simp]: "length (swap_loop sz j k bytes) = length bytes"
  by (induction sz j k bytes rule: swap_loop.induct) (simp add: swap_loop.simps Let_def)

lemma swap_loop_nth:
  assumes "p < length bytes" "k \<le> sz" "Suc j * sz + sz \<le> length bytes"
  shows "swap_loop sz (Suc j) k bytes ! p =
      (if j * sz + k \<le> p \<and> p < Suc j * sz then bytes ! (p + sz)
       else if Suc j * sz + k \<le> p \<and> p < Suc j * sz + sz then bytes ! (p - sz) else bytes ! p)"
  using assms
proof (induction "sz - k" arbitrary: k bytes)
  case 0
  then show ?case by (auto simp: swap_loop.simps)
next
  case (Suc d)
  let ?a = "j * sz + k" and ?b = "Suc j * sz + k"
  let ?bs = "bytes[?a := bytes ! ?b, ?b := bytes ! ?a]"
  have k: "d = sz - (k + 1)" "k < sz" using Suc.hyps(2) by auto
  have ab: "?a < length bytes" "?b < length bytes" "?b = ?a + sz" using Suc.prems k by auto
  have "swap_loop sz (Suc j) k bytes = swap_loop sz (Suc j) (k + 1) ?bs"
    using k by (simp add: swap_loop.simps [of sz "Suc j" k])
  moreover have "swap_loop sz (Suc j) (k + 1) ?bs ! p =
    (if j * sz + (k + 1) \<le> p \<and> p < Suc j * sz then ?bs ! (p + sz)
     else if Suc j * sz + (k + 1) \<le> p \<and> p < Suc j * sz + sz then ?bs ! (p - sz) else ?bs ! p)"
    using Suc.hyps(1) [of "k + 1" ?bs] Suc.prems k by simp
  ultimately show ?case using ab k Suc.prems by (auto simp: nth_list_update intro!: arg_cong [where f = "(!) bytes"])
qed

lemma element_nth: "j * sz + sz \<le> length bytes \<Longrightarrow> i < sz \<Longrightarrow> element sz j bytes ! i = bytes ! (j * sz + i)"
  by (simp add: element_def)

lemma length_element: "j * sz + sz \<le> length bytes \<Longrightarrow> length (element sz j bytes) = sz"
  by (simp add: element_def)

lemma slot_le: "i < n \<Longrightarrow> i * sz + sz \<le> n * (sz :: nat)"
  using mult_le_mono1 [of "Suc i" n sz] by simp

text \<open>The byte loop exchanges two neighbouring elements and leaves the others alone.\<close>

lemma element_swap:
  assumes "length bytes = n * sz" "Suc j < n" "i < n"
  shows "element sz i (swap_loop sz (Suc j) 0 bytes) =
    element sz (if i = j then Suc j else if i = Suc j then j else i) bytes"
proof -
  define i' where "i' = (if i = j then Suc j else if i = Suc j then j else i)"
  have i': "i' < n" using assms(2,3) by (simp add: i'_def)
  have l: "i * sz + sz \<le> length bytes" "i' * sz + sz \<le> length bytes" "Suc j * sz + sz \<le> length bytes"
    using slot_le [of _ n sz] assms i' by (metis)+
  have "swap_loop sz (Suc j) 0 bytes ! (i * sz + q) = bytes ! (i' * sz + q)" if q: "q < sz" for q
  proof -
    have order: "i * sz + q < j * sz" if "i < j" using slot_le [OF that, of sz] q by simp
    have above: "Suc j * sz + sz \<le> i * sz + q" if "Suc j < i" using slot_le [OF that, of sz] by simp
    have "i * sz + q < length bytes" using l(1) q by simp
    from swap_loop_nth [OF this _ l(3), of 0] show ?thesis
      using order above q by (cases i j rule: linorder_cases; cases "i = Suc j") (auto simp: i'_def intro!: arg_cong [where f = "(!) bytes"])
  qed
  then show ?thesis unfolding i'_def [symmetric]
    using l by (intro nth_equalityI) (simp_all add: length_element element_nth)
qed

lemma elements_swap:
  assumes "length bytes = n * sz" "Suc j < n"
  shows "elements sz n (swap_loop sz (Suc j) 0 bytes) =
    (elements sz n bytes)[j := elements sz n bytes ! Suc j, Suc j := elements sz n bytes ! j]"
  by (rule nth_equalityI) (use assms in \<open>auto simp: elements_def element_swap [OF assms] nth_list_update\<close>)

lemma length_elements [simp]: "length (elements sz n bytes) = n"
  by (simp add: elements_def)

lemma length_sift_loop [simp]: "length (sift_loop cmp sz j bytes) = length bytes"
  by (induction cmp sz j bytes rule: sift_loop.induct) auto

lemma swap_mid: "(xs @ y # x # zs)[length xs := x, Suc (length xs) := y] = xs @ x # y # zs"
  by (induction xs) auto

text \<open>What the standard asks of a comparison function: a total, transitive order of the elements.\<close>

definition weak_order :: "(u8 list \<Rightarrow> u8 list \<Rightarrow> int) \<Rightarrow> bool" where
  "weak_order cmp \<longleftrightarrow> (\<forall>a b. cmp a b > 0 \<longrightarrow> cmp b a \<le> 0) \<and> (\<forall>a b c. cmp a b \<le> 0 \<longrightarrow> cmp b c \<le> 0 \<longrightarrow> cmp a c \<le> 0)"

lemma weak_orderD:
  "weak_order cmp \<Longrightarrow> cmp a b > 0 \<Longrightarrow> cmp b a \<le> 0"
  "weak_order cmp \<Longrightarrow> cmp a b \<le> 0 \<Longrightarrow> cmp b c \<le> 0 \<Longrightarrow> cmp a c \<le> 0"
  unfolding weak_order_def by blast+

text \<open>One pass moves the next element to its place among the sorted ones before it.\<close>

lemma sift_loop_elements:
  assumes "length bytes = n * sz" "elements sz n bytes = ys @ x # zs"
  shows "\<exists>us. elements sz n (sift_loop cmp sz (length ys) bytes) = us @ zs \<and> mset us = mset (x # ys) \<and>
    (weak_order cmp \<longrightarrow> sorted_wrt (\<lambda>a b. cmp a b \<le> 0) ys \<longrightarrow> sorted_wrt (\<lambda>a b. cmp a b \<le> 0) us)"
  using assms
proof (induction ys arbitrary: bytes zs rule: rev_induct)
  case Nil
  then show ?case by (intro exI [of _ "[x]"]) simp
next
  case (snoc y ys)
  let ?j = "length ys" and ?E = "elements sz n bytes"
  have n: "Suc ?j < n" using arg_cong [OF snoc.prems(2), of length] by simp
  have nth: "?E ! ?j = y" "?E ! Suc ?j = x" by (simp_all add: snoc.prems(2) nth_append)
  have el: "element sz ?j bytes = y" "element sz (Suc ?j) bytes = x" using nth n by (simp_all add: elements_def)
  show ?case
  proof (cases "cmp y x > 0")
    case True
    let ?b = "swap_loop sz (Suc ?j) 0 bytes"
    have "elements sz n ?b = ys @ x # y # zs"
      using elements_swap [OF snoc.prems(1) n] nth swap_mid [of ys y x zs] by (simp add: snoc.prems(2))
    from snoc.IH [OF _ this] snoc.prems(1) obtain us where us:
      "elements sz n (sift_loop cmp sz ?j ?b) = us @ y # zs" "mset us = mset (x # ys)"
      "weak_order cmp \<longrightarrow> sorted_wrt (\<lambda>a b. cmp a b \<le> 0) ys \<longrightarrow> sorted_wrt (\<lambda>a b. cmp a b \<le> 0) us" by auto
    have "set us = insert x (set ys)" using mset_eq_setD [OF us(2)] by simp
    then show ?thesis using us True el weak_orderD(1) [of cmp y x] by (intro exI [of _ "us @ [y]"]) (auto simp: sorted_wrt_append)
  next
    case False
    then have "sift_loop cmp sz (length (ys @ [y])) bytes = bytes" using el by simp
    moreover have "\<forall>a \<in> set ys. cmp a x \<le> 0"
      if "weak_order cmp" "\<forall>a \<in> set ys. cmp a y \<le> 0"
      using that False weak_orderD(2) by (meson not_less)
    ultimately show ?thesis using snoc.prems(2) False
      by (intro exI [of _ "ys @ [y, x]"]) (auto simp: sorted_wrt_append)
  qed
qed

lemma qsort_loop_elements:
  assumes "length bytes = n * sz" "i \<le> n" "sorted_wrt (\<lambda>a b. cmp a b \<le> 0) (take i (elements sz n bytes))" "weak_order cmp"
  shows "length (qsort_loop cmp sz i n bytes) = length bytes \<and>
    mset (elements sz n (qsort_loop cmp sz i n bytes)) = mset (elements sz n bytes) \<and>
    sorted_wrt (\<lambda>a b. cmp a b \<le> 0) (elements sz n (qsort_loop cmp sz i n bytes))"
  using assms(1-3)
proof (induction "n - i" arbitrary: i bytes)
  case 0
  then show ?case by (simp add: qsort_loop.simps)
next
  case (Suc k)
  let ?E = "elements sz n bytes" and ?b = "sift_loop cmp sz i bytes"
  have i: "i < n" "k = n - (i + 1)" using Suc.hyps(2) by auto
  have E: "?E = take i ?E @ ?E ! i # drop (Suc i) ?E" "length (take i ?E) = i" using i by (simp_all add: id_take_nth_drop)
  obtain us where us: "elements sz n ?b = us @ drop (Suc i) ?E" "mset us = mset (?E ! i # take i ?E)"
    "sorted_wrt (\<lambda>a b. cmp a b \<le> 0) us"
    using sift_loop_elements [OF Suc.prems(1) E(1), of cmp] assms(4) Suc.prems(3) E(2) by auto
  have "length us = Suc i" using us(2) E(2) by (metis size_mset length_Cons)
  then have "take (i + 1) (elements sz n ?b) = us" using us(1) by simp
  moreover have "mset (elements sz n ?b) = mset ?E" using us(1,2) arg_cong [OF E(1), of mset] by simp
  ultimately show ?case using Suc.hyps(1) [of "i + 1" ?b] i us(3) Suc.prems(1)
    by (simp add: qsort_loop.simps [of cmp sz i])
qed

text \<open>
  Binary search.  The elements are in order for the key: those the key comes after are in front of those it
  equals, and these in front of those it comes before.
\<close>

lemma bsearch_loop_correct:
  assumes "\<forall>i j. i < j \<and> j < n \<longrightarrow> (e i < 0 \<longrightarrow> e j < 0) \<and> (e j > 0 \<longrightarrow> e i > 0)" "\<And>i. e i = cmp (element sz i bytes)"
    "low \<le> high" "high \<le> n" "\<And>i. i < low \<Longrightarrow> e i > 0" "\<And>i. high \<le> i \<Longrightarrow> i < n \<Longrightarrow> e i < 0"
  shows "case bsearch_loop cmp sz bytes low high of
      None \<Rightarrow> \<forall>i < n. e i \<noteq> 0
    | Some p \<Rightarrow> \<exists>i < n. p = i * sz \<and> e i = 0"
  using assms(3-6)
proof (induction "high - low" arbitrary: low high rule: less_induct)
  case less
  show ?case
  proof (cases "low < high")
    case False
    then have "e i \<noteq> 0" if "i < n" for i using less.prems(3) [of i] less.prems(4) [of i] that by (cases "i < low") auto
    then show ?thesis using False by (simp add: bsearch_loop.simps)
  next
    case True
    let ?m = "low + (high - low) div 2"
    have m: "low \<le> ?m" "?m < high" "?m < n" using True less.prems(2) by auto
    consider "e ?m < 0" | "e ?m > 0" | "e ?m = 0" by linarith
    then show ?thesis
    proof cases
      case 1
      have "e i < 0" if "?m \<le> i" "i < n" for i using assms(1) [rule_format, of ?m i] 1 that by (cases "i = ?m") auto
      then show ?thesis using less.hyps [of ?m low] m less.prems 1 True assms(2) [of ?m]
        by (simp add: bsearch_loop.simps [of cmp sz bytes low] Let_def)
    next
      case 2
      have "e i > 0" if "i < ?m + 1" for i using assms(1) [rule_format, of i ?m] 2 that m(3) by (cases "i = ?m") auto
      moreover have "high - (?m + 1) < high - low" using m by linarith
      ultimately show ?thesis using less.hyps [of high "?m + 1"] m less.prems 2 True assms(2) [of ?m]
        by (simp add: bsearch_loop.simps [of cmp sz bytes low] Let_def)
    next
      case 3
      then show ?thesis using True m assms(2) [of ?m]
        by (auto simp: bsearch_loop.simps [of cmp sz bytes low] Let_def)
    qed
  qed
qed

section \<open>Properties\<close>

text \<open>
  C1: \<open>strtol\<close> and \<open>strtoll\<close> in base 10 on optional white space, an optional sign and at least one digit, ended
  by the terminator, return the number written, clamped to the 32-bit and the 64-bit range, and the address of the
  terminator; \<open>ERANGE\<close> is stored exactly when the number had to be clamped.
\<close>

theorem strtol_correct:
  assumes "cstr m s (ws @ sg @ ds)" "\<forall>w \<in> set ws. isspace w" "sg \<in> {[], [43], [45]}" "ds \<noteq> []" "\<forall>c \<in> set ds. decimal c"
  shows "let v = sign_of sg * int (number 10 0 ds); r = max LONG_MIN (min (uint LONG_MAX) v);
      r' = max LLONG_MIN (min (uint LLONG_MAX) v); e = s + of_nat (length (ws @ sg @ ds))
    in strtol m s 10 = Some (r, e, if r = v then None else Some ERANGE) \<and>
      strtoll m s 10 = Some (r', e, if r' = v then None else Some ERANGE)"
  using strtol_decimal [OF assms] strtoll_decimal [OF assms] by (simp only: Let_def)

theorem strtol_correct_witness:
  "strtol (\<lambda>x. if x = 0 then 32 else if x = 1 then 45 else if x = 2 then 52 else if x = 3 then 50 else 0) 0 10
     = Some (- 42, 4, None)"
  using strtol_correct [of "\<lambda>x. if x = 0 then 32 else if x = 1 then 45 else if x = 2 then 52 else if x = 3 then 50 else 0"
      0 "[32]" "[45]" "[52, 50]"]
  by (simp add: isspace_def decimal_def digit_value_def sign_of_def long_limits)

text \<open>
  C2: \<open>qsort\<close> with a comparison function that orders the elements totally leaves an array of the same size
  whose elements are those of the original in ascending order.
\<close>

theorem qsort_correct:
  assumes "length bytes = n * sz" "weak_order cmp"
  shows "length (qsort cmp bytes n sz) = length bytes \<and>
    mset (elements sz n (qsort cmp bytes n sz)) = mset (elements sz n bytes) \<and>
    sorted_wrt (\<lambda>a b. cmp a b \<le> 0) (elements sz n (qsort cmp bytes n sz))"
proof (cases "n = 0")
  case True
  then show ?thesis using assms by (simp add: qsort_def qsort_loop.simps elements_def)
next
  case False
  have "sorted_wrt (\<lambda>a b. cmp a b \<le> 0) (take 1 (elements sz n bytes))" by (cases "elements sz n bytes") simp_all
  then show ?thesis using qsort_loop_elements [OF assms(1) _ _ assms(2)] False by (simp add: qsort_def)
qed

theorem qsort_correct_witness:
  "elements 1 3 (qsort (\<lambda>a b. uint (hd a) - uint (hd b)) [3, 1, 2] 3 1) = [[1], [2], [3]] \<and>
   sorted_wrt (\<lambda>a b. uint (hd a) - uint (hd b) \<le> 0) (elements 1 3 (qsort (\<lambda>a b. uint (hd a) - uint (hd b)) [3, 1, 2] 3 1))"
proof -
  have w: "weak_order (\<lambda>a b. uint (hd a) - uint (hd b))" by (auto simp: weak_order_def)
  have "qsort (\<lambda>a b. uint (hd a) - uint (hd b)) [3, 1, 2] 3 1 = [1, 2, 3]" by code_simp
  then show ?thesis using qsort_correct [of "[3, 1, 2]" 3 1, OF _ w] by (simp add: elements_def element_def upt_rec)
qed

end
