(* ===== verification/Cpio.thy ===== *)
theory Cpio
  imports Prelude
begin

text \<open>
  Lookup of a file in the boot archive, \<^verbatim>\<open>packages/gdoslib-dev/cpio.c\<close>.  The archive is the list of its bytes
  and \<open>None\<close> is a read outside it.  The sizes in a header are eight hexadecimal digits, so for an archive that
  fits in memory no sum below reaches $2^{64}$ and offsets are natural numbers.
\<close>

section \<open>The archive\<close>

definition CPIO_HDR_SIZE :: nat where "CPIO_HDR_SIZE = 110"
definition CPIO_FILESIZE_OFF :: nat where "CPIO_FILESIZE_OFF = 54"
definition CPIO_NAMESIZE_OFF :: nat where "CPIO_NAMESIZE_OFF = 94"

definition align4 :: "nat \<Rightarrow> nat" where "align4 v = (v + 3) div 4 * 4"

text \<open>\<open>None\<close> is the result for a character that is not a digit.\<close>

primrec hex_loop :: "nat \<Rightarrow> u8 list \<Rightarrow> nat option" where
  "hex_loop v [] = Some v"
| "hex_loop v (c # cs) =
     (if c \<ge> 48 \<and> c \<le> 57 then hex_loop (v * 16 + (unat c - 48)) cs
      else if c \<ge> 97 \<and> c \<le> 102 then hex_loop (v * 16 + (unat c - 97 + 10)) cs
      else if c \<ge> 65 \<and> c \<le> 70 then hex_loop (v * 16 + (unat c - 65 + 10)) cs
      else None)"

definition hex8 :: "u8 list \<Rightarrow> nat \<Rightarrow> nat option" where
  "hex8 a p = hex_loop 0 (take 8 (drop p a))"

definition magic_ok :: "u8 list \<Rightarrow> nat \<Rightarrow> bool" where
  "magic_ok a off \<longleftrightarrow> a ! off = 48 \<and> a ! (off + 1) = 55 \<and> a ! (off + 2) = 48 \<and> a ! (off + 3) = 55 \<and>
     a ! (off + 4) = 48 \<and> (a ! (off + 5) = 49 \<or> a ! (off + 5) = 50)"

text \<open>\<open>strcmp\<close> of the bytes at an offset and a name given without its terminator.\<close>

function strcmp_at :: "u8 list \<Rightarrow> nat \<Rightarrow> u8 list \<Rightarrow> int option" where
  "strcmp_at a p name =
     (if length a \<le> p then None
      else let x = a ! p; y = (case name of [] \<Rightarrow> 0 | c # _ \<Rightarrow> c)
           in if x \<noteq> 0 \<and> x = y then strcmp_at a (p + 1) (tl name) else Some (uint x - uint y))"
  by pat_completeness auto
termination
  by (relation "measure (\<lambda>(a, p, _). length a - p)") auto

definition TRAILER :: "u8 list" where
  "TRAILER = [84, 82, 65, 73, 76, 69, 82, 33, 33, 33]"

text \<open>The offset and size of the member's data, or that there is none.\<close>

function cpio_loop :: "u8 list \<Rightarrow> u8 list \<Rightarrow> nat \<Rightarrow> (nat \<times> nat) option option" where
  "cpio_loop a name off =
     (if off + CPIO_HDR_SIZE \<le> length a then
        if \<not> magic_ok a off then Some None
        else case (hex8 a (off + CPIO_FILESIZE_OFF), hex8 a (off + CPIO_NAMESIZE_OFF)) of
          (Some file_size, Some name_size) \<Rightarrow>
            if off + CPIO_HDR_SIZE + name_size > length a then Some None
            else do {
              trailer \<leftarrow> strcmp_at a (off + CPIO_HDR_SIZE) TRAILER;
              if trailer = 0 then Some None
              else
                let data_off = align4 (CPIO_HDR_SIZE + name_size)
                in if off + data_off + file_size > length a then Some None
                   else do {
                     here \<leftarrow> strcmp_at a (off + CPIO_HDR_SIZE) name;
                     if here = 0 then Some (Some (off + data_off, file_size))
                     else cpio_loop a name (off + align4 (data_off + file_size))
                   }
            }
        | _ \<Rightarrow> Some None
      else Some None)"
  by pat_completeness auto
termination
  by (relation "measure (\<lambda>(a, _, off). length a - off)") (auto simp: align4_def CPIO_HDR_SIZE_def)

definition cpio_find :: "u8 list \<Rightarrow> u8 list \<Rightarrow> (nat \<times> nat) option option" where
  "cpio_find a name = cpio_loop a name 0"

declare strcmp_at.simps [simp del] cpio_loop.simps [simp del]

section \<open>Comparing names\<close>

lemma strcmp_at_terminated:
  assumes "p \<le> q" "q < length a" "a ! q = 0"
  shows "\<exists>r. strcmp_at a p name = Some r"
  using assms(1)
proof (induction "q - p" arbitrary: p name)
  case 0
  then show ?case using assms(2,3) by (simp add: strcmp_at.simps [of a p] Let_def)
next
  case (Suc k)
  then show ?case using Suc.hyps(1) [of "p + 1"] assms(2) by (simp add: strcmp_at.simps [of a p] Let_def)
qed

lemma strcmp_at_equal:
  "strcmp_at a p name = Some 0 \<Longrightarrow> 0 \<notin> set name \<Longrightarrow> take (Suc (length name)) (drop p a) = name @ [0]"
proof (induction name arbitrary: p)
  case Nil
  then show ?case
    by (auto simp: strcmp_at.simps [of a p] Let_def take_Suc_conv_app_nth word_uint_eq_iff split: if_splits)
next
  case (Cons c cs)
  have p: "p < length a" using Cons.prems(1) by (auto simp: strcmp_at.simps [of a p] split: if_splits)
  have "a ! p = c" "strcmp_at a (p + 1) cs = Some 0"
    using Cons.prems by (auto simp: strcmp_at.simps [of a p] Let_def word_uint_eq_iff split: if_splits)
  then show ?case using Cons.IH [of "p + 1"] Cons.prems(2) p by (simp add: Cons_nth_drop_Suc [symmetric])
qed

section \<open>Finding a member\<close>

text \<open>A member at an offset, with its name and the place of its data; all of it lies in the archive.\<close>

definition member_at :: "u8 list \<Rightarrow> nat \<Rightarrow> u8 list \<Rightarrow> nat \<Rightarrow> nat \<Rightarrow> bool" where
  "member_at a off name d n \<longleftrightarrow> off + CPIO_HDR_SIZE \<le> length a \<and> magic_ok a off \<and> hex8 a (off + CPIO_FILESIZE_OFF) = Some n \<and>
     (case hex8 a (off + CPIO_NAMESIZE_OFF) of None \<Rightarrow> False | Some ns \<Rightarrow> d = off + align4 (CPIO_HDR_SIZE + ns)) \<and>
     d + n \<le> length a \<and> take (Suc (length name)) (drop (off + CPIO_HDR_SIZE) a) = name @ [0]"

text \<open>What the archive format promises: the size of a name counts its terminator.\<close>

definition names_terminated :: "u8 list \<Rightarrow> bool" where
  "names_terminated a \<longleftrightarrow> list_all (\<lambda>off. magic_ok a off \<longrightarrow>
     (case hex8 a (off + CPIO_NAMESIZE_OFF) of None \<Rightarrow> True
      | Some ns \<Rightarrow> off + CPIO_HDR_SIZE + ns \<le> length a \<longrightarrow> list_ex (\<lambda>q. a ! (off + CPIO_HDR_SIZE + q) = 0) [0 ..< ns]))
     [0 ..< length a]"

lemma name_ends:
  assumes "names_terminated a" "magic_ok a off" "hex8 a (off + CPIO_NAMESIZE_OFF) = Some ns" "off + CPIO_HDR_SIZE + ns \<le> length a"
  shows "\<exists>r. strcmp_at a (off + CPIO_HDR_SIZE) name = Some r"
proof -
  have "off < length a" using assms(4) by (simp add: CPIO_HDR_SIZE_def)
  then obtain q where "q < ns" "a ! (off + CPIO_HDR_SIZE + q) = 0" using assms by (fastforce simp: names_terminated_def list_all_iff list_ex_iff)
  then show ?thesis using strcmp_at_terminated [of "off + CPIO_HDR_SIZE" "off + CPIO_HDR_SIZE + q" a] assms(4) by simp
qed

lemma cpio_loop_SomeE:
  assumes "cpio_loop a name off = Some (Some (d, n))"
  obtains fs ns h where "off + CPIO_HDR_SIZE \<le> length a" "magic_ok a off" "hex8 a (off + CPIO_FILESIZE_OFF) = Some fs"
    "hex8 a (off + CPIO_NAMESIZE_OFF) = Some ns" "off + align4 (CPIO_HDR_SIZE + ns) + fs \<le> length a"
    "strcmp_at a (off + CPIO_HDR_SIZE) name = Some h"
    "h = 0 \<and> d = off + align4 (CPIO_HDR_SIZE + ns) \<and> n = fs \<or>
     cpio_loop a name (off + align4 (align4 (CPIO_HDR_SIZE + ns) + fs)) = Some (Some (d, n))"
  using assms
  by (auto simp: cpio_loop.simps [of a name off] Let_def bind_eq_Some_conv split: if_splits option.splits)

lemma align4_pos: "0 < v \<Longrightarrow> 0 < align4 v"
  by (auto simp: align4_def)

lemma next_off: "off + CPIO_HDR_SIZE \<le> length a \<Longrightarrow> length a - (off + align4 (align4 (CPIO_HDR_SIZE + ns) + fs)) < length a - off"
  using align4_pos [of "align4 (CPIO_HDR_SIZE + ns) + fs"] align4_pos [of "CPIO_HDR_SIZE + ns"] by (simp add: CPIO_HDR_SIZE_def)

lemma cpio_loop_member:
  "cpio_loop a name off = Some (Some (d, n)) \<Longrightarrow> 0 \<notin> set name \<Longrightarrow> \<exists>h. member_at a h name d n"
proof (induction "length a - off" arbitrary: off rule: less_induct)
  case less
  from less.prems(1) obtain fs ns h where f: "off + CPIO_HDR_SIZE \<le> length a" "magic_ok a off"
    "hex8 a (off + CPIO_FILESIZE_OFF) = Some fs" "hex8 a (off + CPIO_NAMESIZE_OFF) = Some ns"
    "off + align4 (CPIO_HDR_SIZE + ns) + fs \<le> length a" "strcmp_at a (off + CPIO_HDR_SIZE) name = Some h"
    "h = 0 \<and> d = off + align4 (CPIO_HDR_SIZE + ns) \<and> n = fs \<or>
     cpio_loop a name (off + align4 (align4 (CPIO_HDR_SIZE + ns) + fs)) = Some (Some (d, n))"
    by (rule cpio_loop_SomeE)
  from f(7) show ?case
  proof
    assume e: "h = 0 \<and> d = off + align4 (CPIO_HDR_SIZE + ns) \<and> n = fs"
    then have "take (Suc (length name)) (drop (off + CPIO_HDR_SIZE) a) = name @ [0]"
      using strcmp_at_equal f(6) less.prems(2) by blast
    then have "member_at a off name d n" using f e by (simp add: member_at_def)
    then show ?thesis ..
  next
    assume "cpio_loop a name (off + align4 (align4 (CPIO_HDR_SIZE + ns) + fs)) = Some (Some (d, n))"
    then show ?thesis using less.hyps next_off [OF f(1)] less.prems(2) by blast
  qed
qed

lemma cpio_loop_returns:
  assumes "names_terminated a"
  shows "\<exists>r. cpio_loop a name off = Some r"
proof (induction "length a - off" arbitrary: off rule: less_induct)
  case less
  show ?case
  proof (cases "off + CPIO_HDR_SIZE \<le> length a \<and> magic_ok a off")
    case False
    then show ?thesis by (auto simp: cpio_loop.simps [of a name off])
  next
    case True
    show ?thesis
    proof (cases "hex8 a (off + CPIO_FILESIZE_OFF) = None \<or> hex8 a (off + CPIO_NAMESIZE_OFF) = None")
      case True
      then show ?thesis by (auto simp: cpio_loop.simps [of a name off] split: option.split)
    next
      case False
      then obtain fs ns where s: "hex8 a (off + CPIO_FILESIZE_OFF) = Some fs" "hex8 a (off + CPIO_NAMESIZE_OFF) = Some ns" by auto
      obtain r where "cpio_loop a name (off + align4 (align4 (CPIO_HDR_SIZE + ns) + fs)) = Some r"
        using less.hyps next_off True by blast
      moreover obtain t h where "strcmp_at a (off + CPIO_HDR_SIZE) TRAILER = Some t" "strcmp_at a (off + CPIO_HDR_SIZE) name = Some h"
        if "off + CPIO_HDR_SIZE + ns \<le> length a"
        using name_ends [OF assms _ s(2), of TRAILER] name_ends [OF assms _ s(2), of name] True by blast
      ultimately show ?thesis using True s by (auto simp: cpio_loop.simps [of a name off] Let_def not_less)
    qed
  qed
qed

section \<open>Properties\<close>

text \<open>
  C1: Looking up a name in an archive whose member names are terminated always returns, and what it returns is
  inside the archive: the data of a member that has the name, with the size its header gives.
\<close>

theorem cpio_find_correct:
  assumes "names_terminated a" "0 \<notin> set name"
  shows "\<exists>r. cpio_find a name = Some r \<and>
    (case r of None \<Rightarrow> True | Some (d, n) \<Rightarrow> d + n \<le> length a \<and> (\<exists>off. member_at a off name d n))"
proof -
  obtain r where r: "cpio_loop a name 0 = Some r" using cpio_loop_returns [OF assms(1)] by blast
  have "d + n \<le> length a \<and> (\<exists>off. member_at a off name d n)" if "r = Some (d, n)" for d n
    using cpio_loop_member [OF r [unfolded that] assms(2)] by (auto simp: member_at_def)
  then show ?thesis using r by (auto simp: cpio_find_def split: option.split)
qed

text \<open>An archive with one member \<open>a\<close> of two bytes.\<close>

definition small_archive :: "u8 list" where
  "small_archive = [48, 55, 48, 55, 48, 49,
     48, 48, 48, 48, 48, 48, 48, 48,
     48, 48, 48, 48, 48, 48, 48, 48,
     48, 48, 48, 48, 48, 48, 48, 48,
     48, 48, 48, 48, 48, 48, 48, 48,
     48, 48, 48, 48, 48, 48, 48, 48,
     48, 48, 48, 48, 48, 48, 48, 48,
     48, 48, 48, 48, 48, 48, 48, 50,
     48, 48, 48, 48, 48, 48, 48, 48,
     48, 48, 48, 48, 48, 48, 48, 48,
     48, 48, 48, 48, 48, 48, 48, 48,
     48, 48, 48, 48, 48, 48, 48, 48,
     48, 48, 48, 48, 48, 48, 48, 50,
     48, 48, 48, 48, 48, 48, 48, 48,
     97, 0, 120, 121]"

lemma small_length: "length small_archive = 114"
  by (simp add: small_archive_def)

lemma small_fields: "magic_ok small_archive 0" "hex8 small_archive 54 = Some 2" "hex8 small_archive 94 = Some 2"
  by (simp_all add: magic_ok_def hex8_def small_archive_def)

lemma small_names: "strcmp_at small_archive 110 [97] = Some 0" "strcmp_at small_archive 110 TRAILER = Some 13"
proof -
  have n: "small_archive ! 110 = 97" "small_archive ! 111 = 0" by (simp_all add: small_archive_def)
  show "strcmp_at small_archive 110 [97] = Some 0"
    by (simp add: strcmp_at.simps [of _ 110] strcmp_at.simps [of _ 111] small_length n)
  show "strcmp_at small_archive 110 TRAILER = Some 13"
    by (simp add: strcmp_at.simps [of _ 110] small_length n TRAILER_def)
qed

lemma small_magic: "off < 114 \<Longrightarrow> magic_ok small_archive off \<Longrightarrow> off = 0"
proof -
  assume o: "off < 114" "magic_ok small_archive off"
  have "small_archive ! off = 48" "small_archive ! (off + 1) = 55" "small_archive ! (off + 3) = 55" using o(2) by (simp_all add: magic_ok_def)
  moreover have only: "i = 1 \<or> i = 3" if "i < 114" "small_archive ! i = 55" for i
    using that by (auto simp: small_archive_def nth_Cons' split: if_splits)
  moreover have "small_archive ! 113 = 121" "small_archive ! 5 = 49" by (simp_all add: small_archive_def)
  ultimately have "off \<noteq> 113" "off \<noteq> 2" "off + 1 < 114 \<Longrightarrow> off + 1 = 1 \<or> off + 1 = 3"
    using only [of "off + 1"] by auto
  then show ?thesis using o(1) by linarith
qed

lemma small_find: "cpio_find small_archive [97] = Some (Some (112, 2))"
  using small_fields small_names
  by (simp add: cpio_find_def cpio_loop.simps [of _ _ 0] small_length CPIO_HDR_SIZE_def CPIO_FILESIZE_OFF_def CPIO_NAMESIZE_OFF_def align4_def)

theorem cpio_find_correct_witness:
  "names_terminated small_archive \<and> (\<exists>r. cpio_find small_archive [97] = Some r \<and> r = Some (112, 2) \<and> 112 + 2 \<le> length small_archive)"
proof -
  have nul: "small_archive ! 111 = 0" by (simp add: small_archive_def)
  have w: "names_terminated small_archive"
    unfolding names_terminated_def list_all_iff
  proof (intro ballI impI)
    fix off
    assume "off \<in> set [0 ..< length small_archive]" "magic_ok small_archive off"
    then have "off = 0" using small_magic by (simp add: small_length)
    then show "case hex8 small_archive (off + CPIO_NAMESIZE_OFF) of None \<Rightarrow> True
      | Some ns \<Rightarrow> off + CPIO_HDR_SIZE + ns \<le> length small_archive \<longrightarrow>
          list_ex (\<lambda>q. small_archive ! (off + CPIO_HDR_SIZE + q) = 0) [0 ..< ns]"
      using small_fields(3) nul by (simp add: CPIO_NAMESIZE_OFF_def CPIO_HDR_SIZE_def upt_rec)
  qed
  show ?thesis using w small_find cpio_find_correct [OF w, of "[97]"] by simp
qed

text \<open>A header at the very end of the archive with an empty name: the comparison of the name reads past the end.\<close>

definition cut_archive :: "u8 list" where
  "cut_archive = [48, 55, 48, 55, 48, 49,
     48, 48, 48, 48, 48, 48, 48, 48,
     48, 48, 48, 48, 48, 48, 48, 48,
     48, 48, 48, 48, 48, 48, 48, 48,
     48, 48, 48, 48, 48, 48, 48, 48,
     48, 48, 48, 48, 48, 48, 48, 48,
     48, 48, 48, 48, 48, 48, 48, 48,
     48, 48, 48, 48, 48, 48, 48, 48,
     48, 48, 48, 48, 48, 48, 48, 48,
     48, 48, 48, 48, 48, 48, 48, 48,
     48, 48, 48, 48, 48, 48, 48, 48,
     48, 48, 48, 48, 48, 48, 48, 48,
     48, 48, 48, 48, 48, 48, 48, 48,
     48, 48, 48, 48, 48, 48, 48, 48]"

lemma cpio_find_overread: "cpio_find cut_archive [97] = None"
proof -
  have "magic_ok cut_archive 0" "hex8 cut_archive 54 = Some 0" "hex8 cut_archive 94 = Some 0" "length cut_archive = 110"
    by (simp_all add: magic_ok_def hex8_def cut_archive_def)
  then show ?thesis
    by (simp add: cpio_find_def cpio_loop.simps [of _ _ 0] CPIO_HDR_SIZE_def CPIO_FILESIZE_OFF_def CPIO_NAMESIZE_OFF_def
        strcmp_at.simps [of _ 110])
qed

end
