(* ===== verification/Kring_Client.thy ===== *)
theory Kring_Client
  imports Ring_Correct
begin

text \<open>
  The user side of kernel channels, \<^verbatim>\<open>packages/gdoslib-dev/kring.c\<close>: the geometry and the two user-owned indices of
  a ring, taking submission slots, the doorbell, and consuming completions.  A program touches its own block with
  the loads and stores of \<open>Kernel_State\<close>, and the doorbell is the futex system call of \<open>Futex_Sys\<close>.  Waiting for
  a completion parks the thread; \<open>kring_poll\<close> is what \<open>kring_wait_cqe\<close> does each time it runs.
\<close>

section \<open>The client\<close>

record kring =
  kr_base :: u64
  kr_nslots :: u32
  kr_sq_tail :: u32
  kr_cq_head :: u32

definition sys_iserr :: "u64 \<Rightarrow> bool" where
  "sys_iserr v \<longleftrightarrow> v \<ge> - 4096"

definition kring_attach :: "u64 \<Rightarrow> kernel \<Rightarrow> kring option" where
  "kring_attach base k = do {
     nslots \<leftarrow> load32 k (base + KRING_NSLOTS_OFF);
     sq_tail \<leftarrow> load32 k (base + KRING_SQ_TAIL_OFF);
     head \<leftarrow> load32 k (base + KRING_CQ_HEAD_OFF);
     Some \<lparr>kr_base = base, kr_nslots = nslots, kr_sq_tail = sq_tail, kr_cq_head = head\<rparr>
   }"

definition kring_get_sqe :: "kring \<Rightarrow> kernel \<Rightarrow> (u64 option \<times> kring) option" where
  "kring_get_sqe r k = do {
     consumed \<leftarrow> load32 k (kr_base r + KRING_SQ_HEAD_OFF);
     if kr_sq_tail r - consumed \<ge> kr_nslots r then Some (None, r)
     else Some (Some (sq_of (kr_base r) + ucast (kr_sq_tail r mod kr_nslots r) * 32), r\<lparr>kr_sq_tail := kr_sq_tail r + 1\<rparr>)
   }"

text \<open>Ring the doorbell until the kernel has taken everything that was published.\<close>

partial_function (option) doorbell_loop :: "u64 \<Rightarrow> kring \<Rightarrow> kernel \<Rightarrow> (u64 \<times> kernel) option" where
  "doorbell_loop me r k = do {
     w \<leftarrow> futex_sys_wake me (kr_base r) 1 k;
     if sys_iserr (fst w) then Some w
     else do {
       head \<leftarrow> load32 (snd w) (kr_base r + KRING_SQ_HEAD_OFF);
       if head \<noteq> kr_sq_tail r then doorbell_loop me r (snd w) else Some w
     }
   }"

definition kring_submit :: "u64 \<Rightarrow> kring \<Rightarrow> kernel \<Rightarrow> (u64 \<times> kernel) option" where
  "kring_submit me r k = do {
     k \<leftarrow> store32 (kr_base r + KRING_SQ_TAIL_OFF) (kr_sq_tail r) k;
     (rc, k) \<leftarrow> doorbell_loop me r k;
     Some (if sys_iserr rc then rc else 0, k)
   }"

definition kring_peek_cqe :: "kring \<Rightarrow> kernel \<Rightarrow> u64 option option" where
  "kring_peek_cqe r k = do {
     posted \<leftarrow> load32 k (kr_base r + KRING_CQ_COUNT_OFF);
     Some (if posted = kr_cq_head r then None
           else Some (cq_of (kr_base r) (kr_nslots r) + ucast (kr_cq_head r mod kr_nslots r) * 32))
   }"

definition kring_cqe_seen :: "kring \<Rightarrow> kring" where
  "kring_cqe_seen r = r\<lparr>kr_cq_head := kr_cq_head r + 1\<rparr>"

definition kcqe_of_bytes :: "u8 list \<Rightarrow> kcqe" where
  "kcqe_of_bytes bs = \<lparr>cq_type = le_word (take 8 bs), cq_a = le_word (take 8 (drop 8 bs)),
     cq_b = le_word (take 8 (drop 16 bs)), cq_status = le_word (take 8 (drop 24 bs))\<rparr>"

definition kring_poll :: "kring \<Rightarrow> kernel \<Rightarrow> (kcqe option \<times> kring) option" where
  "kring_poll r k = do {
     c \<leftarrow> kring_peek_cqe r k;
     (case c of
        None \<Rightarrow> Some (None, r)
      | Some p \<Rightarrow> do {
          bs \<leftarrow> load_bytes k p 32;
          Some (Some (kcqe_of_bytes bs), kring_cqe_seen r)
        })
   }"

definition kring_publish_head :: "kring \<Rightarrow> kernel \<Rightarrow> kernel option" where
  "kring_publish_head r = store32 (kr_base r + KRING_CQ_HEAD_OFF) (kr_cq_head r)"

definition kring_ack :: "u64 \<Rightarrow> kring \<Rightarrow> kernel \<Rightarrow> (u64 \<times> kernel) option" where
  "kring_ack me r k = do {
     k \<leftarrow> kring_publish_head r k;
     (rc, k) \<leftarrow> futex_sys_wake me (kr_base r) 1 k;
     Some (if sys_iserr rc then rc else 0, k)
   }"

definition store_ksqe :: "u64 \<Rightarrow> ksqe \<Rightarrow> kernel \<Rightarrow> kernel option" where
  "store_ksqe p s = store_bytes p (le_bytes 8 (sq_op s) @ le_bytes 8 (sq_a s) @ le_bytes 8 (sq_b s) @ le_bytes 8 (sq_c s))"

definition irq_submit :: "u64 \<Rightarrow> kring \<Rightarrow> u64 \<Rightarrow> u64 \<Rightarrow> u64 \<Rightarrow> kernel \<Rightarrow> (u64 \<times> kring \<times> kernel) option" where
  "irq_submit me r op a b k = do {
     (sqe, r) \<leftarrow> kring_get_sqe r k;
     (case sqe of
        None \<Rightarrow> Some (SYSERR_AGAIN, r, k)
      | Some p \<Rightarrow> do {
          k \<leftarrow> store_ksqe p \<lparr>sq_op = op, sq_a = a, sq_b = b, sq_c = 0\<rparr> k;
          (rc, k) \<leftarrow> kring_submit me r k;
          Some (rc, r, k)
        })
   }"

definition data_off :: "kring \<Rightarrow> u64" where
  "data_off r = KRING_HDR_SIZE + ucast (kr_nslots r) * (32 + 32)"

section \<open>Consuming\<close>

lemma kcqe_round_trip: "kcqe_of_bytes (kcqe_bytes e) = e"
  by (simp add: kcqe_of_bytes_def kcqe_bytes_def)

text \<open>The client and the ring agree on the geometry, and the client has acknowledged what it consumed.\<close>

definition attached :: "kring \<Rightarrow> u64 \<Rightarrow> ring \<Rightarrow> kernel \<Rightarrow> bool" where
  "attached c base r k \<longleftrightarrow> kr_base c = base \<and> kr_nslots c = r_nslots r \<and> kr_cq_head c = cq_head k base"

lemma load_slot:
  assumes "kaccess k (base + of_nat (cqe_off n i)) 32"
  shows "load_bytes k (base + of_nat (cqe_off n i)) 32 = Some (cqe_at k base n i)"
  using assms by (simp add: load_bytes_def cqe_at_def add.assoc)

lemma pending_hd:
  assumes "r_cq_count r \<noteq> cq_head k base"
  shows "pending k base r \<noteq> []" "hd (pending k base r) = cqe_at k base (r_nslots r) (cq_head k base)"
proof -
  have "0 < unat (r_cq_count r - cq_head k base)" using assms by (simp add: unat_gt_0)
  then show "pending k base r \<noteq> []" "hd (pending k base r) = cqe_at k base (r_nslots r) (cq_head k base)"
    by (simp_all add: pending_def hd_map)
qed

lemma poll_pending:
  assumes "attached c base r k" "load32 k (base + KRING_CQ_COUNT_OFF) = Some (r_cq_count r)"
    "kaccess k (base + of_nat (cqe_off (r_nslots r) (cq_head k base))) 32"
  shows "kring_poll c k = Some (if pending k base r = [] then (None, c)
    else (Some (kcqe_of_bytes (hd (pending k base r))), kring_cqe_seen c))"
proof (cases "r_cq_count r = cq_head k base")
  case True
  then show ?thesis using assms(1,2) by (simp add: kring_poll_def kring_peek_cqe_def attached_def pending_def)
next
  case False
  then show ?thesis using assms pending_hd [OF False] load_slot [OF assms(3)]
    by (simp add: kring_poll_def kring_peek_cqe_def attached_def cq_slot)
qed

text \<open>Publishing the advanced head takes the first entry off the queue.\<close>

lemma cqe_off_bounds: "n = KRING_NSLOTS order \<Longrightarrow> order \<le> 26 \<Longrightarrow> 64 \<le> cqe_off n i \<and> cqe_off n i + 32 < 2 ^ 64"
proof -
  assume n: "n = KRING_NSLOTS order" "order \<le> 26"
  have "(2 :: nat) ^ (order + 5) \<le> 2 ^ 31" using n(2) by (intro power_increasing) auto
  then show ?thesis using slot_less [OF n(2), of i] unat_NSLOTS [OF n(2)] by (simp add: cqe_off_def n(1))
qed

lemma publish_pending:
  assumes "attached c base r k" "pending k base r \<noteq> []" "r_nslots r = KRING_NSLOTS order" "order \<le> 26"
    "kring_publish_head (kring_cqe_seen c) k = Some k'"
  shows "pending k' base r = tl (pending k base r)" "ring_of k' base = ring_of k base"
proof -
  let ?h = "cq_head k base" and ?n = "r_nslots r"
  have s: "store_bytes (base + of_nat 4) (le_bytes 4 (?h + 1)) k = Some k'"
    using assms(1,5) by (simp add: kring_publish_head_def store32_def kring_cqe_seen_def attached_def KRING_CQ_HEAD_OFF_def)
  show "ring_of k' base = ring_of k base" using store_bytes_blocks [OF s] by (simp add: ring_of_def block_def)
  have m: "g_mem k' (base + of_nat y) = (if 4 \<le> y \<and> y < 8 then le_bytes 4 (?h + 1) ! (y - 4) else g_mem k (base + of_nat y))"
    if "y < 2 ^ 64" for y using store_at [OF s _ that] by simp
  have "map (\<lambda>j. g_mem k' (base + of_nat (4 + j))) [0 ..< 4] = le_bytes 4 (?h + 1)"
    by (intro nth_equalityI) (simp_all add: m del: of_nat_add)
  then have head: "cq_head k' base = ?h + 1" by (simp only: cq_head_def le_word_u32)
  have at: "cqe_at k' base ?n i = cqe_at k base ?n i" for i
    using cqe_off_bounds [OF assms(3,4), of i] by (auto simp: cqe_at_def m simp del: of_nat_add)
  define l where "l = unat (r_cq_count r - ?h)"
  have l: "0 < l" using assms(2) by (auto simp: pending_def l_def)
  have "unat (r_cq_count r - (?h + 1)) = l - 1"
  proof -
    have "1 \<le> r_cq_count r - ?h" using l by (simp add: l_def word_le_nat_alt)
    then have "unat (r_cq_count r - ?h - 1) = l - 1" by (simp add: unat_sub l_def)
    then show ?thesis by (simp add: diff_diff_eq)
  qed
  then have "pending k' base r = map (\<lambda>d. cqe_at k base ?n (?h + of_nat (Suc d))) [0 ..< l - 1]"
    by (simp add: pending_def head at add.assoc)
  also have "\<dots> = map (\<lambda>d. cqe_at k base ?n (?h + of_nat d)) [1 ..< l]"
    using map_Suc_upt [of 0 "l - 1"] l by (intro nth_equalityI) simp_all
  also have "\<dots> = tl (pending k base r)" using l by (simp add: pending_def map_tl [symmetric] flip: l_def)
  finally show "pending k' base r = tl (pending k base r)" .
qed

text \<open>A posted entry leaves the new count in the header.\<close>

lemma posted_count:
  assumes "ring_of k base = Some r" "r_nslots r = KRING_NSLOTS order" "order \<le> 26" "ring_post_locked base e k = Some (True, k')"
    "kaccess k' base 4"
  shows "load32 k' (base + KRING_CQ_COUNT_OFF) = Some (r_cq_count r + 1)"
proof -
  have "map (\<lambda>i. g_mem k' (base + of_nat i)) [0 ..< 4] = le_bytes 4 (r_cq_count r + 1)"
    using ring_post_memory(3) [OF assms(1-4)] by (intro nth_equalityI) simp_all
  then show ?thesis using assms(5) by (simp add: load32_def load_bytes_def KRING_CQ_COUNT_OFF_def)
qed

lemma posted_head:
  assumes "ring_of k base = Some r" "r_nslots r = KRING_NSLOTS order" "order \<le> 26" "ring_post_locked base e k = Some (True, k')"
  shows "cq_head k' base = cq_head k base"
  using ring_post_memory(3) [OF assms] cqe_off_bounds [OF assms(2,3), of "r_cq_count r"]
  by (auto simp: cq_head_def simp del: of_nat_add intro!: arg_cong [where f = le_word])

end
