(* ===== verification/Spec2Isabelle.thy ===== *)
theory Spec2Isabelle
  imports Llrb_Map Allocator Tlb Syscall Futex_Park Kernel_Step Ring_Correct View_Refine Pthread_Mutex Libc_Stdlib Cpio Kring_Client
begin

text \<open>
  A verification library for the govinDOS kernel.
\<close>

section \<open>From the kernel to the program\<close>

text \<open>
  C1: Delivery of completions.  When the kernel posts an entry to a channel, the program at the other end, which
  has acknowledged what it consumed so far, next reads the oldest entry not consumed yet, decoded from the bytes
  the kernel wrote; it is the posted one when nothing else was pending.  Publishing the advanced head takes
  exactly that entry off the queue.
\<close>

theorem channel_delivers:
  assumes "ring_of k base = Some r" "r_nslots r = KRING_NSLOTS order" "order \<le> 26" "attached c base r k"
    "ring_post_locked base e k = Some (True, k')" "kaccess k' base 4"
    "kaccess k' (base + of_nat (cqe_off (r_nslots r) (cq_head k base))) 32"
  shows "let q = pending k base r @ [kcqe_bytes e]
    in kring_poll c k' = Some (Some (kcqe_of_bytes (hd q)), kring_cqe_seen c) \<and>
      (pending k base r = [] \<longrightarrow> kcqe_of_bytes (hd q) = e) \<and>
      (\<forall>k''. kring_publish_head (kring_cqe_seen c) k' = Some k'' \<longrightarrow>
        (\<exists>r'. ring_of k'' base = Some r' \<and> pending k'' base r' = tl q))"
proof -
  let ?r = "r\<lparr>r_cq_count := r_cq_count r + 1\<rparr>"
  note post = assms(1-3,5)
  have q: "pending k' base ?r = pending k base r @ [kcqe_bytes e]" by (rule ring_post_pending [OF post])
  have a: "attached c base ?r k'" using assms(4) posted_head [OF post] by (simp add: attached_def)
  have poll: "kring_poll c k' = Some (Some (kcqe_of_bytes (hd (pending k' base ?r))), kring_cqe_seen c)"
    using poll_pending [OF a] posted_count [OF post assms(6)] posted_head [OF post] assms(7) q by simp
  have "\<exists>r'. ring_of k'' base = Some r' \<and> pending k'' base r' = tl (pending k' base ?r)"
    if "kring_publish_head (kring_cqe_seen c) k' = Some k''" for k''
    using publish_pending [OF a _ _ assms(3) that] q assms(2) ring_post_memory(2) [OF post] by auto
  then show ?thesis using poll q kcqe_round_trip by (simp add: Let_def)
qed

theorem channel_delivers_witness:
  "\<exists>k'. ring_post_locked 8192 \<lparr>cq_type = 1, cq_a = 2, cq_b = 3, cq_status = 0\<rparr> channel_kernel = Some (True, k') \<and>
     kring_poll \<lparr>kr_base = 8192, kr_nslots = 32, kr_sq_tail = 0, kr_cq_head = 0\<rparr> k' =
       Some (Some \<lparr>cq_type = 1, cq_a = 2, cq_b = 3, cq_status = 0\<rparr>,
         \<lparr>kr_base = 8192, kr_nslots = 32, kr_sq_tail = 0, kr_cq_head = 1\<rparr>)"
proof -
  let ?e = "\<lparr>cq_type = 1, cq_a = 2, cq_b = 3, cq_status = 0\<rparr>" and ?c = "\<lparr>kr_base = 8192, kr_nslots = 32, kr_sq_tail = 0, kr_cq_head = 0\<rparr>"
  obtain k' where k': "ring_post_locked 8192 ?e channel_kernel = Some (True, k')" "kaccess k' = kaccess channel_kernel"
    using channel_posts by blast
  have h: "cq_head channel_kernel 8192 = 0"
    by (simp add: cq_head_def channel_kernel_def sample_kernel_def le_word_def upt_rec)
  have n: "r_nslots channel_ring = 32" by (simp add: channel_ring_def KRING_NSLOTS_def)
  have a: "attached ?c 8192 channel_ring channel_kernel" by (simp add: attached_def h n)
  have acc: "kaccess k' 8192 4" "kaccess k' (8192 + of_nat (cqe_off (r_nslots channel_ring) (cq_head channel_kernel 8192))) 32"
    by (auto simp: k'(2) h n cqe_off_def canonical_def intro!: channel_access)
  have e: "pending channel_kernel 8192 channel_ring = []" by (simp add: pending_def h channel_ring_def)
  have "kring_poll ?c k' = Some (Some ?e, kring_cqe_seen ?c)"
    using channel_delivers [OF channel_ring_of channel_slots _ a k'(1) acc]
    unfolding Let_def e append_Nil list.sel kcqe_round_trip by blast
  then show ?thesis using k'(1) by (auto simp: kring_cqe_seen_def)
qed

end
